(* ===== verification/Prelude.thy ===== *)
theory Prelude
  imports Main "HOL-Library.Word"
begin

text \<open>
  Shared material of the development: the widths of the C++ integer types, the faults that a
  call can end in, the sequencing of fallible calls, the operations of \<open>std::vector\<close> and
  \<open>std::string\<close> the sources use, and generic lemmas on lists and words.

  \<^item> \<open>int8_t\<close>/\<open>uint8_t\<close> are \<open>8 word\<close>, \<open>int32_t\<close>/\<open>uint32_t\<close> are \<open>32 word\<close>,
    \<open>int64_t\<close>/\<open>uint64_t\<close> are \<open>64 word\<close>: a C++ conversion between integer types of one width
    keeps the bits, a widening one is \<open>scast\<close> (signed source) or \<open>ucast\<close> (unsigned source),
    a narrowing one is \<open>ucast\<close>; \<open>>>\<close> on a signed type is \<open>signed_drop_bit\<close>.
  \<^item> A fallible call returns \<open>fault + 'a\<close>: \<open>Inl\<close> carries the exception thrown, or the kind of
    undefined behaviour the call runs into.
\<close>

unbundle bit_operations_syntax

named_theorems fault_simps \<open>case analysis of fallible calls\<close>
named_theorems wf_intros \<open>operations keep the well-formedness of their component\<close>

type_synonym i8 = "8 word"
type_synonym i32 = "32 word"
type_synonym u32 = "32 word"
type_synonym i64 = "64 word"
type_synonym u64 = "64 word"

section \<open>Faults and their sequencing\<close>

text \<open>
  The exceptions of the sources with their texts; \<open>LengthError\<close> is what the constructor of
  \<open>std::vector\<close> throws for a size it cannot hold. \<open>OutOfBounds\<close> (indexing a vector or array
  outside its size), \<open>NullPointer\<close> (dereferencing an empty pointer), \<open>SignedOverflow\<close> and \<open>BadShift\<close>
  (a shift by at least the width) are undefined behaviour in C++. \<open>OverlappingOperation\<close> is an
  asynchronous read or write started on a socket while one of the same kind is outstanding, which
  asio does not allow.
\<close>

datatype fault =
    InvalidArgument string
  | RuntimeError string
  | OutOfRange string
  | LengthError
  | OutOfBounds
  | NullPointer
  | SignedOverflow
  | BadShift
  | OverlappingOperation

primrec bindR :: "fault + 'a \<Rightarrow> ('a \<Rightarrow> fault + 'b) \<Rightarrow> fault + 'b" where
  "bindR (Inl e) k = Inl e"
| "bindR (Inr x) k = k x"

lemma bindR_assoc: "bindR (bindR m f) g = bindR m (\<lambda>x. bindR (f x) g)"
  by (cases m) simp_all

lemma bindR_Inr_right [simp]: "bindR m Inr = m"
  by (cases m) simp_all

lemma bindR_eq_Inr [fault_simps]: "bindR m k = Inr y \<longleftrightarrow> (\<exists>x. m = Inr x \<and> k x = Inr y)"
  by (cases m) auto

lemma bindR_eq_Inl [fault_simps]:
  "bindR m k = Inl e \<longleftrightarrow> m = Inl e \<or> (\<exists>x. m = Inr x \<and> k x = Inl e)"
  by (cases m) auto

text \<open>
  A signed expression of type \<open>int32_t\<close>: its value is computed exactly, and one that is out of range is the fault
  \<open>SignedOverflow\<close>.
\<close>

definition in_i32 :: "int \<Rightarrow> bool" where
  "in_i32 n \<longleftrightarrow> - (2 ^ 31) \<le> n \<and> n < 2 ^ 31"

definition checked :: "int \<Rightarrow> (int \<Rightarrow> fault + 'a) \<Rightarrow> fault + 'a" where
  "checked n k = (if in_i32 n then k n else Inl SignedOverflow)"

lemma checked_simps [simp]:
  "in_i32 n \<Longrightarrow> checked n k = k n" "\<not> in_i32 n \<Longrightarrow> checked n k = Inl SignedOverflow"
  by (simp_all add: checked_def)

lemma in_i32_sint [simp]: "in_i32 (sint (v :: i32))"
  using sint_ge [of v] sint_lt [of v] by (simp add: in_i32_def)

text \<open>A list of calls run one after the other on a state.\<close>

primrec foldR :: "('b \<Rightarrow> 's \<Rightarrow> fault + 's) \<Rightarrow> 'b list \<Rightarrow> 's \<Rightarrow> fault + 's" where
  "foldR f [] s = Inr s"
| "foldR f (x # xs) s = bindR (f x s) (foldR f xs)"

lemma foldR_append: "foldR f (xs @ ys) s = bindR (foldR f xs s) (foldR f ys)"
proof (induction xs arbitrary: s)
  case Nil
  then show ?case by simp
next
  case (Cons x xs)
  then have "foldR f (xs @ ys) = (\<lambda>s. bindR (foldR f xs s) (foldR f ys))"
    by (simp add: fun_eq_iff)
  then show ?case by (simp add: bindR_assoc)
qed

lemma foldR_map: "foldR f (map g xs) s = foldR (\<lambda>x. f (g x)) xs s"
proof (induction xs arbitrary: s)
  case (Cons x xs)
  then have "foldR f (map g xs) = foldR (\<lambda>x. f (g x)) xs" by (simp add: fun_eq_iff)
  then show ?case by simp
qed simp

lemma foldR_invariant:
  assumes "foldR f xs s = Inr t" "P s"
    and "\<And>x s t. x \<in> set xs \<Longrightarrow> P s \<Longrightarrow> f x s = Inr t \<Longrightarrow> P t"
  shows "P t"
  using assms
proof (induction xs arbitrary: s)
  case Nil
  then show ?case by simp
next
  case (Cons x xs)
  from Cons.prems(1) obtain u where u: "f x s = Inr u" "foldR f xs u = Inr t"
    by (auto simp: fault_simps)
  have "P u" using Cons.prems(2,3) u(1) by auto
  then show ?case using Cons.IH [OF u(2)] Cons.prems(3) by auto
qed

text \<open>
  What a call can end in: a fault of the set \<open>F\<close>, or a result that satisfies \<open>Q\<close>. The rules follow the
  structure of the code.
\<close>

definition outcome :: "fault set \<Rightarrow> ('a \<Rightarrow> bool) \<Rightarrow> fault + 'a \<Rightarrow> bool" where
  "outcome F Q r \<longleftrightarrow> (case r of Inl e \<Rightarrow> e \<in> F | Inr v \<Rightarrow> Q v)"

named_theorems outcomes \<open>rules for the outcome of calls\<close>

lemma outcome_simps [simp]: "outcome F Q (Inl e) \<longleftrightarrow> e \<in> F" "outcome F Q (Inr v) \<longleftrightarrow> Q v"
  by (simp_all add: outcome_def)

lemma outcome_mono: "outcome F P r \<Longrightarrow> F \<subseteq> G \<Longrightarrow> (\<And>v. P v \<Longrightarrow> Q v) \<Longrightarrow> outcome G Q r"
  by (cases r) auto

lemma outcome_bind:
  "outcome F P m \<Longrightarrow> F \<subseteq> G \<Longrightarrow> (\<And>v. P v \<Longrightarrow> outcome G Q (k v)) \<Longrightarrow> outcome G Q (bindR m k)"
  by (cases m) auto

lemma outcome_if [outcomes]:
  "(b \<Longrightarrow> outcome F Q r) \<Longrightarrow> (\<not> b \<Longrightarrow> outcome F Q r') \<Longrightarrow> outcome F Q (if b then r else r')"
  by simp

lemma outcome_foldR:
  assumes "\<And>x s. x \<in> set xs \<Longrightarrow> P s \<Longrightarrow> outcome F P (f x s)" "P s"
  shows "outcome F P (foldR f xs s)"
  using assms
proof (induction xs arbitrary: s)
  case (Cons x xs)
  show ?case
    unfolding foldR.simps by (rule outcome_bind [of F P]) (use Cons in auto)
qed simp

lemma outcome_cases:
  assumes "outcome F Q r"
  obtains e where "r = Inl e" "e \<in> F" | v where "r = Inr v" "Q v"
  using assms by (cases r) auto

text \<open>Mapping a function with a state over a list.\<close>

primrec map_state :: "('a \<Rightarrow> 's \<Rightarrow> 'b \<times> 's) \<Rightarrow> 'a list \<Rightarrow> 's \<Rightarrow> 'b list \<times> 's" where
  "map_state f [] s = ([], s)"
| "map_state f (x # xs) s = (let (y, s) = f x s; (ys, s) = map_state f xs s in (y # ys, s))"

lemma map_state_Cons:
  "map_state f (x # xs) s =
   (fst (f x s) # fst (map_state f xs (snd (f x s))), snd (map_state f xs (snd (f x s))))"
  by (simp add: Let_def split: prod.splits)

section \<open>Vectors and strings\<close>

text \<open>\<open>std::vector::resize(n)\<close> cuts the vector or extends it with zeros.\<close>

definition resize :: "nat \<Rightarrow> 'a::zero list \<Rightarrow> 'a list" where
  "resize n xs = take n xs @ replicate (n - length xs) 0"

lemma length_resize [simp]: "length (resize n xs) = n"
  by (simp add: resize_def)

lemma nth_resize: "i < n \<Longrightarrow> resize n xs ! i = (if i < length xs then xs ! i else 0)"
  by (simp add: resize_def nth_append)

lemma resize_grow: "length xs \<le> n \<Longrightarrow> resize n xs = xs @ replicate (n - length xs) 0"
  by (simp add: resize_def)

lemma take_resize [simp]: "k \<le> n \<Longrightarrow> k \<le> length xs \<Longrightarrow> take k (resize n xs) = take k xs"
  by (simp add: resize_def)

lemma take_list_update_eq [simp]: "i < length xs \<Longrightarrow> take i (xs[i := v]) = take i xs"
  by simp

lemma take_Suc_list_update: "i < length xs \<Longrightarrow> take (Suc i) (xs[i := v]) = take i xs @ [v]"
  by (simp add: take_Suc_conv_app_nth)

lemma drop_eq_ConsD: "drop i xs = y # ys \<Longrightarrow> i < length xs \<and> xs ! i = y \<and> drop (Suc i) xs = ys"
  by (cases "i < length xs") (auto simp: Cons_nth_drop_Suc [symmetric])

text \<open>A \<open>std::string\<close> is a \<open>string\<close>; \<open>byte_of\<close> and \<open>char_at\<close> convert between \<open>char\<close> and \<open>uint8_t\<close>.\<close>

definition byte_of :: "char \<Rightarrow> 8 word" where
  "byte_of c = word_of_nat (of_char c)"

definition char_at :: "8 word \<Rightarrow> char" where
  "char_at b = char_of (unat b)"

lemma unat_byte_of [simp]: "unat (byte_of c) = of_char c"
  by (simp add: byte_of_def unat_of_nat take_bit_eq_mod)

lemma char_at_byte_of [simp]: "char_at (byte_of c) = c"
  by (simp add: char_at_def)

section \<open>Words\<close>

lemma and_255_take_bit: "a AND 255 = take_bit 8 a" for a :: "'a::semiring_bit_operations"
  by (simp add: take_bit_eq_mask mask_numeral)

lemma unat_take_bit: "unat (take_bit n w) = take_bit n (unat w)"
  by (simp add: unsigned_take_bit_eq)

lemma and_255_less [simp]: "(n::nat) AND 255 < 256"
  by (simp add: and_255_take_bit take_bit_eq_mod)

text \<open>The conversion of an \<open>int32_t\<close> to a byte is a ring homomorphism.\<close>

lemma take_bit_8_32:
  fixes a b :: int
  shows "take_bit 8 (take_bit 32 a + take_bit 32 b) = take_bit 8 (a + b)"
    and "take_bit 8 (take_bit 32 a - take_bit 32 b) = take_bit 8 (a - b)"
proof -
  have "take_bit 8 (take_bit 8 (take_bit 32 a) + take_bit 8 (take_bit 32 b)) =
      take_bit 8 (take_bit 8 a + take_bit 8 b)" by simp
  then show "take_bit 8 (take_bit 32 a + take_bit 32 b) = take_bit 8 (a + b)"
    by (simp only: take_bit_add)
  have "take_bit 8 (take_bit 8 (take_bit 32 a) - take_bit 8 (take_bit 32 b)) =
      take_bit 8 (take_bit 8 a - take_bit 8 b)" by simp
  then show "take_bit 8 (take_bit 32 a - take_bit 32 b) = take_bit 8 (a - b)"
    by (simp only: take_bit_diff)
qed

lemma ucast8_add: "(ucast (a + b :: 32 word) :: 8 word) = ucast a + ucast b"
  by transfer (simp add: take_bit_8_32)

lemma ucast8_minus: "(ucast (a - b :: 32 word) :: 8 word) = ucast a - ucast b"
  by transfer (simp add: take_bit_8_32)

lemma ucast8_uminus: "(ucast (- b :: 32 word) :: 8 word) = - ucast b"
  using ucast8_minus [of 0 b] by simp

lemma ucast8_scast: "(ucast (scast (x :: 8 word) :: 32 word) :: 8 word) = x"
  by (rule bit_word_eqI) (simp add: bit_simps)

lemma ucast8_ucast: "(ucast (ucast (x :: 8 word) :: 32 word) :: 8 word) = x"
  by (rule bit_word_eqI) (simp add: bit_simps)

lemmas ucast8_simps = ucast8_add ucast8_minus ucast8_uminus ucast8_scast ucast8_ucast

lemma and_255_ucast: "w AND 255 = ucast (ucast (w :: 32 word) :: 8 word)"
  by (rule bit_word_eqI) (simp add: and_255_take_bit bit_simps)

text \<open>An \<open>int32_t\<close> below \<open>2 ^ 31\<close> is not negative.\<close>

lemma sint_small: "uint w < 2 ^ 31 \<Longrightarrow> sint w = uint w" for w :: i32
proof -
  assume "uint w < 2 ^ 31"
  moreover have "- (2 ^ 31) \<le> uint w" by (rule order_trans [OF _ uint_ge_0]) simp
  ultimately show ?thesis by (simp add: sint_uint signed_take_bit_int_eq_self)
qed

lemma uint_of_sint: "0 \<le> sint w \<Longrightarrow> uint w = sint w" for w :: i32
  using sint_less [of w] by (simp add: uint_sint take_bit_int_eq_self)

lemma unat_of_sint: "0 \<le> sint w \<Longrightarrow> unat w = nat (sint w)" for w :: i32
  using uint_of_sint [of w] by (simp add: unat_eq_nat_uint)

end
