(* ===== verification/ISAACCipher.thy ===== *)
theory ISAACCipher
  imports Prelude
begin

text \<open>
  The stream cipher of \<open>src/src/ISAACCipher.h\<close> and \<open>src/src/ISAACCipher.cpp\<close>: the record
  \<open>ISAACCipher\<close> holds the fields of the class, \<open>ISAACCipher_new\<close> is the constructor,
  \<open>InitializeKeySet\<close>, \<open>GenerateNextKeySet\<close> and \<open>GetNextKey\<close> are the methods. The lemmas show
  that every array access stays in bounds, that the index arithmetic is that of Jenkins' reference
  generator, which key each call returns, and that the mixing of the seed loses no information.
  The locale \<open>keystream\<close> states what the packet code relies on.
\<close>

section \<open>The class\<close>

record ISAACCipher =
  m_KeySetArray :: "u32 list"
  m_CryptArray :: "u32 list"
  m_CryptVar1 :: u32
  m_CryptVar2 :: u32
  m_CryptVar3 :: u32
  m_KeyArrayIdx :: u32

definition SIZE :: nat where
  "SIZE = 256"

text \<open>The body of the loop of \<open>GenerateNextKeySet\<close> for one value of \<open>i\<close>.\<close>

definition GenerateNextKeySet_step :: "nat \<Rightarrow> ISAACCipher \<Rightarrow> ISAACCipher" where
  "GenerateNextKeySet_step i c =
     (let x = m_CryptArray c ! i;
          v = m_CryptVar1 c;
          v = (if i AND 3 = 0 then v XOR push_bit 13 v
               else if i AND 3 = 1 then v XOR drop_bit 6 v
               else if i AND 3 = 2 then v XOR push_bit 2 v
               else v XOR drop_bit 16 v);
          v = v + m_CryptArray c ! ((i + 128) AND 0xFF);
          y = m_CryptArray c ! unat (drop_bit 2 (x AND 0x3FC)) + v + m_CryptVar2 c;
          crypt = (m_CryptArray c)[i := y];
          r = crypt ! unat (drop_bit 2 (drop_bit 8 y AND 0x3FC)) + x
      in c\<lparr>m_CryptVar1 := v, m_CryptArray := crypt,
           m_CryptVar2 := r, m_KeySetArray := (m_KeySetArray c)[i := r]\<rparr>)"

definition GenerateNextKeySet :: "ISAACCipher \<Rightarrow> ISAACCipher" where
  "GenerateNextKeySet c =
     (let c = c\<lparr>m_CryptVar3 := m_CryptVar3 c + 1\<rparr>;
          c = c\<lparr>m_CryptVar2 := m_CryptVar2 c + m_CryptVar3 c\<rparr>
      in fold GenerateNextKeySet_step [0..<SIZE] c)"

text \<open>The eight local variables \<open>a\<close> to \<open>h\<close> of \<open>InitializeKeySet\<close>, and its lambda \<open>mix\<close>.\<close>

type_synonym regs = "u32 \<times> u32 \<times> u32 \<times> u32 \<times> u32 \<times> u32 \<times> u32 \<times> u32"

definition mix :: "regs \<Rightarrow> regs" where
  "mix r =
     (let (a, b, c, d, e, f, g, h) = r;
          a = a XOR push_bit 11 b; d = d + a; b = b + c;
          b = b XOR drop_bit 2 c;  e = e + b; c = c + d;
          c = c XOR push_bit 8 d;  f = f + c; d = d + e;
          d = d XOR drop_bit 16 e; g = g + d; e = e + f;
          e = e XOR push_bit 10 f; h = h + e; f = f + g;
          f = f XOR drop_bit 4 g;  a = a + f; g = g + h;
          g = g XOR push_bit 8 h;  b = b + g; h = h + a;
          h = h XOR drop_bit 9 a;  c = c + h; a = a + b
      in (a, b, c, d, e, f, g, h))"

definition add8 :: "u32 list \<Rightarrow> nat \<Rightarrow> regs \<Rightarrow> regs" where
  "add8 xs i r =
     (let (a, b, c, d, e, f, g, h) = r
      in (a + xs ! i, b + xs ! (i + 1), c + xs ! (i + 2), d + xs ! (i + 3),
          e + xs ! (i + 4), f + xs ! (i + 5), g + xs ! (i + 6), h + xs ! (i + 7)))"

definition store8 :: "regs \<Rightarrow> nat \<Rightarrow> u32 list \<Rightarrow> u32 list" where
  "store8 r i xs =
     (let (a, b, c, d, e, f, g, h) = r
      in xs[i := a, i + 1 := b, i + 2 := c, i + 3 := d,
            i + 4 := e, i + 5 := f, i + 6 := g, i + 7 := h])"

definition GOLDEN_RATIO :: u32 where
  "GOLDEN_RATIO = 0x9e3779b9"

definition golden_regs :: regs where
  "golden_regs =
     (GOLDEN_RATIO, GOLDEN_RATIO, GOLDEN_RATIO, GOLDEN_RATIO,
      GOLDEN_RATIO, GOLDEN_RATIO, GOLDEN_RATIO, GOLDEN_RATIO)"

text \<open>One round of the first loop (it adds the key set) and of the second (it adds the crypt array).\<close>

definition key_round :: "nat \<Rightarrow> regs \<times> ISAACCipher \<Rightarrow> regs \<times> ISAACCipher" where
  "key_round i s =
     (let (r, c) = s; r = mix (add8 (m_KeySetArray c) i r)
      in (r, c\<lparr>m_CryptArray := store8 r i (m_CryptArray c)\<rparr>))"

definition crypt_round :: "nat \<Rightarrow> regs \<times> ISAACCipher \<Rightarrow> regs \<times> ISAACCipher" where
  "crypt_round i s =
     (let (r, c) = s; r = mix (add8 (m_CryptArray c) i r)
      in (r, c\<lparr>m_CryptArray := store8 r i (m_CryptArray c)\<rparr>))"

definition every8 :: "nat list" where
  "every8 = map (\<lambda>k. 8 * k) [0..<SIZE div 8]"

definition InitializeKeySet :: "ISAACCipher \<Rightarrow> ISAACCipher" where
  "InitializeKeySet c =
     (let r = (mix ^^ 4) golden_regs;
          (r, c) = fold key_round every8 (r, c);
          (r, c) = fold crypt_round every8 (r, c);
          c = GenerateNextKeySet c
      in c\<lparr>m_KeyArrayIdx := word_of_nat SIZE\<rparr>)"

definition ISAACCipher_new :: "u32 \<Rightarrow> u32 \<Rightarrow> u32 \<Rightarrow> u32 \<Rightarrow> ISAACCipher" where
  "ISAACCipher_new s0 s1 s2 s3 =
     InitializeKeySet
       \<lparr>m_KeySetArray = (replicate SIZE 0)[0 := s0, 1 := s1, 2 := s2, 3 := s3],
        m_CryptArray = replicate SIZE 0,
        m_CryptVar1 = 0, m_CryptVar2 = 0, m_CryptVar3 = 0, m_KeyArrayIdx = 0\<rparr>"

definition GetNextKey :: "ISAACCipher \<Rightarrow> u32 \<times> ISAACCipher" where
  "GetNextKey c =
     (let old = m_KeyArrayIdx c;
          c = c\<lparr>m_KeyArrayIdx := old - 1\<rparr>;
          c = (if old = 0 then (GenerateNextKeySet c)\<lparr>m_KeyArrayIdx := 255\<rparr> else c)
      in (m_KeySetArray c ! unat (m_KeyArrayIdx c), c))"

section \<open>Well-formedness: every array access is in bounds\<close>

definition isaac_wf :: "ISAACCipher \<Rightarrow> bool" where
  "isaac_wf c \<longleftrightarrow>
     length (m_KeySetArray c) = 256 \<and> length (m_CryptArray c) = 256 \<and> unat (m_KeyArrayIdx c) \<le> 256"

lemma index_3FC: "unat (drop_bit 2 (x AND 0x3FC)) = unat (drop_bit 2 x) mod 256" for x :: u32
  by (simp add: and_255_take_bit unat_take_bit) (simp add: take_bit_eq_mod)

lemma index_3FC_less [simp]: "unat (drop_bit 2 (x AND 0x3FC)) < 256" for x :: u32
  by (simp only: index_3FC)

lemma isaac_wf_step:
  assumes "length (m_KeySetArray c) = 256" "length (m_CryptArray c) = 256"
  shows "length (m_KeySetArray (GenerateNextKeySet_step i c)) = 256"
    and "length (m_CryptArray (GenerateNextKeySet_step i c)) = 256"
    and "m_KeyArrayIdx (GenerateNextKeySet_step i c) = m_KeyArrayIdx c"
    and "m_CryptVar3 (GenerateNextKeySet_step i c) = m_CryptVar3 c"
  using assms by (simp_all add: GenerateNextKeySet_step_def Let_def)

lemma isaac_wf_steps:
  assumes "length (m_KeySetArray c) = 256" "length (m_CryptArray c) = 256"
  shows "length (m_KeySetArray (fold GenerateNextKeySet_step is c)) = 256 \<and>
    length (m_CryptArray (fold GenerateNextKeySet_step is c)) = 256 \<and>
    m_KeyArrayIdx (fold GenerateNextKeySet_step is c) = m_KeyArrayIdx c"
  using assms by (induction "is" arbitrary: c) (simp_all add: isaac_wf_step)

lemma GenerateNextKeySet_shape:
  assumes "length (m_KeySetArray c) = 256" "length (m_CryptArray c) = 256"
  shows "length (m_KeySetArray (GenerateNextKeySet c)) = 256"
    and "length (m_CryptArray (GenerateNextKeySet c)) = 256"
    and "m_KeyArrayIdx (GenerateNextKeySet c) = m_KeyArrayIdx c"
  using assms by (simp_all add: GenerateNextKeySet_def Let_def isaac_wf_steps)

lemma length_store8 [simp]: "length (store8 r i xs) = length xs"
  by (simp add: store8_def split: prod.splits)

lemma rounds_shape:
  "m_KeySetArray (snd (fold key_round is s)) = m_KeySetArray (snd s)"
  "length (m_CryptArray (snd (fold key_round is s))) = length (m_CryptArray (snd s))"
  "m_KeySetArray (snd (fold crypt_round is s)) = m_KeySetArray (snd s)"
  "length (m_CryptArray (snd (fold crypt_round is s))) = length (m_CryptArray (snd s))"
  by (induction "is" arbitrary: s)
    (simp_all add: key_round_def crypt_round_def Let_def split: prod.splits)

lemma InitializeKeySet_shape:
  assumes "length (m_KeySetArray c) = 256" "length (m_CryptArray c) = 256"
  shows "length (m_KeySetArray (InitializeKeySet c)) = 256"
    and "length (m_CryptArray (InitializeKeySet c)) = 256"
    and "m_KeyArrayIdx (InitializeKeySet c) = 256"
proof -
  obtain r1 c1 where s1: "fold key_round every8 ((mix ^^ 4) golden_regs, c) = (r1, c1)"
    by fastforce
  obtain r2 c2 where s2: "fold crypt_round every8 (r1, c1) = (r2, c2)"
    by fastforce
  have "length (m_KeySetArray c2) = 256" "length (m_CryptArray c2) = 256"
    using assms rounds_shape [of every8 "((mix ^^ 4) golden_regs, c)"]
      rounds_shape [of every8 "(r1, c1)"] by (simp_all add: s1 s2)
  then show "length (m_KeySetArray (InitializeKeySet c)) = 256"
    and "length (m_CryptArray (InitializeKeySet c)) = 256"
    and "m_KeyArrayIdx (InitializeKeySet c) = 256"
    by (simp_all add: InitializeKeySet_def Let_def s1 s2 GenerateNextKeySet_shape SIZE_def)
qed

lemma isaac_wf_new [wf_intros]: "isaac_wf (ISAACCipher_new s0 s1 s2 s3)"
  and ISAACCipher_new_idx: "m_KeyArrayIdx (ISAACCipher_new s0 s1 s2 s3) = 256"
  by (simp_all add: isaac_wf_def ISAACCipher_new_def InitializeKeySet_shape SIZE_def)

lemma isaac_wf_GetNextKey [wf_intros]: "isaac_wf c \<Longrightarrow> isaac_wf (snd (GetNextKey c))"
  and GetNextKey_idx_less: "isaac_wf c \<Longrightarrow> unat (m_KeyArrayIdx (snd (GetNextKey c))) < 256"
proof -
  assume wf: "isaac_wf c"
  have idx: "m_KeyArrayIdx c \<noteq> 0 \<Longrightarrow> unat (m_KeyArrayIdx c - 1) = unat (m_KeyArrayIdx c) - 1"
    by (simp add: unat_minus_one)
  from wf show "isaac_wf (snd (GetNextKey c))"
    by (auto simp: isaac_wf_def GetNextKey_def Let_def GenerateNextKeySet_shape idx)
  have "m_KeyArrayIdx c \<noteq> 0 \<Longrightarrow> 0 < unat (m_KeyArrayIdx c)"
    by (simp add: unat_gt_0)
  with wf idx show "unat (m_KeyArrayIdx (snd (GetNextKey c))) < 256"
    by (auto simp: isaac_wf_def GetNextKey_def Let_def)
qed

section \<open>The generator is the reference generator\<close>

text \<open>
  Jenkins' reference generator addresses its table by the numbers \<open>(x / 4) mod 256\<close> and
  \<open>(y / 1024) mod 256\<close>; one round of it on the accumulator, the last result, the table and the results.
\<close>

definition isaac_round :: "nat \<Rightarrow> u32 \<times> u32 \<times> u32 list \<times> u32 list \<Rightarrow> u32 \<times> u32 \<times> u32 list \<times> u32 list" where
  "isaac_round i s =
     (let (a, b, mm, rsl) = s;
          x = mm ! i;
          shifted = [a * 2 ^ 13, a div 2 ^ 6, a * 2 ^ 2, a div 2 ^ 16] ! (i mod 4);
          a = (a XOR shifted) + mm ! ((i + 128) mod 256);
          y = mm ! (unat x div 4 mod 256) + a + b;
          mm = mm[i := y];
          b = mm ! (unat y div 1024 mod 256) + x
      in (a, b, mm, rsl[i := b]))"

definition isaac_abs :: "ISAACCipher \<Rightarrow> u32 \<times> u32 \<times> u32 list \<times> u32 list" where
  "isaac_abs c = (m_CryptVar1 c, m_CryptVar2 c, m_CryptArray c, m_KeySetArray c)"

lemma unat_drop_8_div_4: "unat (drop_bit 8 x) div 4 = unat x div 1024" for x :: u32
  by (simp only: unat_drop_bit_eq) (simp add: drop_bit_eq_div div_mult2_eq [symmetric])

lemma drop_bit_nat_index:
  "unat (drop_bit 2 (x AND 0x3FC)) = unat x div 4 mod 256"
  "unat (drop_bit 2 (drop_bit 8 x AND 0x3FC)) = unat x div 1024 mod 256" for x :: u32
proof -
  have step: "unat (drop_bit 2 z) mod 256 = unat z div 4 mod 256" for z :: u32
    by (simp only: unat_drop_bit_eq) (simp add: drop_bit_eq_div)
  then show "unat (drop_bit 2 (x AND 0x3FC)) = unat x div 4 mod 256"
    by (simp only: index_3FC)
  show "unat (drop_bit 2 (drop_bit 8 x AND 0x3FC)) = unat x div 1024 mod 256"
    by (simp only: index_3FC step unat_drop_8_div_4)
qed

lemma and_3_mod: "(i::nat) AND 3 = i mod 4"
proof -
  have "(3::nat) = mask 2" by (simp add: mask_eq_exp_minus_1)
  then show ?thesis by (simp only: take_bit_eq_mask [symmetric]) (simp add: take_bit_eq_mod)
qed

lemma and_255_mod: "(i::nat) AND 255 = i mod 256"
  by (simp add: and_255_take_bit take_bit_eq_mod)

lemma step_is_round: "isaac_abs (GenerateNextKeySet_step i c) = isaac_round i (isaac_abs c)"
proof -
  have "i mod 4 < 4" by simp
  then consider "i mod 4 = 0" | "i mod 4 = 1" | "i mod 4 = 2" | "i mod 4 = 3" by linarith
  then show ?thesis
    unfolding isaac_abs_def GenerateNextKeySet_step_def isaac_round_def Let_def
      drop_bit_nat_index unat_drop_8_div_4 and_3_mod and_255_mod
    by cases (simp_all add: push_bit_eq_mult drop_bit_eq_div)
qed

lemma steps_are_rounds:
  "isaac_abs (fold GenerateNextKeySet_step is c) = fold isaac_round is (isaac_abs c)"
  by (induction "is" arbitrary: c) (simp_all add: step_is_round)

section \<open>Mixing the seed\<close>

text \<open>Each line of \<open>mix\<close> is the same operation on the registers, rotated by one, with its own shift.\<close>

definition mix_line :: "(u32 \<Rightarrow> u32) \<Rightarrow> regs \<Rightarrow> regs" where
  "mix_line shift r =
     (let (a, b, c, d, e, f, g, h) = r; a = a XOR shift b; d = d + a; b = b + c
      in (b, c, d, e, f, g, h, a))"

definition unmix_line :: "(u32 \<Rightarrow> u32) \<Rightarrow> regs \<Rightarrow> regs" where
  "unmix_line shift r =
     (let (b, c, d, e, f, g, h, a) = r; b = b - c; d = d - a; a = a XOR shift b
      in (a, b, c, d, e, f, g, h))"

lemma unmix_line: "unmix_line shift (mix_line shift r) = r"
  by (auto simp: unmix_line_def mix_line_def Let_def xor.assoc split: prod.splits)

lemma mix_lines:
  "mix = mix_line (drop_bit 9) \<circ> mix_line (push_bit 8) \<circ> mix_line (drop_bit 4) \<circ>
     mix_line (push_bit 10) \<circ> mix_line (drop_bit 16) \<circ> mix_line (push_bit 8) \<circ>
     mix_line (drop_bit 2) \<circ> mix_line (push_bit 11)" (is "_ = ?rhs")
proof
  fix r :: regs
  obtain a b c d e f g h where "r = (a, b, c, d, e, f, g, h)"
    by (metis surj_pair)
  then show "mix r = ?rhs r"
    by (simp only: mix_def mix_line_def Let_def o_def prod.case)
qed

lemma mix_inj: "inj mix"
proof -
  have "inj (mix_line s)" for s by (rule inj_on_inverseI) (rule unmix_line)
  then show ?thesis unfolding mix_lines by (intro inj_compose)
qed
section \<open>The key stream\<close>

text \<open>Generating a key set neither reads nor writes the read index.\<close>

lemma GenerateNextKeySet_step_idx:
  "GenerateNextKeySet_step i (c\<lparr>m_KeyArrayIdx := j\<rparr>) =
   (GenerateNextKeySet_step i c)\<lparr>m_KeyArrayIdx := j\<rparr>"
  by (simp add: GenerateNextKeySet_step_def Let_def)

lemma GenerateNextKeySet_idx:
  "GenerateNextKeySet (c\<lparr>m_KeyArrayIdx := j\<rparr>) = (GenerateNextKeySet c)\<lparr>m_KeyArrayIdx := j\<rparr>"
proof -
  have "fold GenerateNextKeySet_step is (c\<lparr>m_KeyArrayIdx := j\<rparr>) =
      (fold GenerateNextKeySet_step is c)\<lparr>m_KeyArrayIdx := j\<rparr>" for "is" and c :: ISAACCipher
    by (induction "is" arbitrary: c) (simp_all add: GenerateNextKeySet_step_idx)
  from this [of "[0..<SIZE]"
      "c\<lparr>m_CryptVar3 := m_CryptVar3 c + 1, m_CryptVar2 := m_CryptVar2 c + (m_CryptVar3 c + 1)\<rparr>"]
  show ?thesis by (cases c) (simp add: GenerateNextKeySet_def Let_def)
qed

lemma key_sets_idx:
  "(GenerateNextKeySet ^^ q) (c\<lparr>m_KeyArrayIdx := j\<rparr>) =
   ((GenerateNextKeySet ^^ q) c)\<lparr>m_KeyArrayIdx := j\<rparr>"
  by (induction q) (simp_all add: GenerateNextKeySet_idx)

text \<open>
  The keys a cipher will return, in order: each key set is read from its last entry to its first,
  then the next one is generated.
\<close>

definition isaac_stream :: "ISAACCipher \<Rightarrow> nat \<Rightarrow> u32" where
  "isaac_stream c n =
     (let k = n + 256 - unat (m_KeyArrayIdx c)
      in m_KeySetArray ((GenerateNextKeySet ^^ (k div 256)) c) ! (255 - k mod 256))"

text \<open>What the packet code relies on: a cipher is a stream of keys, read one at a time.\<close>

locale keystream =
  fixes next_key :: "'c \<Rightarrow> u32 \<times> 'c"
    and stream :: "'c \<Rightarrow> nat \<Rightarrow> u32"
    and ok :: "'c \<Rightarrow> bool"
  assumes next_key_hd: "ok c \<Longrightarrow> fst (next_key c) = stream c 0"
    and next_key_tl: "ok c \<Longrightarrow> stream (snd (next_key c)) n = stream c (Suc n)"
    and next_key_ok: "ok c \<Longrightarrow> ok (snd (next_key c))"
begin

lemma advance_ok: "ok c \<Longrightarrow> ok (((\<lambda>c. snd (next_key c)) ^^ n) c)"
  by (induction n) (simp_all add: next_key_ok)

lemma advance_stream:
  "ok c \<Longrightarrow> stream (((\<lambda>c. snd (next_key c)) ^^ n) c) m = stream c (n + m)"
  by (induction n arbitrary: m) (simp_all add: next_key_tl advance_ok)

lemma nth_key: "ok c \<Longrightarrow> fst (next_key (((\<lambda>c. snd (next_key c)) ^^ n) c)) = stream c n"
  by (simp add: next_key_hd advance_ok advance_stream)

end

lemma GetNextKey_hd: "isaac_wf c \<Longrightarrow> fst (GetNextKey c) = isaac_stream c 0"
proof -
  assume wf: "isaac_wf c"
  show ?thesis
  proof (cases "m_KeyArrayIdx c = 0")
    case True
    then show ?thesis
      by (simp add: GetNextKey_def isaac_stream_def Let_def GenerateNextKeySet_idx)
  next
    case False
    then have "0 < unat (m_KeyArrayIdx c)" by (simp add: unat_gt_0)
    with wf have "(256 - unat (m_KeyArrayIdx c)) div 256 = 0"
      "255 - (256 - unat (m_KeyArrayIdx c)) mod 256 = unat (m_KeyArrayIdx c) - 1"
      by (auto simp: isaac_wf_def)
    with False show ?thesis
      by (simp add: GetNextKey_def isaac_stream_def Let_def unat_minus_one)
  qed
qed

lemma GetNextKey_tl: "isaac_wf c \<Longrightarrow> isaac_stream (snd (GetNextKey c)) n = isaac_stream c (Suc n)"
proof -
  assume wf: "isaac_wf c"
  show ?thesis
  proof (cases "m_KeyArrayIdx c = 0")
    case True
    have "(Suc n + 256) div 256 = Suc (Suc n div 256)" "(Suc n + 256) mod 256 = Suc n mod 256"
      by (simp_all only: div_add_self2 mod_add_self2 Suc_eq_plus1)
    with True show ?thesis
      by (simp add: GetNextKey_def isaac_stream_def Let_def GenerateNextKeySet_idx key_sets_idx
          funpow_Suc_right del: funpow.simps)
  next
    case False
    then have "0 < unat (m_KeyArrayIdx c)" by (simp add: unat_gt_0)
    with wf have "n + 256 - (unat (m_KeyArrayIdx c) - 1) = Suc n + 256 - unat (m_KeyArrayIdx c)"
      by (auto simp: isaac_wf_def)
    with False show ?thesis
      by (simp add: GetNextKey_def isaac_stream_def Let_def unat_minus_one key_sets_idx)
  qed
qed

interpretation isaac: keystream GetNextKey isaac_stream isaac_wf
  by unfold_locales (simp_all add: GetNextKey_hd GetNextKey_tl isaac_wf_GetNextKey)

section \<open>Properties\<close>

text \<open>
  C33: the \<open>n\<close>-th key a freshly seeded cipher returns is entry \<open>255 - n mod 256\<close> of the
  \<open>(n div 256)\<close>-th key set after the one \<open>InitializeKeySet\<close> generates: each key set is read
  backwards and in full before the next one is generated.
\<close>

theorem isaac_nth_key:
  "fst (GetNextKey (((\<lambda>c. snd (GetNextKey c)) ^^ n) (ISAACCipher_new s0 s1 s2 s3))) =
   m_KeySetArray ((GenerateNextKeySet ^^ (n div 256)) (ISAACCipher_new s0 s1 s2 s3)) !
     (255 - n mod 256)"
  by (simp add: isaac.nth_key isaac_wf_new isaac_stream_def ISAACCipher_new_idx)

text \<open>
  However many keys are drawn from a seeded cipher, both arrays keep their 256 entries and
  every key is read from an index below 256 (the wrap-around of \<open>m_KeyArrayIdx--\<close> at zero is
  always repaired before the array is read).
\<close>

lemma isaac_in_bounds:
  "let c = ((\<lambda>c. snd (GetNextKey c)) ^^ n) (ISAACCipher_new s0 s1 s2 s3)
   in isaac_wf c \<and> unat (m_KeyArrayIdx (snd (GetNextKey c))) < 256"
proof -
  have "isaac_wf (((\<lambda>c. snd (GetNextKey c)) ^^ n) (ISAACCipher_new s0 s1 s2 s3))"
    by (rule isaac.advance_ok) (rule isaac_wf_new)
  then show ?thesis by (simp add: Let_def GetNextKey_idx_less)
qed

text \<open>
  C34: \<open>GenerateNextKeySet\<close> computes one pass of Jenkins' ISAAC generator over all 256 table
  entries: the masked shifts of the code select the table entries \<open>(x / 4) mod 256\<close> and
  \<open>(y / 1024) mod 256\<close> of the reference.
\<close>

theorem isaac_reference:
  "isaac_abs (GenerateNextKeySet c) =
   fold isaac_round [0..<256]
     (m_CryptVar1 c, m_CryptVar2 c + (m_CryptVar3 c + 1), m_CryptArray c, m_KeySetArray c)"
  unfolding GenerateNextKeySet_def Let_def steps_are_rounds SIZE_def
  by (simp add: isaac_abs_def)

text \<open>
  The mixing function of \<open>InitializeKeySet\<close> is a bijection of the eight registers, so no
  part of the seed is lost in a round.
\<close>

lemma isaac_mix_bij: "bij mix"
  using mix_inj by (simp add: bij_def finite_UNIV_inj_surj)

end
