(* ===== verification/StreamBuffer.thy ===== *)
theory StreamBuffer
  imports ISAACCipher
begin

text \<open>
  The packet buffer of \<open>src/src/StreamBuffer.h\<close> and \<open>src/src/StreamBuffer.cpp\<close>: its state as the
  record \<open>StreamBuffer\<close> and one definition per member function. \<open>m_Pos\<close>, \<open>m_BitPosition\<close> and
  \<open>m_FrameSize\<close>, of type \<open>int32_t\<close>, are never negative (they start at 0, grow, or are derived from one another) and
  are natural numbers; where a write or a change of the access type makes one of them leave the range below \<open>2 ^ 31\<close>, the
  result is the fault \<open>SignedOverflow\<close>. A read moves the position only inside the vector, which has fewer than
  \<open>2 ^ 31\<close> bytes (received data has at most 512), so it cannot overflow. Conversions to \<open>size_t\<close> are written out where a
  negative value can occur (\<open>WriteFrameSizeShort\<close>, \<open>WriteFrameSizeByte\<close>). Values are \<open>int32_t\<close> as 32-bit words; the signed
  arithmetic of \<open>WriteByte\<close> on them is \<open>checked\<close>. Reading
  past the end of the vector is undefined behaviour in C++ and the fault \<open>OutOfBounds\<close> here.
\<close>

section \<open>Types\<close>

datatype ByteOrder = LITTLE | BIG | MIDDLE | INVERSE_MIDDLE

datatype ValueType = VT_STANDARD | VT_A | VT_C | VT_S

datatype AccessType = BYTE_ACCESS | BIT_ACCESS

datatype VariableHeaderSize = HS_NONE | HS_BYTE | HS_SHORT

definition BIT_MASK :: "i32 list" where
  "BIT_MASK =
    [0, 0x1, 0x3, 0x7, 0xf, 0x1f, 0x3f, 0x7f, 0xff,
     0x1ff, 0x3ff, 0x7ff, 0xfff, 0x1fff, 0x3fff, 0x7fff, 0xffff,
     0x1ffff, 0x3ffff, 0x7ffff, 0xfffff, 0x1fffff, 0x3fffff,
     0x7fffff, 0xffffff, 0x1ffffff, 0x3ffffff, 0x7ffffff,
     0xfffffff, 0x1fffffff, 0x3fffffff, 0x7fffffff, -1]"

definition DEFAULT_BUFFER_SIZE :: nat where
  "DEFAULT_BUFFER_SIZE = 512"

record StreamBuffer =
  m_AccessType :: AccessType
  m_BitPosition :: nat
  m_Pos :: nat
  m_FrameSize :: nat
  m_HeaderSize :: VariableHeaderSize
  m_Buffer :: "i8 list"

section \<open>Construction and position\<close>

definition StreamBuffer_data :: "i8 list \<Rightarrow> StreamBuffer" where
  "StreamBuffer_data xs =
     \<lparr>m_AccessType = BYTE_ACCESS, m_BitPosition = 0, m_Pos = 0, m_FrameSize = 0,
      m_HeaderSize = HS_NONE, m_Buffer = xs\<rparr>"

definition StreamBuffer_sized :: "nat \<Rightarrow> StreamBuffer" where
  "StreamBuffer_sized n = StreamBuffer_data (replicate n 0)"

definition StreamBuffer_default :: StreamBuffer where
  "StreamBuffer_default = StreamBuffer_sized DEFAULT_BUFFER_SIZE"

definition SetAccessType :: "AccessType \<Rightarrow> StreamBuffer \<Rightarrow> fault + StreamBuffer" where
  "SetAccessType type b =
     (case type of
        BIT_ACCESS \<Rightarrow>
          if m_Pos b * 8 < 2 ^ 31 then Inr (b\<lparr>m_AccessType := type, m_BitPosition := m_Pos b * 8\<rparr>)
          else Inl SignedOverflow
      | BYTE_ACCESS \<Rightarrow>
          if m_BitPosition b + 7 < 2 ^ 31 then Inr (b\<lparr>m_AccessType := type, m_Pos := (m_BitPosition b + 7) div 8\<rparr>)
          else Inl SignedOverflow)"

definition Clear :: "StreamBuffer \<Rightarrow> StreamBuffer" where
  "Clear b = b\<lparr>m_Buffer := [], m_Pos := 0\<rparr>"

abbreviation (input) StreamBuffer_Position :: "StreamBuffer \<Rightarrow> nat" where
  "StreamBuffer_Position \<equiv> m_Pos"

abbreviation (input) GetAccessType :: "StreamBuffer \<Rightarrow> AccessType" where
  "GetAccessType \<equiv> m_AccessType"

abbreviation (input) GetBitPosition :: "StreamBuffer \<Rightarrow> nat" where
  "GetBitPosition \<equiv> m_BitPosition"

abbreviation (input) Data :: "StreamBuffer \<Rightarrow> i8 list" where
  "Data \<equiv> m_Buffer"

definition HasRemaining :: "StreamBuffer \<Rightarrow> bool" where
  "HasRemaining b \<longleftrightarrow> m_Pos b < length (m_Buffer b)"

definition Remaining :: "StreamBuffer \<Rightarrow> int" where
  "Remaining b = int (length (m_Buffer b)) - int (m_Pos b)"

section \<open>Reading\<close>

definition ReadByte :: "bool \<Rightarrow> ValueType \<Rightarrow> StreamBuffer \<Rightarrow> fault + i32 \<times> StreamBuffer" where
  "ReadByte isSigned type b =
     (if m_Pos b < length (m_Buffer b)
      then let raw = m_Buffer b ! m_Pos b;
               b = b\<lparr>m_Pos := m_Pos b + 1\<rparr>;
               value = (scast raw :: i32);
               value = (case type of VT_A \<Rightarrow> value - 128 | VT_C \<Rightarrow> - value
                        | VT_S \<Rightarrow> 128 - value | VT_STANDARD \<Rightarrow> value)
           in Inr (if isSigned then value else value AND 0xFF, b)
      else Inl OutOfBounds)"

text \<open>
  The overloads that supply default arguments. The letters at the end name the arguments that are left: \<open>S\<close> for
  \<open>isSigned\<close>, \<open>T\<close> for \<open>type\<close>, \<open>O\<close> for \<open>order\<close>.
\<close>

abbreviation (input) ReadByte0 :: "StreamBuffer \<Rightarrow> fault + i32 \<times> StreamBuffer" where
  "ReadByte0 \<equiv> ReadByte True VT_STANDARD"

abbreviation (input) ReadByteS :: "bool \<Rightarrow> StreamBuffer \<Rightarrow> fault + i32 \<times> StreamBuffer" where
  "ReadByteS isSigned \<equiv> ReadByte isSigned VT_STANDARD"

abbreviation (input) ReadByteT :: "ValueType \<Rightarrow> StreamBuffer \<Rightarrow> fault + i32 \<times> StreamBuffer" where
  "ReadByteT type \<equiv> ReadByte True type"

abbreviation ReadUByte :: "StreamBuffer \<Rightarrow> fault + i32 \<times> StreamBuffer" where
  "ReadUByte \<equiv> ReadByteS False"

definition ReadShort ::
  "bool \<Rightarrow> ValueType \<Rightarrow> ByteOrder \<Rightarrow> StreamBuffer \<Rightarrow> fault + i32 \<times> StreamBuffer" where
  "ReadShort isSigned type order b =
     bindR
       (case order of
          BIG \<Rightarrow>
            bindR (ReadUByte b) (\<lambda>(high, b).
            bindR (ReadByte False type b) (\<lambda>(low, b). Inr (push_bit 8 high OR low, b)))
        | LITTLE \<Rightarrow>
            bindR (ReadByte False type b) (\<lambda>(low, b).
            bindR (ReadUByte b) (\<lambda>(high, b). Inr (push_bit 8 high OR low, b)))
        | _ \<Rightarrow> Inl (InvalidArgument ''Unsupported ByteOrder for ReadShort''))
       (\<lambda>(value, b). Inr (if isSigned then value else value AND 0xFFFF, b))"

definition ReadInt ::
  "bool \<Rightarrow> ValueType \<Rightarrow> ByteOrder \<Rightarrow> StreamBuffer \<Rightarrow> fault + i32 \<times> StreamBuffer" where
  "ReadInt isSigned type order b =
     (case order of
        BIG \<Rightarrow>
          bindR (ReadUByte b) (\<lambda>(b1, b).
          bindR (ReadUByte b) (\<lambda>(b2, b).
          bindR (ReadUByte b) (\<lambda>(b3, b).
          bindR (ReadByte False type b) (\<lambda>(b4, b).
          Inr (push_bit 24 b1 OR push_bit 16 b2 OR push_bit 8 b3 OR b4, b)))))
      | MIDDLE \<Rightarrow>
          bindR (ReadUByte b) (\<lambda>(b1, b).
          bindR (ReadByte False type b) (\<lambda>(b2, b).
          bindR (ReadUByte b) (\<lambda>(b3, b).
          bindR (ReadUByte b) (\<lambda>(b4, b).
          Inr (push_bit 8 b1 OR b2 OR push_bit 24 b3 OR push_bit 16 b4, b)))))
      | INVERSE_MIDDLE \<Rightarrow>
          bindR (ReadUByte b) (\<lambda>(b1, b).
          bindR (ReadUByte b) (\<lambda>(b2, b).
          bindR (ReadByte False type b) (\<lambda>(b3, b).
          bindR (ReadUByte b) (\<lambda>(b4, b).
          Inr (push_bit 16 b1 OR push_bit 24 b2 OR b3 OR push_bit 8 b4, b)))))
      | LITTLE \<Rightarrow>
          bindR (ReadByte False type b) (\<lambda>(b1, b).
          bindR (ReadUByte b) (\<lambda>(b2, b).
          bindR (ReadUByte b) (\<lambda>(b3, b).
          bindR (ReadUByte b) (\<lambda>(b4, b).
          Inr (b1 OR push_bit 8 b2 OR push_bit 16 b3 OR push_bit 24 b4, b))))))"

text \<open>One statement \<open>value |= static_cast<int64_t>(ReadByte(false, type)) << n\<close> of \<open>ReadLong\<close>.\<close>

definition or_byte :: "ValueType \<Rightarrow> nat \<Rightarrow> i64 \<times> StreamBuffer \<Rightarrow> fault + i64 \<times> StreamBuffer" where
  "or_byte type n s =
     bindR (ReadByte False type (snd s)) (\<lambda>(v, b). Inr (fst s OR push_bit n (scast v), b))"

definition ReadLong :: "ValueType \<Rightarrow> ByteOrder \<Rightarrow> StreamBuffer \<Rightarrow> fault + i64 \<times> StreamBuffer" where
  "ReadLong type order b =
     (case order of
        BIG \<Rightarrow>
          foldR (\<lambda>(t, n). or_byte t n)
            [(VT_STANDARD, 56), (VT_STANDARD, 48), (VT_STANDARD, 40), (VT_STANDARD, 32),
             (VT_STANDARD, 24), (VT_STANDARD, 16), (VT_STANDARD, 8), (type, 0)] (0, b)
      | LITTLE \<Rightarrow>
          foldR (\<lambda>(t, n). or_byte t n)
            [(type, 0), (VT_STANDARD, 8), (VT_STANDARD, 16), (VT_STANDARD, 24),
             (VT_STANDARD, 32), (VT_STANDARD, 40), (VT_STANDARD, 48), (VT_STANDARD, 56)] (0, b)
      | _ \<Rightarrow> Inl (InvalidArgument ''Unsupported ByteOrder for ReadLong''))"

abbreviation (input) ReadShort0 :: "StreamBuffer \<Rightarrow> fault + i32 \<times> StreamBuffer" where
  "ReadShort0 \<equiv> ReadShort True VT_STANDARD BIG"

abbreviation (input) ReadShortS :: "bool \<Rightarrow> StreamBuffer \<Rightarrow> fault + i32 \<times> StreamBuffer" where
  "ReadShortS isSigned \<equiv> ReadShort isSigned VT_STANDARD BIG"

abbreviation (input) ReadShortT :: "ValueType \<Rightarrow> StreamBuffer \<Rightarrow> fault + i32 \<times> StreamBuffer" where
  "ReadShortT type \<equiv> ReadShort True type BIG"

abbreviation (input) ReadShortST :: "bool \<Rightarrow> ValueType \<Rightarrow> StreamBuffer \<Rightarrow> fault + i32 \<times> StreamBuffer" where
  "ReadShortST isSigned type \<equiv> ReadShort isSigned type BIG"

abbreviation (input) ReadShortO :: "ByteOrder \<Rightarrow> StreamBuffer \<Rightarrow> fault + i32 \<times> StreamBuffer" where
  "ReadShortO order \<equiv> ReadShort True VT_STANDARD order"

abbreviation (input) ReadShortSO :: "bool \<Rightarrow> ByteOrder \<Rightarrow> StreamBuffer \<Rightarrow> fault + i32 \<times> StreamBuffer" where
  "ReadShortSO isSigned order \<equiv> ReadShort isSigned VT_STANDARD order"

abbreviation (input) ReadShortTO :: "ValueType \<Rightarrow> ByteOrder \<Rightarrow> StreamBuffer \<Rightarrow> fault + i32 \<times> StreamBuffer" where
  "ReadShortTO type order \<equiv> ReadShort True type order"

abbreviation (input) ReadInt0 :: "StreamBuffer \<Rightarrow> fault + i32 \<times> StreamBuffer" where
  "ReadInt0 \<equiv> ReadInt True VT_STANDARD BIG"

abbreviation (input) ReadIntS :: "bool \<Rightarrow> StreamBuffer \<Rightarrow> fault + i32 \<times> StreamBuffer" where
  "ReadIntS isSigned \<equiv> ReadInt isSigned VT_STANDARD BIG"

abbreviation (input) ReadIntT :: "ValueType \<Rightarrow> StreamBuffer \<Rightarrow> fault + i32 \<times> StreamBuffer" where
  "ReadIntT type \<equiv> ReadInt True type BIG"

abbreviation (input) ReadIntST :: "bool \<Rightarrow> ValueType \<Rightarrow> StreamBuffer \<Rightarrow> fault + i32 \<times> StreamBuffer" where
  "ReadIntST isSigned type \<equiv> ReadInt isSigned type BIG"

abbreviation (input) ReadIntO :: "ByteOrder \<Rightarrow> StreamBuffer \<Rightarrow> fault + i32 \<times> StreamBuffer" where
  "ReadIntO order \<equiv> ReadInt True VT_STANDARD order"

abbreviation (input) ReadIntSO :: "bool \<Rightarrow> ByteOrder \<Rightarrow> StreamBuffer \<Rightarrow> fault + i32 \<times> StreamBuffer" where
  "ReadIntSO isSigned order \<equiv> ReadInt isSigned VT_STANDARD order"

abbreviation (input) ReadIntTO :: "ValueType \<Rightarrow> ByteOrder \<Rightarrow> StreamBuffer \<Rightarrow> fault + i32 \<times> StreamBuffer" where
  "ReadIntTO type order \<equiv> ReadInt True type order"

abbreviation (input) ReadLong0 :: "StreamBuffer \<Rightarrow> fault + i64 \<times> StreamBuffer" where
  "ReadLong0 \<equiv> ReadLong VT_STANDARD BIG"

abbreviation (input) ReadLongT :: "ValueType \<Rightarrow> StreamBuffer \<Rightarrow> fault + i64 \<times> StreamBuffer" where
  "ReadLongT type \<equiv> ReadLong type BIG"

abbreviation (input) ReadLongO :: "ByteOrder \<Rightarrow> StreamBuffer \<Rightarrow> fault + i64 \<times> StreamBuffer" where
  "ReadLongO order \<equiv> ReadLong VT_STANDARD order"

definition maxLength :: nat where
  "maxLength = 1024"

text \<open>The loop of \<open>ReadString\<close>: \<open>count\<close> bytes have been appended to \<open>result\<close> so far.\<close>

function ReadString_loop ::
  "nat \<Rightarrow> string \<Rightarrow> StreamBuffer \<Rightarrow> fault + string \<times> StreamBuffer" where
  "ReadString_loop count result b =
     bindR (ReadUByte b) (\<lambda>(v, b').
       let byte = (ucast v :: 8 word)
       in if byte = 10 then Inr (result, b')
          else if count + 1 > maxLength
            then Inl (RuntimeError ''StreamBuffer::ReadString exceeded max allowed length'')
          else ReadString_loop (count + 1) (result @ [char_at byte]) b')"
  by pat_completeness auto
termination
  by (relation "measure (\<lambda>(count, result, b). maxLength - count)") auto

declare ReadString_loop.simps [simp del]

definition ReadString :: "StreamBuffer \<Rightarrow> fault + string \<times> StreamBuffer" where
  "ReadString b = ReadString_loop 0 [] b"

section \<open>Writing\<close>

text \<open>The \<open>switch\<close> of \<open>WriteByte\<close>, before the result is checked to be an \<open>int32_t\<close>.\<close>

definition typed_value :: "ValueType \<Rightarrow> int \<Rightarrow> int" where
  "typed_value type value =
     (case type of VT_A \<Rightarrow> value + 128 | VT_C \<Rightarrow> - value | VT_S \<Rightarrow> 128 - value | VT_STANDARD \<Rightarrow> value)"

definition WriteByte :: "i32 \<Rightarrow> ValueType \<Rightarrow> StreamBuffer \<Rightarrow> fault + StreamBuffer" where
  "WriteByte value type b =
     (if m_AccessType b \<noteq> BYTE_ACCESS then Inl (InvalidArgument ''Illegal access type.'')
      else checked (typed_value type (sint value)) (\<lambda>value.
        let byteValue = (word_of_int value :: i8);
            buf = (if m_Pos b \<ge> length (m_Buffer b) then resize (m_Pos b + 1) (m_Buffer b)
                   else m_Buffer b)
        in if m_Pos b + 1 < 2 ^ 31
           then Inr (b\<lparr>m_Buffer := buf[m_Pos b := byteValue], m_Pos := m_Pos b + 1\<rparr>)
           else Inl SignedOverflow))"

definition WriteBytes :: "StreamBuffer \<Rightarrow> StreamBuffer \<Rightarrow> fault + StreamBuffer" where
  "WriteBytes other b =
     (let count = m_Pos other
      in if count = 0 then Inr b
         else if \<not> m_Pos b + count < 2 ^ 31 then Inl SignedOverflow
         else
           let buf = (if m_Pos b + count > length (m_Buffer b)
                      then resize (m_Pos b + count + DEFAULT_BUFFER_SIZE) (m_Buffer b)
                      else m_Buffer b)
           in if count > length (m_Buffer other) then Inl OutOfBounds
              else Inr (b\<lparr>m_Buffer := take (m_Pos b) buf @ take count (m_Buffer other) @
                                       drop (m_Pos b + count) buf,
                          m_Pos := m_Pos b + count\<rparr>))"

definition WriteShort :: "i32 \<Rightarrow> ValueType \<Rightarrow> ByteOrder \<Rightarrow> StreamBuffer \<Rightarrow> fault + StreamBuffer" where
  "WriteShort value type order b =
     (case order of
        BIG \<Rightarrow>
          bindR (WriteByte (signed_drop_bit 8 value) VT_STANDARD b) (WriteByte value type)
      | LITTLE \<Rightarrow>
          bindR (WriteByte value type b) (WriteByte (signed_drop_bit 8 value) VT_STANDARD)
      | _ \<Rightarrow> Inl (InvalidArgument ''Unsupported ByteOrder for WriteShort''))"

definition WriteInt :: "i32 \<Rightarrow> ValueType \<Rightarrow> ByteOrder \<Rightarrow> StreamBuffer \<Rightarrow> fault + StreamBuffer" where
  "WriteInt value type order b =
     (let shifted = (\<lambda>n. WriteByte (signed_drop_bit n value) VT_STANDARD);
          low = WriteByte value type
      in foldR (\<lambda>w. w)
           (case order of
              BIG \<Rightarrow> [shifted 24, shifted 16, shifted 8, low]
            | MIDDLE \<Rightarrow> [shifted 8, low, shifted 24, shifted 16]
            | INVERSE_MIDDLE \<Rightarrow> [shifted 16, shifted 24, low, shifted 8]
            | LITTLE \<Rightarrow> [low, shifted 8, shifted 16, shifted 24]) b)"

definition WriteLong :: "i64 \<Rightarrow> ValueType \<Rightarrow> ByteOrder \<Rightarrow> StreamBuffer \<Rightarrow> fault + StreamBuffer" where
  "WriteLong value type order b =
     (let shifted = (\<lambda>n. WriteByte (ucast (signed_drop_bit n value)) VT_STANDARD);
          low = WriteByte (ucast value) type
      in case order of
           BIG \<Rightarrow>
             foldR (\<lambda>w. w) [shifted 56, shifted 48, shifted 40, shifted 32,
                            shifted 24, shifted 16, shifted 8, low] b
         | LITTLE \<Rightarrow>
             foldR (\<lambda>w. w) [low, shifted 8, shifted 16, shifted 24,
                            shifted 32, shifted 40, shifted 48, shifted 56] b
         | _ \<Rightarrow> Inl (InvalidArgument ''Unsupported ByteOrder for WriteLong''))"

text \<open>
  The overload with one argument, \<open>void WriteLong(int32_t value)\<close>: the only one a call with a
  single argument can select, so a 64-bit argument is converted to 32 bits first.
\<close>

definition WriteLong_i32 :: "i32 \<Rightarrow> StreamBuffer \<Rightarrow> fault + StreamBuffer" where
  "WriteLong_i32 value = WriteLong (scast value) VT_STANDARD BIG"

abbreviation (input) WriteLong_i32T :: "i32 \<Rightarrow> ValueType \<Rightarrow> StreamBuffer \<Rightarrow> fault + StreamBuffer" where
  "WriteLong_i32T value type \<equiv> WriteLong (scast value) type BIG"

abbreviation (input) WriteLong_i32O :: "i32 \<Rightarrow> ByteOrder \<Rightarrow> StreamBuffer \<Rightarrow> fault + StreamBuffer" where
  "WriteLong_i32O value order \<equiv> WriteLong (scast value) VT_STANDARD order"

abbreviation (input) WriteByte0 :: "i32 \<Rightarrow> StreamBuffer \<Rightarrow> fault + StreamBuffer" where
  "WriteByte0 value \<equiv> WriteByte value VT_STANDARD"

abbreviation (input) WriteShort0 :: "i32 \<Rightarrow> StreamBuffer \<Rightarrow> fault + StreamBuffer" where
  "WriteShort0 value \<equiv> WriteShort value VT_STANDARD BIG"

abbreviation (input) WriteShortT :: "i32 \<Rightarrow> ValueType \<Rightarrow> StreamBuffer \<Rightarrow> fault + StreamBuffer" where
  "WriteShortT value type \<equiv> WriteShort value type BIG"

abbreviation (input) WriteShortO :: "i32 \<Rightarrow> ByteOrder \<Rightarrow> StreamBuffer \<Rightarrow> fault + StreamBuffer" where
  "WriteShortO value order \<equiv> WriteShort value VT_STANDARD order"

abbreviation (input) WriteInt0 :: "i32 \<Rightarrow> StreamBuffer \<Rightarrow> fault + StreamBuffer" where
  "WriteInt0 value \<equiv> WriteInt value VT_STANDARD BIG"

abbreviation (input) WriteIntT :: "i32 \<Rightarrow> ValueType \<Rightarrow> StreamBuffer \<Rightarrow> fault + StreamBuffer" where
  "WriteIntT value type \<equiv> WriteInt value type BIG"

abbreviation (input) WriteIntO :: "i32 \<Rightarrow> ByteOrder \<Rightarrow> StreamBuffer \<Rightarrow> fault + StreamBuffer" where
  "WriteIntO value order \<equiv> WriteInt value VT_STANDARD order"

definition WriteString :: "string \<Rightarrow> StreamBuffer \<Rightarrow> fault + StreamBuffer" where
  "WriteString string b =
     bindR (foldR (\<lambda>c. WriteByte0 (ucast (byte_of c))) string b)
       (WriteByte0 10)"

section \<open>Frames\<close>

definition WriteHeader ::
  "i32 \<Rightarrow> ISAACCipher \<Rightarrow> VariableHeaderSize \<Rightarrow> StreamBuffer \<Rightarrow> fault + StreamBuffer \<times> ISAACCipher"
where
  "WriteHeader value cipher headerSize b =
     (let b = b\<lparr>m_HeaderSize := headerSize\<rparr>;
          (key, cipher) = GetNextKey cipher
      in bindR (WriteByte0 (value + key) b) (\<lambda>b.
           case headerSize of
             HS_BYTE \<Rightarrow>
               bindR (WriteByte0 0 (b\<lparr>m_FrameSize := m_Pos b\<rparr>)) (\<lambda>b. Inr (b, cipher))
           | HS_SHORT \<Rightarrow>
               bindR (WriteShort0 0 (b\<lparr>m_FrameSize := m_Pos b\<rparr>))
                 (\<lambda>b. Inr (b, cipher))
           | HS_NONE \<Rightarrow> Inr (b, cipher)))"

abbreviation (input) WriteHeader0 ::
  "i32 \<Rightarrow> ISAACCipher \<Rightarrow> StreamBuffer \<Rightarrow> fault + StreamBuffer \<times> ISAACCipher"
where
  "WriteHeader0 value cipher \<equiv> WriteHeader value cipher HS_NONE"

definition WriteFrameSizeShort :: "int \<Rightarrow> StreamBuffer \<Rightarrow> fault + StreamBuffer" where
  "WriteFrameSizeShort sz b =
     checked (int (m_Pos b) - sz) (\<lambda>d. checked (d - 2) (\<lambda>d. checked (sz + 2) (\<lambda>n.
      let offset = d mod 2 ^ 64
      in if int (m_Pos b) < n mod 2 ^ 64 \<or>
            (offset + 1) mod 2 ^ 64 \<ge> int (length (m_Buffer b))
         then Inl (OutOfRange ''WriteFrameSizeShort: Invalid offset or size'')
         else Inr (b\<lparr>m_Buffer := (m_Buffer b)[nat offset := word_of_int (drop_bit 8 sz),
                                              nat (offset + 1) := word_of_int sz]\<rparr>))))"

definition WriteFrameSizeByte :: "int \<Rightarrow> StreamBuffer \<Rightarrow> fault + StreamBuffer" where
  "WriteFrameSizeByte sz b =
     checked (int (m_Pos b) - sz) (\<lambda>d. checked (d - 1) (\<lambda>d. checked (sz + 1) (\<lambda>n.
      let offset = d mod 2 ^ 64
      in if int (m_Pos b) < n mod 2 ^ 64 \<or> offset \<ge> int (length (m_Buffer b))
         then Inl (OutOfRange ''WriteFrameSizeByte: Invalid offset or size'')
         else Inr (b\<lparr>m_Buffer := (m_Buffer b)[nat offset := word_of_int sz]\<rparr>))))"

definition FinishVariableHeader :: "StreamBuffer \<Rightarrow> fault + StreamBuffer" where
  "FinishVariableHeader b =
     (if m_FrameSize b = 0 then Inr b
      else
        let payloadSize = int (m_Pos b) - int (m_FrameSize b)
        in bindR (case m_HeaderSize b of
                    HS_SHORT \<Rightarrow> checked (payloadSize - 2) (\<lambda>sz. WriteFrameSizeShort sz b)
                  | HS_BYTE \<Rightarrow> checked (payloadSize - 1) (\<lambda>sz. WriteFrameSizeByte sz b)
                  | HS_NONE \<Rightarrow> Inr b)
             (\<lambda>b. Inr (b\<lparr>m_FrameSize := 0\<rparr>)))"

section \<open>Bits\<close>

text \<open>
  \<open>buf[i] &= m; buf[i] |= v\<close> on an \<open>int8_t\<close> element: it is promoted to \<open>int32_t\<close> (with its sign)
  for the operation, and the result is converted back.
\<close>

definition mask_or :: "i32 \<Rightarrow> i32 \<Rightarrow> i8 \<Rightarrow> i8" where
  "mask_or keep bits x =
     (let x = (ucast ((scast x :: i32) AND keep) :: i8)
      in ucast ((scast x :: i32) OR bits))"

text \<open>
  The \<open>for\<close> loop of \<open>WriteBits\<close> and the two statements after it, from the current values of
  \<open>amount\<close>, \<open>bitOffset\<close> and \<open>bytePos\<close>. A shift by 32 or more is undefined behaviour.
\<close>

function WriteBits_loop :: "i32 \<Rightarrow> nat \<Rightarrow> nat \<Rightarrow> nat \<Rightarrow> i8 list \<Rightarrow> fault + i8 list" where
  "WriteBits_loop value amount bitOffset bytePos buf =
     (if bytePos \<ge> length buf \<or> bitOffset > 32 then Inl OutOfBounds
      else if amount > bitOffset then
        (if amount - bitOffset \<ge> 32 then Inl BadShift
         else
           WriteBits_loop value (amount - bitOffset) 8 (bytePos + 1)
             (buf[bytePos := mask_or (NOT (BIT_MASK ! bitOffset))
                    (signed_drop_bit (amount - bitOffset) value AND BIT_MASK ! bitOffset)
                    (buf ! bytePos)]))
      else if amount = bitOffset then
        Inr (buf[bytePos := mask_or (NOT (BIT_MASK ! bitOffset)) (value AND BIT_MASK ! bitOffset)
                   (buf ! bytePos)])
      else
        Inr (buf[bytePos := mask_or (NOT (push_bit (bitOffset - amount) (BIT_MASK ! amount)))
                   (push_bit (bitOffset - amount) (value AND BIT_MASK ! amount))
                   (buf ! bytePos)]))"
  by pat_completeness auto
termination
  by (relation "measure (\<lambda>(value, amount, bitOffset, bytePos, buf).
        amount + (if bitOffset = 0 then 1 else 0))") auto

declare WriteBits_loop.simps [simp del]

definition WriteBits :: "nat \<Rightarrow> i32 \<Rightarrow> StreamBuffer \<Rightarrow> fault + StreamBuffer" where
  "WriteBits amount value b =
     (if \<not> m_BitPosition b + amount + 7 < 2 ^ 31 then Inl SignedOverflow else
      let bytePos = m_BitPosition b div 8;
          neededBytes = (m_BitPosition b + amount + 7) div 8;
          buf = (if neededBytes > length (m_Buffer b)
                 then resize (neededBytes + DEFAULT_BUFFER_SIZE) (m_Buffer b) else m_Buffer b);
          bitOffset = 8 - m_BitPosition b mod 8
      in bindR (WriteBits_loop value amount bitOffset bytePos buf)
           (\<lambda>buf. Inr (b\<lparr>m_Buffer := buf, m_BitPosition := m_BitPosition b + amount\<rparr>)))"

definition WriteBit :: "bool \<Rightarrow> StreamBuffer \<Rightarrow> fault + StreamBuffer" where
  "WriteBit flag = WriteBits 1 (if flag then 1 else 0)"

end
