(* ===== verification/StreamBuffer_Codec.thy ===== *)
theory StreamBuffer_Codec
  imports StreamBuffer
begin

text \<open>
  The byte level of \<open>StreamBuffer\<close>. A buffer is seen as the bytes written so far (\<open>written\<close>) or
  the bytes still to read (\<open>unread\<close>); every write operation is shown to append the bytes of an
  encoding function, growing the vector where needed, and every read operation to decode them. The
  locale \<open>byte_codec\<close> is the contract a pair of write and read operations fulfils; it is
  interpreted for each pair the sources have.
\<close>

section \<open>The two views of a buffer\<close>

definition stream_wf :: "StreamBuffer \<Rightarrow> bool" where
  "stream_wf b \<longleftrightarrow> m_Pos b \<le> length (m_Buffer b)"

definition written :: "StreamBuffer \<Rightarrow> i8 list" where
  "written b = take (m_Pos b) (m_Buffer b)"

definition unread :: "StreamBuffer \<Rightarrow> i8 list" where
  "unread b = drop (m_Pos b) (m_Buffer b)"

definition advance :: "nat \<Rightarrow> StreamBuffer \<Rightarrow> StreamBuffer" where
  "advance n b = b\<lparr>m_Pos := m_Pos b + n\<rparr>"

lemma unread_advance [simp]: "unread (advance n b) = drop n (unread b)"
  by (simp add: unread_def advance_def add.commute)

lemma advance_advance [simp]: "advance n (advance m b) = advance (m + n) b"
  by (simp add: advance_def add.assoc)

lemma advance_0 [simp]: "advance 0 b = b"
  by (simp add: advance_def)

lemma advance_fields [simp]:
  "m_Buffer (advance n b) = m_Buffer b" "m_Pos (advance n b) = m_Pos b + n"
  by (simp_all add: advance_def)

text \<open>Appending bytes at the position of a buffer, as \<open>WriteByte\<close> does one at a time.\<close>

definition put_byte :: "i8 \<Rightarrow> StreamBuffer \<Rightarrow> StreamBuffer" where
  "put_byte x b =
     b\<lparr>m_Buffer := (if m_Pos b \<ge> length (m_Buffer b) then resize (m_Pos b + 1) (m_Buffer b)
                    else m_Buffer b)[m_Pos b := x],
       m_Pos := m_Pos b + 1\<rparr>"

primrec put_bytes :: "i8 list \<Rightarrow> StreamBuffer \<Rightarrow> StreamBuffer" where
  "put_bytes [] b = b"
| "put_bytes (x # xs) b = put_bytes xs (put_byte x b)"

lemma put_bytes_append: "put_bytes (xs @ ys) b = put_bytes ys (put_bytes xs b)"
  by (induction xs arbitrary: b) simp_all

lemma put_byte_fields [simp]:
  "m_AccessType (put_byte x b) = m_AccessType b"
  "m_BitPosition (put_byte x b) = m_BitPosition b"
  "m_Pos (put_byte x b) = m_Pos b + 1"
  "m_FrameSize (put_byte x b) = m_FrameSize b"
  "m_HeaderSize (put_byte x b) = m_HeaderSize b"
  by (simp_all add: put_byte_def)

lemma put_bytes_fields [simp]:
  "m_AccessType (put_bytes xs b) = m_AccessType b"
  "m_BitPosition (put_bytes xs b) = m_BitPosition b"
  "m_Pos (put_bytes xs b) = m_Pos b + length xs"
  "m_FrameSize (put_bytes xs b) = m_FrameSize b"
  "m_HeaderSize (put_bytes xs b) = m_HeaderSize b"
  by (induction xs arbitrary: b) simp_all

lemma stream_wf_put_byte [wf_intros]: "stream_wf b \<Longrightarrow> stream_wf (put_byte x b)"
  by (auto simp: stream_wf_def put_byte_def)

lemma stream_wf_put_bytes [wf_intros]: "stream_wf b \<Longrightarrow> stream_wf (put_bytes xs b)"
  by (induction xs arbitrary: b) (simp_all add: stream_wf_put_byte)

lemma written_put_byte: "stream_wf b \<Longrightarrow> written (put_byte x b) = written b @ [x]"
  by (auto simp: written_def put_byte_def stream_wf_def take_Suc_list_update)

lemma written_put_bytes: "stream_wf b \<Longrightarrow> written (put_bytes xs b) = written b @ xs"
  by (induction xs arbitrary: b) (simp_all add: written_put_byte stream_wf_put_byte)

lemma written_unread: "written b @ unread b = m_Buffer b"
  by (simp add: written_def unread_def)

lemma length_put_bytes:
  "stream_wf b \<Longrightarrow>
   length (m_Buffer (put_bytes xs b)) = max (length (m_Buffer b)) (m_Pos b + length xs)"
proof (induction xs arbitrary: b)
  case Nil
  then show ?case by (simp add: stream_wf_def max_def)
next
  case (Cons x xs)
  have "length (m_Buffer (put_byte x b)) = max (length (m_Buffer b)) (m_Pos b + 1)"
    using Cons.prems by (simp add: put_byte_def stream_wf_def)
  then show ?case using Cons.IH [OF stream_wf_put_byte [OF Cons.prems]] by simp
qed

lemma unread_put_bytes:
  assumes "stream_wf b"
  shows "unread ((put_bytes xs b)\<lparr>m_Pos := m_Pos b\<rparr>) =
    xs @ drop (m_Pos b + length xs) (m_Buffer (put_bytes xs b))" (is "unread (?b\<lparr>m_Pos := _\<rparr>) = _")
proof -
  have "m_Buffer ?b = take (m_Pos b + length xs) (m_Buffer ?b) @ drop (m_Pos b + length xs) (m_Buffer ?b)"
    by simp
  also have "take (m_Pos b + length xs) (m_Buffer ?b) = written b @ xs"
    using written_put_bytes [OF assms, of xs] by (simp add: written_def)
  finally have "drop (m_Pos b) (m_Buffer ?b) =
      drop (m_Pos b) (written b @ xs @ drop (m_Pos b + length xs) (m_Buffer ?b))"
    by (metis append_assoc)
  then show ?thesis using assms by (simp add: unread_def written_def stream_wf_def)
qed

lemma stream_wf_data [wf_intros]: "stream_wf (StreamBuffer_data xs)"
  and stream_wf_sized [wf_intros]: "stream_wf (StreamBuffer_sized n)"
  by (simp_all add: stream_wf_def StreamBuffer_data_def StreamBuffer_sized_def)

lemma written_sized [simp]: "written (StreamBuffer_sized n) = []"
  and written_data [simp]: "written (StreamBuffer_data xs) = []"
  and unread_data [simp]: "unread (StreamBuffer_data xs) = xs"
  by (simp_all add: written_def unread_def StreamBuffer_sized_def StreamBuffer_data_def)

lemma new_buffer_fields [simp]:
  "m_AccessType (StreamBuffer_sized n) = BYTE_ACCESS" "m_Pos (StreamBuffer_sized n) = 0"
  "m_FrameSize (StreamBuffer_sized n) = 0" "m_BitPosition (StreamBuffer_sized n) = 0"
  "length (m_Buffer (StreamBuffer_sized n)) = n"
  by (simp_all add: StreamBuffer_sized_def StreamBuffer_data_def)

lemma Remaining_unread: "stream_wf b \<Longrightarrow> Remaining b = int (length (unread b))"
  by (simp add: Remaining_def unread_def stream_wf_def of_nat_diff)

lemma HasRemaining_unread: "HasRemaining b \<longleftrightarrow> unread b \<noteq> []"
  by (simp add: HasRemaining_def unread_def not_le)

section \<open>Bytes\<close>

definition enc_value :: "ValueType \<Rightarrow> i32 \<Rightarrow> i8" where
  "enc_value type v =
     (case type of VT_STANDARD \<Rightarrow> ucast v | VT_A \<Rightarrow> ucast v + 128
      | VT_C \<Rightarrow> - ucast v | VT_S \<Rightarrow> 128 - ucast v)"

definition dec_value :: "ValueType \<Rightarrow> i8 \<Rightarrow> i8" where
  "dec_value type x =
     (case type of VT_STANDARD \<Rightarrow> x | VT_A \<Rightarrow> x - 128 | VT_C \<Rightarrow> - x | VT_S \<Rightarrow> 128 - x)"

lemma dec_enc_value [simp]: "dec_value type (enc_value type v) = ucast v"
  by (cases type) (simp_all add: dec_value_def enc_value_def)

text \<open>The values that the arithmetic of \<open>WriteByte\<close> does not take out of the range of \<open>int32_t\<close>.\<close>

definition value_fits :: "ValueType \<Rightarrow> i32 \<Rightarrow> bool" where
  "value_fits type v \<longleftrightarrow> in_i32 (typed_value type (sint v))"

lemma value_fits_standard [simp]: "value_fits VT_STANDARD v"
  by (simp add: value_fits_def typed_value_def)

lemma value_fits_small: "\<bar>sint v\<bar> < 2 ^ 30 \<Longrightarrow> value_fits type v"
  by (cases type) (auto simp: value_fits_def typed_value_def in_i32_def)

lemma enc_value_typed: "word_of_int (typed_value type (sint v)) = enc_value type v"
proof -
  have "(word_of_int (sint v) :: i8) = ucast v"
    by (rule bit_word_eqI) (auto simp: bit_simps min_def)
  then show ?thesis by (cases type) (simp_all add: typed_value_def enc_value_def)
qed

lemma WriteByte_eq:
  "m_AccessType b = BYTE_ACCESS \<Longrightarrow> m_Pos b + 1 < 2 ^ 31 \<Longrightarrow> value_fits type v \<Longrightarrow>
   WriteByte v type b = Inr (put_byte (enc_value type v) b)"
  by (simp add: WriteByte_def put_byte_def enc_value_typed value_fits_def Let_def)

lemma WriteByte_overflow:
  "m_AccessType b = BYTE_ACCESS \<Longrightarrow> \<not> value_fits type v \<Longrightarrow> WriteByte v type b = Inl SignedOverflow"
  by (simp add: WriteByte_def value_fits_def)

lemma WriteByte_room: "WriteByte v type b = Inr b' \<Longrightarrow> m_Pos b' < 2 ^ 31 \<and> m_Pos b' = m_Pos b + 1"
  by (auto simp: WriteByte_def checked_def Let_def split: if_splits)

lemma WriteByte_bit_access:
  "m_AccessType b = BIT_ACCESS \<Longrightarrow>
   WriteByte v type b = Inl (InvalidArgument ''Illegal access type.'')"
  by (simp add: WriteByte_def)

lemma ReadByte_eq:
  assumes "unread b \<noteq> []"
  shows "ReadByte False type b = Inr (ucast (dec_value type (hd (unread b))), advance 1 b)"
proof -
  have "m_Pos b < length (m_Buffer b)" "m_Buffer b ! m_Pos b = hd (unread b)"
    using assms by (simp_all add: unread_def hd_drop_conv_nth)
  then show ?thesis
    by (cases type)
      (simp_all add: ReadByte_def Let_def dec_value_def and_255_ucast ucast8_simps advance_def)
qed

lemma ReadByte_end: "unread b = [] \<Longrightarrow> ReadByte s type b = Inl OutOfBounds"
  by (simp add: ReadByte_def unread_def)

section \<open>Contract of a pair of write and read operations\<close>

primrec read_n :: "(StreamBuffer \<Rightarrow> fault + 'v \<times> StreamBuffer) \<Rightarrow> nat \<Rightarrow> StreamBuffer \<Rightarrow>
    fault + 'v list \<times> StreamBuffer" where
  "read_n rd 0 b = Inr ([], b)"
| "read_n rd (Suc n) b =
     bindR (rd b) (\<lambda>(v, b). bindR (read_n rd n b) (\<lambda>(vs, b). Inr (v # vs, b)))"

locale byte_codec =
  fixes enc :: "'v \<Rightarrow> i8 list"
    and wr :: "'v \<Rightarrow> StreamBuffer \<Rightarrow> fault + StreamBuffer"
    and rd :: "StreamBuffer \<Rightarrow> fault + 'w \<times> StreamBuffer"
    and val :: "'v \<Rightarrow> 'w"
    and fits :: "'v \<Rightarrow> bool"
  assumes wr_enc: "fits v \<Longrightarrow> m_AccessType b = BYTE_ACCESS \<Longrightarrow> m_Pos b + length (enc v) < 2 ^ 31 \<Longrightarrow>
      wr v b = Inr (put_bytes (enc v) b)"
    and rd_enc: "fits v \<Longrightarrow> unread b = enc v @ rest \<Longrightarrow>
      rd b = Inr (val v, advance (length (enc v)) b)"
begin

lemma wr_list:
  assumes "\<forall>v\<in>set vs. fits v" "m_AccessType b = BYTE_ACCESS" "m_Pos b + length (concat (map enc vs)) < 2 ^ 31"
  shows "foldR wr vs b = Inr (put_bytes (concat (map enc vs)) b)"
  using assms
proof (induction vs arbitrary: b)
  case (Cons v vs)
  then have "m_Pos b + length (enc v) < 2 ^ 31" by simp
  with Cons show ?case by (simp add: wr_enc put_bytes_append)
qed simp

lemma rd_list:
  assumes "\<forall>v\<in>set vs. fits v" "unread b = concat (map enc vs) @ rest"
  shows "read_n rd (length vs) b = Inr (map val vs, advance (length (concat (map enc vs))) b)"
  using assms
proof (induction vs arbitrary: b)
  case Nil
  then show ?case by simp
next
  case (Cons v vs)
  have "rd b = Inr (val v, advance (length (enc v)) b)"
    using Cons.prems by (auto intro: rd_enc)
  then show ?case
    using Cons.IH [of "advance (length (enc v)) b"] Cons.prems by simp
qed

text \<open>Reading from where the writing began returns what was written and ends where it ended.\<close>

lemma roundtrip_list:
  assumes "\<forall>v\<in>set vs. fits v" "m_AccessType b = BYTE_ACCESS" "stream_wf b"
    and "m_Pos b + length (concat (map enc vs)) < 2 ^ 31"
  shows "\<exists>b'. foldR wr vs b = Inr b' \<and>
    read_n rd (length vs) (b'\<lparr>m_Pos := m_Pos b\<rparr>) = Inr (map val vs, b')"
proof -
  let ?xs = "concat (map enc vs)"
  let ?b = "put_bytes ?xs b"
  have "advance (length ?xs) (?b\<lparr>m_Pos := m_Pos b\<rparr>) = ?b"
    by (simp add: advance_def)
  with rd_list [OF assms(1) unread_put_bytes [OF assms(3)]]
  have "read_n rd (length vs) (?b\<lparr>m_Pos := m_Pos b\<rparr>) = Inr (map val vs, ?b)"
    by simp
  with wr_list [OF assms(1,2,4)] show ?thesis by blast
qed

lemma roundtrip:
  assumes "fits v" "m_AccessType b = BYTE_ACCESS" "stream_wf b" "m_Pos b + length (enc v) < 2 ^ 31"
  shows "\<exists>b'. wr v b = Inr b' \<and> rd (b'\<lparr>m_Pos := m_Pos b\<rparr>) = Inr (val v, b')"
  using roundtrip_list [of "[v]" b] assms by (auto simp: fault_simps)

end

section \<open>Encodings\<close>

definition byte_at :: "nat \<Rightarrow> 'a::len word \<Rightarrow> i8" where
  "byte_at n v = ucast (drop_bit n v)"

lemma byte_at_i32: "n \<le> 24 \<Longrightarrow> ucast (signed_drop_bit n (v :: i32)) = byte_at n v"
  by (rule bit_word_eqI) (auto simp: byte_at_def bit_simps)

lemma byte_at_i64:
  "n \<le> 56 \<Longrightarrow> (ucast (ucast (signed_drop_bit n (v :: i64)) :: i32) :: i8) = byte_at n v"
  by (rule bit_word_eqI) (auto simp: byte_at_def bit_simps)

lemma enc_value_standard: "enc_value VT_STANDARD v = ucast v"
  and dec_value_standard: "dec_value VT_STANDARD x = x"
  by (simp_all add: enc_value_def dec_value_def)

definition enc_short :: "ValueType \<Rightarrow> ByteOrder \<Rightarrow> i32 \<Rightarrow> i8 list" where
  "enc_short type order v =
     (if order = BIG then [byte_at 8 v, enc_value type v] else [enc_value type v, byte_at 8 v])"

definition enc_int :: "ValueType \<Rightarrow> ByteOrder \<Rightarrow> i32 \<Rightarrow> i8 list" where
  "enc_int type order v =
     (let low = enc_value type v
      in case order of
           BIG \<Rightarrow> [byte_at 24 v, byte_at 16 v, byte_at 8 v, low]
         | MIDDLE \<Rightarrow> [byte_at 8 v, low, byte_at 24 v, byte_at 16 v]
         | INVERSE_MIDDLE \<Rightarrow> [byte_at 16 v, byte_at 24 v, low, byte_at 8 v]
         | LITTLE \<Rightarrow> [low, byte_at 8 v, byte_at 16 v, byte_at 24 v])"

definition enc_long :: "ValueType \<Rightarrow> ByteOrder \<Rightarrow> i64 \<Rightarrow> i8 list" where
  "enc_long type order v =
     (let low = enc_value type (ucast v); high = map (\<lambda>n. byte_at n v) [8, 16, 24, 32, 40, 48, 56]
      in if order = BIG then rev high @ [low] else low # high)"

definition enc_string :: "string \<Rightarrow> i8 list" where
  "enc_string cs = map byte_of cs @ [10]"

lemma bit_byte_at:
  "bit (push_bit k (ucast (byte_at k v)) :: 'b::len word) n \<longleftrightarrow>
   k \<le> n \<and> n < k + 8 \<and> n < LENGTH('b) \<and> bit v n"
  "bit (ucast (ucast v :: i8) :: 'b::len word) n \<longleftrightarrow> n < 8 \<and> n < LENGTH('b) \<and> bit v n"
  by (auto simp: byte_at_def bit_simps)

lemma join_short: "push_bit 8 (ucast (byte_at 8 v)) OR ucast (ucast v :: i8) = take_bit 16 (v :: i32)"
  by (rule bit_word_eqI) (auto simp: bit_or_iff bit_byte_at bit_take_bit_iff)

lemma join_int:
  "push_bit 24 (ucast (byte_at 24 v)) OR push_bit 16 (ucast (byte_at 16 v)) OR
   push_bit 8 (ucast (byte_at 8 v)) OR ucast (ucast v :: i8) = (v :: i32)"
  by (rule bit_word_eqI) (auto simp: bit_or_iff bit_byte_at)

lemma join_long:
  "push_bit 56 (ucast (byte_at 56 v)) OR push_bit 48 (ucast (byte_at 48 v)) OR
   push_bit 40 (ucast (byte_at 40 v)) OR push_bit 32 (ucast (byte_at 32 v)) OR
   push_bit 24 (ucast (byte_at 24 v)) OR push_bit 16 (ucast (byte_at 16 v)) OR
   push_bit 8 (ucast (byte_at 8 v)) OR ucast (ucast v :: i8) = (v :: i64)"
  by (rule bit_word_eqI) (auto simp: bit_or_iff bit_byte_at)

lemma and_FFFF: "w AND 0xFFFF = take_bit 16 (w :: i32)"
  by (simp add: take_bit_eq_mask mask_numeral)

section \<open>The operations append their encodings\<close>

lemmas write_simps = WriteByte_eq enc_value_standard byte_at_i32 byte_at_i64

lemma WriteShort_eq:
  "order \<in> {BIG, LITTLE} \<Longrightarrow> m_AccessType b = BYTE_ACCESS \<Longrightarrow> m_Pos b + 2 < 2 ^ 31 \<Longrightarrow> value_fits type v \<Longrightarrow>
   WriteShort v type order b = Inr (put_bytes (enc_short type order v) b)"
  by (auto simp: WriteShort_def enc_short_def write_simps)

lemma WriteInt_eq:
  "m_AccessType b = BYTE_ACCESS \<Longrightarrow> m_Pos b + 4 < 2 ^ 31 \<Longrightarrow> value_fits type v \<Longrightarrow>
   WriteInt v type order b = Inr (put_bytes (enc_int type order v) b)"
  by (cases order) (simp_all add: WriteInt_def enc_int_def Let_def write_simps)

lemma WriteInt_overflow:
  "m_AccessType b = BYTE_ACCESS \<Longrightarrow> m_Pos b + 4 < 2 ^ 31 \<Longrightarrow> \<not> value_fits type v \<Longrightarrow>
   WriteInt v type order b = Inl SignedOverflow"
  by (cases order) (simp_all add: WriteInt_def Let_def write_simps WriteByte_overflow)

lemma WriteLong_eq:
  "order \<in> {BIG, LITTLE} \<Longrightarrow> m_AccessType b = BYTE_ACCESS \<Longrightarrow> m_Pos b + 8 < 2 ^ 31 \<Longrightarrow> value_fits type (ucast v) \<Longrightarrow>
   WriteLong v type order b = Inr (put_bytes (enc_long type order v) b)"
  by (auto simp: WriteLong_def enc_long_def Let_def write_simps)

lemma WriteString_eq:
  assumes "m_AccessType b = BYTE_ACCESS" "m_Pos b + length cs + 1 < 2 ^ 31"
  shows "WriteString cs b = Inr (put_bytes (enc_string cs) b)"
proof -
  have "foldR (\<lambda>c. WriteByte (ucast (byte_of c)) VT_STANDARD) cs b = Inr (put_bytes (map byte_of cs) b)"
    using assms by (induction cs arbitrary: b) (simp_all add: write_simps ucast8_ucast)
  with assms show ?thesis
    by (simp add: WriteString_def enc_string_def write_simps put_bytes_append)
qed

lemma WriteBytes_eq:
  assumes "stream_wf b" "stream_wf other" "m_Pos b + m_Pos other < 2 ^ 31"
  shows "\<exists>b'. WriteBytes other b = Inr b' \<and> written b' = written b @ written other \<and> stream_wf b' \<and>
    m_AccessType b' = m_AccessType b \<and> m_FrameSize b' = m_FrameSize b \<and>
    m_HeaderSize b' = m_HeaderSize b \<and> m_BitPosition b' = m_BitPosition b"
  using assms by (auto simp: WriteBytes_def Let_def written_def stream_wf_def)

lemma WriteInts_overflow:
  "m_AccessType b = BYTE_ACCESS \<Longrightarrow> m_Pos b + 4 * length vs < 2 ^ 31 \<Longrightarrow> \<not> list_all (value_fits type) vs \<Longrightarrow>
   foldR (\<lambda>v. WriteInt v type order) vs b = Inl SignedOverflow"
proof (induction vs arbitrary: b)
  case (Cons v vs)
  have len: "length (enc_int type order v) = 4" by (cases order) (simp_all add: enc_int_def Let_def)
  from Cons.prems have "m_Pos b + 4 < 2 ^ 31" by simp
  with Cons len show ?case by (cases "value_fits type v") (simp_all add: WriteInt_eq WriteInt_overflow)
qed simp

section \<open>The operations decode their encodings\<close>

lemmas read_simps = ReadByte_eq dec_value_standard

lemma length_enc [simp]:
  "length (enc_short type order v) = 2" "length (enc_int type order v) = 4"
  "length (enc_long type order w) = 8" "length (enc_string cs) = length cs + 1"
  by (cases order; simp add: enc_short_def enc_int_def enc_long_def enc_string_def Let_def)+

lemma length_encs:
  "length (concat (map (enc_short type order) vs)) = 2 * length vs"
  "length (concat (map (enc_int type order) vs)) = 4 * length vs"
  "length (concat (map (enc_long type order) ws)) = 8 * length ws"
  "length (concat (map enc_string css)) = sum_list (map (\<lambda>cs. length cs + 1) css)"
  by (induction vs) (simp_all, (induction ws, simp_all), (induction css, simp_all))

lemma ReadShort_eq:
  assumes "order \<in> {BIG, LITTLE}" "unread b = enc_short type order v @ rest"
  shows "ReadShort s type order b = Inr (v AND 0xFFFF, advance 2 b)"
  using assms
  by (cases order; cases s)
    (simp_all add: ReadShort_def enc_short_def read_simps join_short and_FFFF numeral_2_eq_2)

lemma ReadInt_eq:
  assumes "unread b = enc_int type order v @ rest"
  shows "ReadInt s type order b = Inr (v, advance 4 b)"
  using assms join_int [of v]
  by (cases order)
    (simp_all add: ReadInt_def enc_int_def Let_def read_simps or.assoc or.commute or.left_commute
      numeral_eq_Suc)

lemma or_byte_eq:
  "unread b \<noteq> [] \<Longrightarrow>
   or_byte type n (a, b) =
   Inr (a OR push_bit n (ucast (dec_value type (hd (unread b)))), advance 1 b)"
proof -
  have "(scast (ucast x :: i32) :: i64) = ucast x" for x :: i8
    by (rule bit_word_eqI) (auto simp: bit_simps min_def dest: bit_imp_le_length)
  then show "unread b \<noteq> [] \<Longrightarrow> ?thesis"
    by (simp add: or_byte_def ReadByte_eq)
qed

lemma ReadLong_eq:
  assumes "order \<in> {BIG, LITTLE}" "unread b = enc_long type order v @ rest"
  shows "ReadLong type order b = Inr (v, advance 8 b)"
proof -
  have low: "(ucast (ucast v :: i32) :: i8) = ucast v"
    by (rule bit_word_eqI) (auto simp: bit_simps)
  from assms join_long [of v] show ?thesis
    by (cases order)
      (simp_all add: ReadLong_def enc_long_def Let_def or_byte_eq dec_value_standard low
        or.assoc or.commute or.left_commute numeral_eq_Suc)
qed

text \<open>
  \<open>ReadString\<close> on any input: the bytes up to the first newline, an exception when there are more
  than 1024 of them, and a read past the end of the buffer when the newline is missing.
\<close>

definition string_error :: fault where
  "string_error = RuntimeError ''StreamBuffer::ReadString exceeded max allowed length''"

definition read_string_spec :: "i8 list \<Rightarrow> nat \<Rightarrow> fault + string \<times> nat" where
  "read_string_spec xs count =
     (let cs = takeWhile (\<lambda>x. x \<noteq> 10) xs
      in if count + length cs > maxLength then Inl string_error
         else if length cs = length xs then Inl OutOfBounds
         else Inr (map char_at cs, length cs + 1))"

lemma ReadString_loop_spec:
  assumes "count \<le> maxLength"
  shows "ReadString_loop count result b =
    bindR (read_string_spec (unread b) count) (\<lambda>(cs, n). Inr (result @ cs, advance n b))"
  using assms
proof (induction "unread b" arbitrary: b count result)
  case Nil
  then have "unread b = []" by simp
  with Nil.prems show ?case
    by (simp add: ReadString_loop.simps [of count] read_string_spec_def ReadByte_end)
next
  case (Cons x xs)
  then have ub: "unread b = x # xs" by simp
  then have step: "ReadUByte b = Inr (ucast x, advance 1 b)" by (simp add: read_simps)
  show ?case
  proof (cases "x = 10 \<or> count + 1 > maxLength")
    case True
    with step ub Cons.prems show ?thesis
      by (auto simp: ReadString_loop.simps [of count] read_string_spec_def ucast8_ucast string_error_def)
  next
    case False
    then have "ReadString_loop (count + 1) (result @ [char_at x]) (advance 1 b) =
        bindR (read_string_spec xs (count + 1))
          (\<lambda>(cs, n). Inr ((result @ [char_at x]) @ cs, advance n (advance 1 b)))"
      using Cons.hyps(1) [of "advance 1 b" "count + 1" "result @ [char_at x]"] ub by simp
    with False step ub show ?thesis
      by (simp add: ReadString_loop.simps [of count] read_string_spec_def Let_def ucast8_ucast)
  qed
qed

definition string_fits :: "string \<Rightarrow> bool" where
  "string_fits cs \<longleftrightarrow> CHR 0x0A \<notin> set cs \<and> length cs \<le> maxLength"

lemma byte_of_newline: "byte_of c = 10 \<longleftrightarrow> c = CHR 0x0A"
proof -
  have "byte_of (CHR 0x0A) = 10" by (simp add: byte_of_def)
  moreover have "byte_of c = byte_of (CHR 0x0A) \<Longrightarrow> c = CHR 0x0A"
    by (metis char_at_byte_of)
  ultimately show ?thesis by metis
qed

lemma ReadString_spec:
  "ReadString b = bindR (read_string_spec (unread b) 0) (\<lambda>(cs, n). Inr (cs, advance n b))"
  by (simp add: ReadString_def ReadString_loop_spec)

lemma ReadString_eq:
  assumes "string_fits cs" "unread b = enc_string cs @ rest"
  shows "ReadString b = Inr (cs, advance (length (enc_string cs)) b)"
proof -
  have "takeWhile (\<lambda>x. x \<noteq> 10) (unread b) = map byte_of cs"
    using assms by (auto simp: enc_string_def string_fits_def takeWhile_append2 takeWhile_tail
        byte_of_newline)
  with assms show ?thesis
    by (simp add: ReadString_spec read_string_spec_def string_fits_def comp_def enc_string_def)
qed

interpretation byte_cd: byte_codec "\<lambda>v. [enc_value type v]" "\<lambda>v. WriteByte v type"
  "ReadByte False type" "\<lambda>v. v AND 0xFF" "value_fits type" for type
  by unfold_locales (simp_all add: WriteByte_eq ReadByte_eq and_255_ucast)

interpretation short_big_cd: byte_codec "enc_short type BIG" "\<lambda>v. WriteShort v type BIG"
  "ReadShort s type BIG" "\<lambda>v. v AND 0xFFFF" "value_fits type" for type s
  by unfold_locales (simp_all add: WriteShort_eq ReadShort_eq)

interpretation short_little_cd: byte_codec "enc_short type LITTLE" "\<lambda>v. WriteShort v type LITTLE"
  "ReadShort s type LITTLE" "\<lambda>v. v AND 0xFFFF" "value_fits type" for type s
  by unfold_locales (simp_all add: WriteShort_eq ReadShort_eq)

interpretation int_cd: byte_codec "enc_int type order" "\<lambda>v. WriteInt v type order"
  "ReadInt s type order" "\<lambda>v. v" "value_fits type" for type order s
  by unfold_locales (simp_all add: WriteInt_eq ReadInt_eq)

interpretation long_big_cd: byte_codec "enc_long type BIG" "\<lambda>v. WriteLong v type BIG"
  "ReadLong type BIG" "\<lambda>v. v" "\<lambda>v. value_fits type (ucast v)" for type
  by unfold_locales (simp_all add: WriteLong_eq ReadLong_eq)

interpretation long_little_cd: byte_codec "enc_long type LITTLE" "\<lambda>v. WriteLong v type LITTLE"
  "ReadLong type LITTLE" "\<lambda>v. v" "\<lambda>v. value_fits type (ucast v)" for type
  by unfold_locales (simp_all add: WriteLong_eq ReadLong_eq)

interpretation string_cd: byte_codec enc_string WriteString ReadString "\<lambda>cs. cs" string_fits
  by unfold_locales (simp_all add: WriteString_eq ReadString_eq)

section \<open>Frames\<close>

lemma view_update [simp]:
  "written (b\<lparr>m_HeaderSize := h\<rparr>) = written b" "written (b\<lparr>m_FrameSize := n\<rparr>) = written b"
  "stream_wf (b\<lparr>m_HeaderSize := h\<rparr>) = stream_wf b" "stream_wf (b\<lparr>m_FrameSize := n\<rparr>) = stream_wf b"
  by (simp_all add: written_def stream_wf_def)

primrec header_len :: "VariableHeaderSize \<Rightarrow> nat" where
  "header_len HS_NONE = 0"
| "header_len HS_BYTE = 1"
| "header_len HS_SHORT = 2"

primrec frame_size_bytes :: "VariableHeaderSize \<Rightarrow> nat \<Rightarrow> i8 list" where
  "frame_size_bytes HS_NONE n = []"
| "frame_size_bytes HS_BYTE n = [word_of_nat n]"
| "frame_size_bytes HS_SHORT n = [word_of_nat (n div 256), word_of_nat n]"

lemma WriteHeader_room: "WriteHeader v c hs b = Inr (b1, c1) \<Longrightarrow> m_Pos b + 1 + header_len hs < 2 ^ 31"
  by (cases hs) (auto simp: WriteHeader_def WriteShort_def Let_def fault_simps split: prod.splits dest!: WriteByte_room)

lemma WriteHeader_eq:
  assumes "stream_wf b" "m_AccessType b = BYTE_ACCESS" "m_Pos b + 1 + header_len hs < 2 ^ 31"
  shows "\<exists>b1. WriteHeader v c hs b = Inr (b1, snd (GetNextKey c)) \<and> stream_wf b1 \<and>
    written b1 = written b @ [ucast (v + fst (GetNextKey c))] @ replicate (header_len hs) 0 \<and>
    m_AccessType b1 = BYTE_ACCESS \<and> m_HeaderSize b1 = hs \<and>
    m_FrameSize b1 = (if hs = HS_NONE then m_FrameSize b else m_Pos b + 1) \<and>
    m_Pos b1 = m_Pos b + 1 + header_len hs \<and> m_BitPosition b1 = m_BitPosition b"
  using assms
  by (cases hs) (simp_all add: WriteHeader_def Let_def split_beta WriteByte_eq WriteShort_eq
      enc_value_standard enc_short_def byte_at_def written_put_byte stream_wf_put_byte numeral_2_eq_2)

lemma frame_bytes:
  "(word_of_int (int n) :: i8) = word_of_nat n"
  "(word_of_int (drop_bit 8 (int n)) :: i8) = word_of_nat (n div 256)"
proof -
  have "drop_bit 8 (int n) = int (n div 256)" by (simp add: drop_bit_eq_div zdiv_int)
  then show "(word_of_int (drop_bit 8 (int n)) :: i8) = word_of_nat (n div 256)"
    by (simp only: of_int_of_nat_eq)
qed simp

lemma WriteFrameSizeByte_eq:
  assumes "stream_wf b" "m_Pos b = length pre + 1 + n" "m_Pos b < 2 ^ 31"
  shows "WriteFrameSizeByte (int n) b =
    Inr (b\<lparr>m_Buffer := (m_Buffer b)[length pre := word_of_nat n]\<rparr>)"
proof -
  have "(int (m_Pos b) - int n - 1) mod 2 ^ 64 = int (length pre)"
    "(int n + 1) mod 2 ^ 64 = int n + 1" "length pre < length (m_Buffer b)"
    "in_i32 (int (m_Pos b) - int n)" "in_i32 (int (m_Pos b) - int n - 1)" "in_i32 (int n + 1)"
    using assms by (simp_all add: stream_wf_def in_i32_def)
  then show ?thesis
    unfolding WriteFrameSizeByte_def Let_def using assms(2) by (simp only: checked_simps) (simp add: frame_bytes)
qed

lemma WriteFrameSizeShort_eq:
  assumes "stream_wf b" "m_Pos b = length pre + 2 + n" "m_Pos b < 2 ^ 31"
  shows "WriteFrameSizeShort (int n) b =
    Inr (b\<lparr>m_Buffer := (m_Buffer b)[length pre := word_of_nat (n div 256),
                                    Suc (length pre) := word_of_nat n]\<rparr>)"
proof -
  have "(int (m_Pos b) - int n - 2) mod 2 ^ 64 = int (length pre)"
    "(int n + 2) mod 2 ^ 64 = int n + 2" "(int (length pre) + 1) mod 2 ^ 64 = int (length pre) + 1"
    "Suc (length pre) < length (m_Buffer b)"
    "in_i32 (int (m_Pos b) - int n)" "in_i32 (int (m_Pos b) - int n - 2)" "in_i32 (int n + 2)"
    using assms by (simp_all add: stream_wf_def in_i32_def)
  then show ?thesis
    unfolding WriteFrameSizeShort_def Let_def using assms(2)
    by (simp only: checked_simps) (simp add: frame_bytes nat_add_distrib)
qed

lemma FinishVariableHeader_eq:
  assumes wf: "stream_wf b" and wr: "written b = pre @ replicate (header_len hs) 0 @ xs"
    and hs: "m_HeaderSize b = hs" and fs: "hs \<noteq> HS_NONE \<Longrightarrow> m_FrameSize b = length pre"
    and pre: "pre \<noteq> []" and small: "m_Pos b < 2 ^ 31"
  shows "\<exists>b'. FinishVariableHeader b = Inr b' \<and> stream_wf b' \<and> m_FrameSize b' = 0 \<and>
    written b' = pre @ frame_size_bytes hs (length xs) @ xs \<and> m_Pos b' = m_Pos b \<and>
    m_AccessType b' = m_AccessType b"
proof -
  have pos: "m_Pos b = length pre + header_len hs + length xs"
    using arg_cong [OF wr, of length] wf by (simp add: written_def stream_wf_def)
  have fits: "in_i32 (int (length xs))" using pos small by (simp add: in_i32_def)
  show ?thesis
  proof (cases hs)
    case HS_NONE
    with assms show ?thesis by (auto simp: FinishVariableHeader_def Let_def)
  next
    case HS_BYTE
    with fs pos have "m_FrameSize b = length pre"
      "int (m_Pos b) - int (m_FrameSize b) - 1 = int (length xs)" by simp_all
    moreover have "WriteFrameSizeByte (int (length xs)) b =
        Inr (b\<lparr>m_Buffer := (m_Buffer b)[length pre := word_of_nat (length xs)]\<rparr>)"
      using wf pos HS_BYTE small by (intro WriteFrameSizeByte_eq) simp_all
    ultimately show ?thesis
      using HS_BYTE hs pre wf wr fits unfolding FinishVariableHeader_def Let_def
      by (simp add: written_def stream_wf_def take_update_swap list_update_append)
  next
    case HS_SHORT
    with fs pos have "m_FrameSize b = length pre"
      "int (m_Pos b) - int (m_FrameSize b) - 2 = int (length xs)" by simp_all
    moreover have "WriteFrameSizeShort (int (length xs)) b =
        Inr (b\<lparr>m_Buffer := (m_Buffer b)[length pre := word_of_nat (length xs div 256),
                                       Suc (length pre) := word_of_nat (length xs)]\<rparr>)"
      using wf pos HS_SHORT small by (intro WriteFrameSizeShort_eq) simp_all
    ultimately show ?thesis
      using HS_SHORT hs pre wf wr fits unfolding FinishVariableHeader_def Let_def
      by (simp add: written_def stream_wf_def take_update_swap list_update_append numeral_2_eq_2)
  qed
qed

section \<open>Properties\<close>

text \<open>
  C39: any list of values written by \<open>WriteInt\<close>, in any of the four byte orders and with any of
  the four value types, is read back exactly by \<open>ReadInt\<close> with the same order and type, and the
  reading ends where the writing ended, whatever the size of the buffer, as long as the position remains an
  \<open>int32_t\<close>. The exception are the values that the type takes out of the range of \<open>int32_t\<close>, such as adding 128 to
  \<open>2 ^ 31 - 1\<close>: exactly when one of them is in the list, the writing ends in a signed overflow.
\<close>

theorem int_roundtrip:
  assumes "m_AccessType b = BYTE_ACCESS" "stream_wf b" "m_Pos b + 4 * length vs < 2 ^ 31"
  shows "if list_all (\<lambda>v. in_i32 (typed_value type (sint v))) vs
    then \<exists>b'. foldR (\<lambda>v. WriteInt v type order) vs b = Inr b' \<and>
      read_n (ReadInt s type order) (length vs) (b'\<lparr>m_Pos := m_Pos b\<rparr>) = Inr (vs, b')
    else foldR (\<lambda>v. WriteInt v type order) vs b = Inl SignedOverflow"
proof (cases "list_all (value_fits type) vs")
  case True
  then have "\<forall>v\<in>set vs. value_fits type v" by (simp add: list_all_iff)
  from int_cd.roundtrip_list [OF this assms(1,2), of order s] assms(3) True show ?thesis
    by (simp add: length_encs value_fits_def [abs_def])
next
  case False
  with assms(1,3) WriteInts_overflow show ?thesis by (simp add: value_fits_def [abs_def])
qed

theorem int_roundtrip_witness:
  "(\<exists>b'. foldR (\<lambda>v. WriteInt v VT_S MIDDLE) [1, -70000] (StreamBuffer_sized 3) = Inr b' \<and>
    read_n (ReadInt True VT_S MIDDLE) (length [1, -70000 :: i32]) (b'\<lparr>m_Pos := m_Pos (StreamBuffer_sized 3)\<rparr>) =
      Inr ([1, -70000], b')) \<and>
   foldR (\<lambda>v. WriteInt v VT_A BIG) [1, 2147483647] (StreamBuffer_sized 3) = Inl SignedOverflow"
proof -
  have "list_all (\<lambda>v. in_i32 (typed_value VT_S (sint v))) [1, -70000 :: i32]"
    "\<not> list_all (\<lambda>v. in_i32 (typed_value VT_A (sint v))) [1, 2147483647 :: i32]"
    by (simp_all add: in_i32_def typed_value_def)
  with int_roundtrip [of "StreamBuffer_sized 3" "[1, -70000]" VT_S MIDDLE True]
    int_roundtrip [of "StreamBuffer_sized 3" "[1, 2147483647]" VT_A BIG True]
  show ?thesis by (simp add: stream_wf_sized del: foldR.simps read_n.simps list.pred_inject)
qed

text \<open>
  Values written by \<open>WriteShort\<close> in big or little endian order are read back by \<open>ReadShort\<close>
  as their low 16 bits, for every value type and both values of \<open>isSigned\<close>.
\<close>

lemma short_roundtrip:
  assumes "order \<in> {BIG, LITTLE}" "m_AccessType b = BYTE_ACCESS" "stream_wf b"
    and "m_Pos b + 2 * length vs < 2 ^ 31" "\<forall>v\<in>set vs. value_fits type v"
  shows "\<exists>b'. foldR (\<lambda>v. WriteShort v type order) vs b = Inr b' \<and>
    read_n (ReadShort s type order) (length vs) (b'\<lparr>m_Pos := m_Pos b\<rparr>) =
      Inr (map (\<lambda>v. v AND 0xFFFF) vs, b')"
  using assms(1,4) short_big_cd.roundtrip_list [OF assms(5,2,3), of s]
    short_little_cd.roundtrip_list [OF assms(5,2,3), of s] by (auto simp: length_encs)

text \<open>
  64-bit values written by the three-argument \<open>WriteLong\<close> in big or little endian order are
  read back exactly by \<open>ReadLong\<close>.
\<close>

lemma long_roundtrip:
  assumes "order \<in> {BIG, LITTLE}" "m_AccessType b = BYTE_ACCESS" "stream_wf b"
    and "m_Pos b + 8 * length vs < 2 ^ 31" "\<forall>v\<in>set vs. value_fits type (ucast v)"
  shows "\<exists>b'. foldR (\<lambda>v. WriteLong v type order) vs b = Inr b' \<and>
    read_n (ReadLong type order) (length vs) (b'\<lparr>m_Pos := m_Pos b\<rparr>) = Inr (vs, b')"
  using assms(1,4) long_big_cd.roundtrip_list [OF assms(5,2,3)]
    long_little_cd.roundtrip_list [OF assms(5,2,3)] by (auto simp: length_encs)

text \<open>
  C38: \<open>ReadString\<close> on an arbitrary buffer: with \<open>cs\<close> the bytes before the first newline, it throws
  when there are more than 1024 of them, reads past the end of the buffer when there is no
  newline, and otherwise returns exactly these bytes and stops behind the newline. In particular
  its loop always ends.
\<close>

theorem read_string_total:
  "ReadString b =
     (let cs = takeWhile (\<lambda>x. x \<noteq> 10) (unread b)
      in if length cs > 1024
         then Inl (RuntimeError ''StreamBuffer::ReadString exceeded max allowed length'')
         else if length cs = length (unread b) then Inl OutOfBounds
         else Inr (map char_at cs, b\<lparr>m_Pos := m_Pos b + length cs + 1\<rparr>))"
  by (simp add: ReadString_spec read_string_spec_def Let_def maxLength_def string_error_def advance_def)

text \<open>
  C37: strings without a newline and of at most 1024 characters, written one after the other by
  \<open>WriteString\<close>, are read back by \<open>ReadString\<close>, as long as the position remains an \<open>int32_t\<close>.
\<close>

theorem string_roundtrip:
  assumes "\<forall>cs\<in>set css. CHR 0x0A \<notin> set cs \<and> length cs \<le> 1024"
    and "m_AccessType b = BYTE_ACCESS" "stream_wf b"
    and "m_Pos b + sum_list (map (\<lambda>cs. length cs + 1) css) < 2 ^ 31"
  shows "\<exists>b'. foldR WriteString css b = Inr b' \<and>
    read_n ReadString (length css) (b'\<lparr>m_Pos := m_Pos b\<rparr>) = Inr (css, b')"
  using string_cd.roundtrip_list [OF _ assms(2,3), of css] assms(1,4)
  by (simp add: string_fits_def maxLength_def length_encs)

theorem string_roundtrip_witness:
  "\<exists>b'. foldR WriteString [''zezima'', ''secret''] (StreamBuffer_sized 4) = Inr b' \<and>
    read_n ReadString (length [''zezima'', ''secret'']) (b'\<lparr>m_Pos := m_Pos (StreamBuffer_sized 4)\<rparr>) =
      Inr ([''zezima'', ''secret''], b')"
  by (rule string_roundtrip) (simp_all add: stream_wf_sized)

text \<open>
  C36: a frame. After \<open>WriteHeader\<close>, whatever is then written behind the header, \<open>FinishVariableHeader\<close>
  succeeds and the packet is the encrypted opcode, the number of payload bytes in the width the
  header asked for (none, one byte, two bytes big endian) and the payload; the open frame is closed.
\<close>

theorem frame_written:
  assumes "stream_wf b" "m_AccessType b = BYTE_ACCESS" "m_FrameSize b = 0"
    and "WriteHeader opcode c hs b = Inr (b1, c1)"
    and "stream_wf b2" "written b2 = written b1 @ payload" "m_Pos b2 < 2 ^ 31"
    and "m_HeaderSize b2 = m_HeaderSize b1" "m_FrameSize b2 = m_FrameSize b1"
  shows "\<exists>b3. FinishVariableHeader b2 = Inr b3 \<and> m_FrameSize b3 = 0 \<and> m_Pos b3 = m_Pos b2 \<and>
    written b3 = written b @ [ucast (opcode + fst (GetNextKey c))] @
      (case hs of HS_NONE \<Rightarrow> [] | HS_BYTE \<Rightarrow> [word_of_nat (length payload)]
       | HS_SHORT \<Rightarrow> [word_of_nat (length payload div 256), word_of_nat (length payload)]) @ payload"
proof -
  let ?pre = "written b @ [ucast (opcode + fst (GetNextKey c))]"
  have "length ?pre = m_Pos b + 1"
    using assms(1) by (simp add: written_def stream_wf_def)
  moreover have "written b1 = ?pre @ replicate (header_len hs) 0" "m_HeaderSize b1 = hs"
    "m_FrameSize b1 = (if hs = HS_NONE then m_FrameSize b else m_Pos b + 1)"
    using WriteHeader_eq [OF assms(1,2) WriteHeader_room [OF assms(4)], of opcode c] assms(4) by auto
  ultimately have "\<exists>b3. FinishVariableHeader b2 = Inr b3 \<and> stream_wf b3 \<and> m_FrameSize b3 = 0 \<and>
      written b3 = ?pre @ frame_size_bytes hs (length payload) @ payload \<and> m_Pos b3 = m_Pos b2 \<and>
      m_AccessType b3 = m_AccessType b2"
    using assms by (intro FinishVariableHeader_eq) auto
  then show ?thesis by (cases hs) auto
qed

theorem frame_written_witness:
  "let c = ISAACCipher_new 1 2 3 4
   in \<exists>b1 c1 b3. WriteHeader 253 c HS_BYTE (StreamBuffer_sized 0) = Inr (b1, c1) \<and>
     FinishVariableHeader (put_bytes [7, 8] b1) = Inr b3 \<and>
     written b3 = [ucast (253 + fst (GetNextKey c)), 2, 7, 8]"
proof -
  let ?c = "ISAACCipher_new 1 2 3 4"
  obtain b1 where b1: "WriteHeader 253 ?c HS_BYTE (StreamBuffer_sized 0) = Inr (b1, snd (GetNextKey ?c))"
    "stream_wf b1" "m_Pos b1 = Suc (Suc 0)"
    using WriteHeader_eq [OF stream_wf_sized [of 0] new_buffer_fields(1), of HS_BYTE 253 ?c] by auto
  have "\<exists>b3. FinishVariableHeader (put_bytes [7, 8] b1) = Inr b3 \<and> m_FrameSize b3 = 0 \<and>
      m_Pos b3 = m_Pos (put_bytes [7, 8] b1) \<and>
      written b3 = written (StreamBuffer_sized 0) @ [ucast (253 + fst (GetNextKey ?c))] @
        (case HS_BYTE of HS_NONE \<Rightarrow> [] | HS_BYTE \<Rightarrow> [word_of_nat (length [7, 8 :: i8])]
         | HS_SHORT \<Rightarrow> [word_of_nat (length [7, 8 :: i8] div 256), word_of_nat (length [7, 8 :: i8])]) @
        [7, 8]"
    using b1 by (intro frame_written [OF _ _ _ b1(1)])
      (simp_all add: stream_wf_sized stream_wf_put_byte written_put_byte)
  with b1(1) show ?thesis by (auto simp: Let_def)
qed

text \<open>
  The parameter \<open>isSigned\<close> of \<open>ReadShort\<close> has no effect: with it set, the two bytes are still
  combined without their sign, so a negative 16-bit value is returned as a number above 32767.
\<close>

lemma read_short_sign_ignored: "ReadShort True type order b = ReadShort False type order b"
proof -
  have join: "(push_bit 8 (ucast (x :: i8)) OR ucast (y :: i8)) AND 0xFFFF =
      (push_bit 8 (ucast x) OR ucast y :: i32)" for x y
    unfolding and_FFFF
    by (rule bit_word_eqI) (auto simp: bit_simps dest: bit_imp_le_length)
  consider "unread b = []" | x where "unread b = [x]" | x y ys where "unread b = x # y # ys"
    by (metis list.exhaust)
  then show ?thesis
    by cases (cases order; simp add: ReadShort_def ReadByte_end ReadByte_eq join)+
qed

text \<open>
  A call of \<open>WriteLong\<close> with a single 64-bit argument selects the overload that takes an
  \<open>int32_t\<close>: what the reader gets back is the sign extension of the lower 32 bits of the argument.
\<close>

lemma write_long_overload_truncates:
  assumes "m_AccessType b = BYTE_ACCESS" "stream_wf b" "m_Pos b + 8 < 2 ^ 31"
  shows "\<exists>b'. WriteLong_i32 (ucast x) b = Inr b' \<and>
    ReadLong VT_STANDARD BIG (b'\<lparr>m_Pos := m_Pos b\<rparr>) = Inr (signed_take_bit 31 x, b')"
proof -
  have "(scast (ucast x :: i32) :: i64) = signed_take_bit 31 x"
    by (rule bit_word_eqI) (auto simp: bit_simps)
  with long_big_cd.roundtrip [OF _ assms(1,2), of VT_STANDARD "scast (ucast x :: i32)"] assms(3)
  show ?thesis by (simp add: WriteLong_i32_def)
qed

end
