(* ===== verification/StreamBuffer_Bits.thy ===== *)
theory StreamBuffer_Bits
  imports StreamBuffer_Codec
begin

text \<open>
  The bit level of \<open>StreamBuffer\<close>: a buffer is a row of bits, most significant bit of each byte
  first (\<open>buf_bit\<close>), and \<open>WriteBits\<close>, which works byte by byte with masks and shifts, is shown to
  append the low bits of its value to the bits written so far. The locale \<open>bit_sink\<close> is what the
  player updating code relies on.
\<close>

section \<open>Bits of a buffer\<close>

definition buf_bit :: "i8 list \<Rightarrow> nat \<Rightarrow> bool" where
  "buf_bit xs i = bit (xs ! (i div 8)) (7 - i mod 8)"

definition to_bits :: "nat \<Rightarrow> i32 \<Rightarrow> bool list" where
  "to_bits n v = map (bit v) (rev [0..<n])"

definition written_bits :: "StreamBuffer \<Rightarrow> bool list" where
  "written_bits b = map (buf_bit (m_Buffer b)) [0..<m_BitPosition b]"

definition bits_wf :: "StreamBuffer \<Rightarrow> bool" where
  "bits_wf b \<longleftrightarrow> m_BitPosition b \<le> 8 * length (m_Buffer b) \<and> m_BitPosition b + 7 < 2 ^ 31"

lemma length_written_bits [simp]: "length (written_bits b) = m_BitPosition b"
  by (simp add: written_bits_def)

lemma length_to_bits [simp]: "length (to_bits n v) = n"
  by (simp add: to_bits_def)

lemma nth_to_bits: "i < n \<Longrightarrow> to_bits n v ! i = bit v (n - 1 - i)"
  by (simp add: to_bits_def rev_nth)

lemma buf_bit_update:
  assumes "k < length xs"
  shows "buf_bit (xs[k := x]) i = (if i div 8 = k then bit x (7 - i mod 8) else buf_bit xs i)"
  using assms by (simp add: buf_bit_def nth_list_update)

lemma buf_bit_resize:
  "i < 8 * length xs \<Longrightarrow> length xs \<le> n \<Longrightarrow> buf_bit (resize n xs) i = buf_bit xs i"
  by (simp add: buf_bit_def nth_resize less_mult_imp_div_less mult.commute)

text \<open>Bytes with the same bits are the same.\<close>

lemma buf_bit_byte_eqI:
  assumes "\<And>i. 8 * k \<le> i \<Longrightarrow> i < 8 * k + 8 \<Longrightarrow> buf_bit xs i = buf_bit ys i"
  shows "xs ! k = ys ! k"
proof (rule bit_word_eqI)
  fix n assume "n < LENGTH(8)"
  then have n: "n < 8" by simp
  have "(8 * k + r) div 8 = k" "(8 * k + r) mod 8 = r" if "r < 8" for r
    using that by simp_all
  from this [of "7 - n"] n have "(8 * k + (7 - n)) div 8 = k" "7 - (8 * k + (7 - n)) mod 8 = n"
    by simp_all
  with assms [of "8 * k + (7 - n)"] n show "bit (xs ! k) n = bit (ys ! k) n"
    by (simp add: buf_bit_def)
qed

section \<open>Masks\<close>

lemma BIT_MASK_nth: "n \<le> 32 \<Longrightarrow> BIT_MASK ! n = mask n"
proof -
  assume "n \<le> 32"
  have "\<forall>n\<in>set [0..<33]. BIT_MASK ! n = (mask n :: i32)"
    by (simp add: upt_rec BIT_MASK_def mask_eq_exp_minus_1 nth_Cons')
  with \<open>n \<le> 32\<close> show ?thesis by simp
qed

lemma bit_mask_or: "bit (mask_or keep v x) j \<longleftrightarrow> j < 8 \<and> (bit x j \<and> bit keep j \<or> bit v j)"
  by (auto simp: mask_or_def Let_def bit_simps)

lemma bit_full_byte:
  assumes "bo \<le> 8" "bo < amount" "amount \<le> 32" "j < 8"
  shows "bit (mask_or (NOT (BIT_MASK ! bo)) (signed_drop_bit (amount - bo) v AND BIT_MASK ! bo) x) j =
    (if j < bo then bit v (amount - bo + j) else bit x j)"
  using assms by (auto simp: BIT_MASK_nth bit_mask_or bit_simps)

lemma bit_last_byte:
  assumes "bo \<le> 8" "amount \<le> bo" "j < 8"
  shows "bit (mask_or (NOT (push_bit (bo - amount) (BIT_MASK ! amount)))
      (push_bit (bo - amount) (v AND BIT_MASK ! amount)) x) j =
    (if bo - amount \<le> j \<and> j < bo then bit v (j - (bo - amount)) else bit x j)"
  using assms by (auto simp: BIT_MASK_nth bit_mask_or bit_simps)

section \<open>The loop of WriteBits\<close>

text \<open>
  \<open>bits_set v amount p xs ys\<close>: \<open>ys\<close> is \<open>xs\<close> with the low \<open>amount\<close> bits of \<open>v\<close>, most significant
  first, in place of the bits from \<open>p\<close> on.
\<close>

definition bits_set :: "i32 \<Rightarrow> nat \<Rightarrow> nat \<Rightarrow> i8 list \<Rightarrow> i8 list \<Rightarrow> bool" where
  "bits_set v amount p xs ys \<longleftrightarrow>
     length ys = length xs \<and>
     (\<forall>i. buf_bit ys i =
       (if p \<le> i \<and> i < p + amount then bit v (amount - 1 - (i - p)) else buf_bit xs i))"

lemma bits_set_last:
  assumes "1 \<le> bo" "bo \<le> 8" "amount \<le> bo" "k < length xs"
  shows "bits_set v amount (8 * k + 8 - bo) xs
    (xs[k := mask_or (NOT (push_bit (bo - amount) (BIT_MASK ! amount)))
       (push_bit (bo - amount) (v AND BIT_MASK ! amount)) (xs ! k)])" (is "bits_set _ _ ?p _ ?ys")
proof -
  have "buf_bit ?ys i =
      (if ?p \<le> i \<and> i < ?p + amount then bit v (amount - 1 - (i - ?p)) else buf_bit xs i)" for i
  proof (cases "i div 8 = k")
    case True
    then have i: "i = 8 * k + i mod 8" by (metis mult_div_mod_eq)
    have r: "i mod 8 < 8" by simp
    have iff: "bo - amount \<le> 7 - i mod 8 \<and> 7 - i mod 8 < bo \<longleftrightarrow> ?p \<le> i \<and> i < ?p + amount"
      using i r assms by linarith
    have idx: "7 - i mod 8 - (bo - amount) = amount - 1 - (i - ?p)" if "?p \<le> i \<and> i < ?p + amount"
      using that i r assms by linarith
    have "buf_bit ?ys i =
        (if bo - amount \<le> 7 - i mod 8 \<and> 7 - i mod 8 < bo
         then bit v (7 - i mod 8 - (bo - amount)) else bit (xs ! k) (7 - i mod 8))"
      unfolding buf_bit_update [OF assms(4)] if_P [OF True]
      by (rule bit_last_byte) (use assms in simp_all)
    moreover have "buf_bit xs i = bit (xs ! k) (7 - i mod 8)" by (simp only: buf_bit_def True)
    ultimately show ?thesis
      unfolding iff by (cases "?p \<le> i \<and> i < ?p + amount") (simp_all only: idx if_True if_False)
  next
    case False
    then have "\<not> (?p \<le> i \<and> i < ?p + amount)"
      using assms by (auto simp: div_nat_eqI)
    with False assms show ?thesis by (auto simp: buf_bit_update)
  qed
  then show ?thesis by (simp add: bits_set_def)
qed

lemma bits_set_full:
  assumes "1 \<le> bo" "bo \<le> 8" "bo < amount" "amount \<le> 32" "k < length xs"
  shows "bits_set (signed_drop_bit (amount - bo) v) bo (8 * k + 8 - bo) xs
    (xs[k := mask_or (NOT (BIT_MASK ! bo))
       (signed_drop_bit (amount - bo) v AND BIT_MASK ! bo) (xs ! k)])"
  using bits_set_last [OF assms(1,2) le_refl assms(5), of "signed_drop_bit (amount - bo) v"] by simp

text \<open>Setting the upper bits first and then the lower ones sets them all.\<close>

lemma bits_set_trans:
  assumes "bits_set (signed_drop_bit m v) n p xs ys" "bits_set v m (p + n) ys zs" "m + n \<le> 32"
  shows "bits_set v (n + m) p xs zs"
proof -
  have "buf_bit zs i =
      (if p \<le> i \<and> i < p + (n + m) then bit v (n + m - 1 - (i - p)) else buf_bit xs i)" for i
  proof (cases "p \<le> i \<and> i < p + n")
    case True
    then have "buf_bit zs i = bit (signed_drop_bit m v) (n - 1 - (i - p))"
      using assms(1,2) by (simp add: bits_set_def)
    also have "\<dots> = bit v (n + m - 1 - (i - p))"
      using True assms(3) by (auto simp: bit_simps intro!: arg_cong [where f = "bit v"])
    finally show ?thesis using True by simp
  next
    case False
    then show ?thesis
      using assms(1,2) by (auto simp: bits_set_def add.assoc intro!: arg_cong [where f = "bit v"])
  qed
  then show ?thesis using assms(1,2) by (simp add: bits_set_def)
qed

lemma WriteBits_loop_eq:
  assumes "1 \<le> bo" "bo \<le> 8" "1 \<le> amount" "amount \<le> 32" "8 * k + 8 - bo + amount \<le> 8 * length xs"
  shows "\<exists>ys. WriteBits_loop v amount bo k xs = Inr ys \<and> bits_set v amount (8 * k + 8 - bo) xs ys"
  using assms
proof (induction v amount bo k xs rule: WriteBits_loop.induct)
  case (1 v amount bo k xs)
  then have k: "k < length xs" by linarith
  show ?case
  proof (cases "bo < amount")
    case True
    let ?ys = "xs[k := mask_or (NOT (BIT_MASK ! bo))
      (signed_drop_bit (amount - bo) v AND BIT_MASK ! bo) (xs ! k)]"
    have p: "8 * k + 8 - bo + bo = 8 * (k + 1) + 8 - 8" using "1.prems" by simp
    obtain zs where zs: "WriteBits_loop v (amount - bo) 8 (k + 1) ?ys = Inr zs"
      "bits_set v (amount - bo) (8 * (k + 1) + 8 - 8) ?ys zs"
      using "1.IH" k True "1.prems" by fastforce
    have "bits_set v (bo + (amount - bo)) (8 * k + 8 - bo) xs zs"
      using bits_set_trans [OF bits_set_full, of bo amount k xs v zs] zs(2) True "1.prems" k p by simp
    with zs(1) True "1.prems" k show ?thesis
      by (simp add: WriteBits_loop.simps [of v amount])
  next
    case False
    then have "WriteBits_loop v amount bo k xs =
        Inr (xs[k := mask_or (NOT (push_bit (bo - amount) (BIT_MASK ! amount)))
          (push_bit (bo - amount) (v AND BIT_MASK ! amount)) (xs ! k)])"
      using "1.prems" k by (subst WriteBits_loop.simps) auto
    then show ?thesis
      using bits_set_last [of bo amount k xs v] "1.prems" k False by simp
  qed
qed

section \<open>WriteBits appends bits\<close>

definition grown :: "nat \<Rightarrow> StreamBuffer \<Rightarrow> i8 list" where
  "grown amount b =
     (if (m_BitPosition b + amount + 7) div 8 > length (m_Buffer b)
      then resize ((m_BitPosition b + amount + 7) div 8 + DEFAULT_BUFFER_SIZE) (m_Buffer b)
      else m_Buffer b)"

lemma grown_length:
  "m_BitPosition b + amount \<le> 8 * length (grown amount b)" "length (m_Buffer b) \<le> length (grown amount b)"
  by (auto simp: grown_def)

lemma buf_bit_grown:
  "i < 8 * length (m_Buffer b) \<Longrightarrow> buf_bit (grown amount b) i = buf_bit (m_Buffer b) i"
  by (simp add: grown_def buf_bit_resize)

lemma buf_bit_grown_new:
  assumes "8 * length (m_Buffer b) \<le> i" "i < 8 * length (grown amount b)"
  shows "\<not> buf_bit (grown amount b) i"
proof -
  have "length (m_Buffer b) \<le> i div 8" "i div 8 < length (grown amount b)"
    using assms by auto
  then show ?thesis by (auto simp: grown_def buf_bit_def nth_resize split: if_splits)
qed

lemma WriteBits_set:
  assumes "1 \<le> amount" "amount \<le> 32" "m_BitPosition b + amount + 7 < 2 ^ 31"
  shows "\<exists>ys. WriteBits amount v b =
      Inr (b\<lparr>m_Buffer := ys, m_BitPosition := m_BitPosition b + amount\<rparr>) \<and>
    bits_set v amount (m_BitPosition b) (grown amount b) ys"
proof -
  let ?p = "m_BitPosition b"
  have p: "8 * (?p div 8) + 8 - (8 - ?p mod 8) = ?p"
    by (simp add: mult_div_mod_eq)
  have q: "1 \<le> 8 - ?p mod 8" using mod_less_divisor [of 8 ?p] by linarith
  obtain ys where "WriteBits_loop v amount (8 - ?p mod 8) (?p div 8) (grown amount b) = Inr ys"
    "bits_set v amount ?p (grown amount b) ys"
    using WriteBits_loop_eq [of "8 - ?p mod 8" amount "?p div 8" "grown amount b" v] assms q
      grown_length(1) [of b amount] unfolding p by auto
  then show ?thesis using assms(3) by (auto simp: WriteBits_def Let_def grown_def)
qed

lemma WriteBits_eq:
  assumes "bits_wf b" "1 \<le> amount" "amount \<le> 32" "m_BitPosition b + amount + 7 < 2 ^ 31"
  shows "\<exists>b'. WriteBits amount v b = Inr b' \<and> bits_wf b' \<and>
    written_bits b' = written_bits b @ to_bits amount v \<and>
    m_BitPosition b' = m_BitPosition b + amount \<and> m_Pos b' = m_Pos b \<and>
    m_AccessType b' = m_AccessType b \<and> m_FrameSize b' = m_FrameSize b \<and>
    m_HeaderSize b' = m_HeaderSize b \<and> length (m_Buffer b) \<le> length (m_Buffer b') \<and>
    (\<forall>i. m_BitPosition b + amount \<le> i \<and> i < 8 * length (m_Buffer b') \<longrightarrow>
      buf_bit (m_Buffer b') i = (i < 8 * length (m_Buffer b) \<and> buf_bit (m_Buffer b) i))"
proof -
  obtain ys where ys: "WriteBits amount v b =
      Inr (b\<lparr>m_Buffer := ys, m_BitPosition := m_BitPosition b + amount\<rparr>)"
    and set: "bits_set v amount (m_BitPosition b) (grown amount b) ys"
    using WriteBits_set [OF assms(2-4)] by blast
  let ?b = "b\<lparr>m_Buffer := ys, m_BitPosition := m_BitPosition b + amount\<rparr>"
  have len: "length ys = length (grown amount b)" using set by (simp add: bits_set_def)
  have "written_bits ?b = written_bits b @ to_bits amount v"
  proof (rule nth_equalityI)
    fix i assume "i < length (written_bits ?b)"
    then have "i < m_BitPosition b + amount" by (simp add: written_bits_def)
    moreover have "i < m_BitPosition b \<Longrightarrow> i < 8 * length (m_Buffer b)"
      using assms(1) by (simp add: bits_wf_def)
    ultimately show "written_bits ?b ! i = (written_bits b @ to_bits amount v) ! i"
      using set by (auto simp: written_bits_def bits_set_def nth_append nth_to_bits buf_bit_grown)
  qed (simp add: written_bits_def)
  moreover have "buf_bit ys i = (i < 8 * length (m_Buffer b) \<and> buf_bit (m_Buffer b) i)"
    if "m_BitPosition b + amount \<le> i" "i < 8 * length ys" for i
    using that set buf_bit_grown [of i b amount] buf_bit_grown_new [of b i amount] len
    by (cases "i < 8 * length (m_Buffer b)") (simp_all add: bits_set_def)
  ultimately show ?thesis
    using ys len grown_length [of b amount] assms(4) by (auto simp: bits_wf_def)
qed

section \<open>Contract of a bit writer\<close>

definition enc_fields :: "(nat \<times> i32) list \<Rightarrow> bool list" where
  "enc_fields fs = concat (map (\<lambda>(n, v). to_bits n v) fs)"

lemma enc_fields_simps [simp]:
  "enc_fields [] = []" "enc_fields ((n, v) # fs) = to_bits n v @ enc_fields fs"
  "enc_fields (fs @ gs) = enc_fields fs @ enc_fields gs"
  by (simp_all add: enc_fields_def)

text \<open>The number a reader gets from a field of bits, and the values of consecutive fields.\<close>

definition from_bits :: "bool list \<Rightarrow> nat" where
  "from_bits bs = horner_sum of_bool 2 (rev bs)"

primrec read_fields :: "nat list \<Rightarrow> bool list \<Rightarrow> nat list" where
  "read_fields [] bs = []"
| "read_fields (n # ns) bs = from_bits (take n bs) # read_fields ns (drop n bs)"

lemma from_to_bits: "n \<le> 32 \<Longrightarrow> from_bits (to_bits n v) = unat v mod 2 ^ n"
proof -
  assume "n \<le> 32"
  then have "rev (to_bits n v) = map (bit (unat v)) [0..<n]"
    by (simp add: to_bits_def rev_map bit_simps)
  then show ?thesis
    by (simp only: from_bits_def horner_sum_bit_eq_take_bit take_bit_eq_mod)
qed

lemma read_enc_fields:
  "\<forall>(n, v)\<in>set fs. n \<le> 32 \<Longrightarrow>
   read_fields (map fst fs) (enc_fields fs @ rest) = map (\<lambda>(n, v). unat v mod 2 ^ n) fs"
  by (induction fs) (auto simp: from_to_bits)

locale bit_sink =
  fixes wr :: "nat \<Rightarrow> i32 \<Rightarrow> 'b \<Rightarrow> fault + 'b"
    and sent :: "'b \<Rightarrow> bool list"
    and ok :: "'b \<Rightarrow> bool"
  assumes wr_bits: "ok b \<Longrightarrow> 1 \<le> n \<Longrightarrow> n \<le> 32 \<Longrightarrow> length (sent b) + n + 7 < 2 ^ 31 \<Longrightarrow>
    \<exists>b'. wr n v b = Inr b' \<and> ok b' \<and> sent b' = sent b @ to_bits n v"
begin

lemma wr_fields:
  assumes "ok b" "\<forall>(n, v)\<in>set fs. 1 \<le> n \<and> n \<le> 32" "length (sent b) + length (enc_fields fs) + 7 < 2 ^ 31"
  shows "\<exists>b'. foldR (\<lambda>(n, v). wr n v) fs b = Inr b' \<and> ok b' \<and> sent b' = sent b @ enc_fields fs"
  using assms
proof (induction fs arbitrary: b)
  case Nil
  then show ?case by simp
next
  case (Cons f fs)
  obtain n v where f: "f = (n, v)" by fastforce
  obtain b1 where b1: "wr n v b = Inr b1" "ok b1" "sent b1 = sent b @ to_bits n v"
    using wr_bits [OF Cons.prems(1), of n v] Cons.prems(2,3) f by auto
  then show ?case using Cons.IH [OF b1(2)] Cons.prems(2,3) f by auto
qed

text \<open>A reader that knows the field widths recovers the fields, each modulo its width.\<close>

lemma wr_fields_readable:
  assumes "ok b" "\<forall>(n, v)\<in>set fs. 1 \<le> n \<and> n \<le> 32" "length (sent b) + length (enc_fields fs) + 7 < 2 ^ 31"
  shows "\<exists>b'. foldR (\<lambda>(n, v). wr n v) fs b = Inr b' \<and> ok b' \<and>
    read_fields (map fst fs) (drop (length (sent b)) (sent b')) = map (\<lambda>(n, v). unat v mod 2 ^ n) fs"
proof -
  have "\<forall>(n, v)\<in>set fs. n \<le> 32" using assms(2) by auto
  with wr_fields [OF assms] read_enc_fields [of fs "[]"] show ?thesis by auto
qed

end

interpretation bits: bit_sink WriteBits written_bits bits_wf
  by unfold_locales (use WriteBits_eq in \<open>unfold length_written_bits, blast\<close>)

lemma length_enc_fields: "length (enc_fields fs) = sum_list (map fst fs)"
  by (induction fs) auto

section \<open>Switching the access type\<close>

text \<open>The buffer after a change of the access type that does not overflow.\<close>

definition as_bits :: "StreamBuffer \<Rightarrow> StreamBuffer" where
  "as_bits b = b\<lparr>m_AccessType := BIT_ACCESS, m_BitPosition := m_Pos b * 8\<rparr>"

definition as_bytes :: "StreamBuffer \<Rightarrow> StreamBuffer" where
  "as_bytes b = b\<lparr>m_AccessType := BYTE_ACCESS, m_Pos := (m_BitPosition b + 7) div 8\<rparr>"

lemma SetAccessType_eq:
  "m_Pos b * 8 < 2 ^ 31 \<Longrightarrow> SetAccessType BIT_ACCESS b = Inr (as_bits b)"
  "bits_wf b \<Longrightarrow> SetAccessType BYTE_ACCESS b = Inr (as_bytes b)"
  by (simp_all add: SetAccessType_def as_bits_def as_bytes_def bits_wf_def)

text \<open>
  \<open>bits_clean\<close>: the bits behind the position are zero, as they are in a new buffer; then the last,
  partly used byte is padded with zeros. \<open>packed bs xs\<close>: the bytes \<open>xs\<close> hold the bits \<open>bs\<close> and
  zero padding up to the next byte.
\<close>

definition bits_clean :: "StreamBuffer \<Rightarrow> bool" where
  "bits_clean b \<longleftrightarrow>
     (\<forall>i. m_BitPosition b \<le> i \<and> i < 8 * length (m_Buffer b) \<longrightarrow> \<not> buf_bit (m_Buffer b) i)"

definition packed :: "bool list \<Rightarrow> i8 list \<Rightarrow> bool" where
  "packed bs xs \<longleftrightarrow>
     length xs = (length bs + 7) div 8 \<and>
     (\<forall>i < 8 * length xs. buf_bit xs i = (i < length bs \<and> bs ! i))"

lemma bits_clean_WriteBits:
  assumes "bits_wf b" "bits_clean b" "1 \<le> n" "n \<le> 32" "WriteBits n v b = Inr b'"
  shows "bits_clean b'"
proof -
  have "m_BitPosition b + n + 7 < 2 ^ 31" using assms(5) by (auto simp: WriteBits_def split: if_splits)
  from WriteBits_eq [OF assms(1,3,4) this, of v] assms(2,5) show ?thesis by (auto simp: bits_clean_def)
qed

lemma buf_bit_take: "i < 8 * n \<Longrightarrow> buf_bit (take n xs) i = buf_bit xs i"
  by (simp add: buf_bit_def less_mult_imp_div_less mult.commute)

lemma packed_unique:
  assumes "packed bs xs" "packed bs ys"
  shows "xs = ys"
proof (rule nth_equalityI)
  show "length xs = length ys" using assms by (simp add: packed_def)
  fix k assume "k < length xs"
  then show "xs ! k = ys ! k"
    using assms by (intro buf_bit_byte_eqI) (simp add: packed_def)
qed

lemma to_byte_access:
  assumes "bits_wf b" "bits_clean b"
  shows "packed (written_bits b) (written (as_bytes b))"
    and "stream_wf (as_bytes b)"
proof -
  let ?n = "(m_BitPosition b + 7) div 8"
  have "m_BitPosition b \<le> 8 * length (m_Buffer b)" using assms(1) by (simp add: bits_wf_def)
  then have le: "?n \<le> length (m_Buffer b)" by linarith
  then show "stream_wf (as_bytes b)"
    by (simp add: stream_wf_def as_bytes_def)
  have "buf_bit (take ?n (m_Buffer b)) i = (i < m_BitPosition b \<and> written_bits b ! i)"
    if "i < 8 * ?n" for i
    using that assms le
    by (cases "i < m_BitPosition b") (auto simp: buf_bit_take written_bits_def bits_clean_def)
  then show "packed (written_bits b) (written (as_bytes b))"
    using le by (simp add: packed_def written_def as_bytes_def)
qed

text \<open>Bits written behind whole bytes leave these bytes as they are.\<close>

lemma to_bit_access:
  assumes "stream_wf b" "m_Pos b * 8 < 2 ^ 31"
  shows "bits_wf (as_bits b)"
    and "written_bits (as_bits b) = map (buf_bit (written b)) [0..<8 * m_Pos b]"
proof -
  have "m_Pos b < 2 ^ 28" using assms(2) by simp
  then have "m_Pos b * 8 + 7 < 2 ^ 31" by simp
  with assms(1) show "bits_wf (as_bits b)"
    "written_bits (as_bits b) = map (buf_bit (written b)) [0..<8 * m_Pos b]"
    by (simp_all add: bits_wf_def stream_wf_def as_bits_def written_bits_def written_def buf_bit_take mult.commute)
qed

section \<open>Properties\<close>

text \<open>
  C26: \<open>WriteBits\<close> with 1 to 32 bits, whatever the size of the buffer: as long as seven more than the new bit position is an
  \<open>int32_t\<close>, it succeeds, appends the low \<open>n\<close> bits of the value, most significant first, to the bits written so far
  and keeps every bit behind them (zero where the buffer had to grow); beyond that, it ends in a signed overflow.
\<close>

theorem write_bits_appends:
  assumes "bits_wf b" "1 \<le> n" "n \<le> 32"
  shows "if m_BitPosition b + n + 7 < 2 ^ 31
    then \<exists>b'. WriteBits n v b = Inr b' \<and> bits_wf b' \<and>
      written_bits b' = written_bits b @ map (bit v) (rev [0..<n]) \<and>
      (\<forall>i. m_BitPosition b + n \<le> i \<and> i < 8 * length (m_Buffer b') \<longrightarrow>
        buf_bit (m_Buffer b') i = (i < 8 * length (m_Buffer b) \<and> buf_bit (m_Buffer b) i))
    else WriteBits n v b = Inl SignedOverflow"
proof (cases "m_BitPosition b + n + 7 < 2 ^ 31")
  case True
  from WriteBits_eq [OF assms True, of v] True show ?thesis by (auto simp: to_bits_def)
qed (simp add: WriteBits_def)

theorem write_bits_appends_witness:
  "\<exists>b b'. WriteBits 5 21 (StreamBuffer_sized 1) = Inr b \<and> WriteBits 11 2047 b = Inr b' \<and>
     written_bits b' = [True, False, True, False, True, True, True, True,
                        True, True, True, True, True, True, True, True]"
proof -
  have "bits_wf (StreamBuffer_sized 1)" "written_bits (StreamBuffer_sized 1) = []"
    by (simp_all add: bits_wf_def written_bits_def)
  then obtain b where b: "WriteBits 5 21 (StreamBuffer_sized 1) = Inr b" "bits_wf b"
    "written_bits b = map (bit (21 :: i32)) (rev [0..<5])"
    using write_bits_appends [of "StreamBuffer_sized 1" 5 21] by auto
  then have "m_BitPosition b = 5" using length_written_bits [of b] by simp
  with b(2)
  obtain b' where "WriteBits 11 2047 b = Inr b'"
    "written_bits b' = written_bits b @ map (bit (2047 :: i32)) (rev [0..<11])"
    using write_bits_appends [of b 11 2047] by auto
  with b show ?thesis by (auto simp: upt_rec)
qed

text \<open>
  C35: bit fields written one after the other by \<open>WriteBits\<close> are recovered by a reader that knows
  their widths, each value modulo two to its width, as long as seven more than the bit position is an \<open>int32_t\<close>.
\<close>

theorem bit_fields_roundtrip:
  assumes "bits_wf b" "\<forall>(n, v)\<in>set fs. 1 \<le> n \<and> n \<le> 32"
    and "m_BitPosition b + sum_list (map fst fs) + 7 < 2 ^ 31"
  shows "\<exists>b'. foldR (\<lambda>(n, v). WriteBits n v) fs b = Inr b' \<and>
    read_fields (map fst fs) (drop (length (written_bits b)) (written_bits b')) =
      map (\<lambda>(n, v). unat v mod 2 ^ n) fs"
  using bits.wr_fields_readable [OF assms(1,2)] assms(3) unfolding length_enc_fields length_written_bits by blast

theorem bit_fields_roundtrip_witness:
  "\<exists>b'. foldR (\<lambda>(n, v). WriteBits n v) [(2, 3), (7, 48), (5, - 1)] (StreamBuffer_sized 2) = Inr b' \<and>
    read_fields [2, 7, 5] (written_bits b') = [3, 48, 31]"
proof -
  have "bits_wf (StreamBuffer_sized 2)" by (simp add: bits_wf_def)
  from bit_fields_roundtrip [OF this, of "[(2, 3), (7, 48), (5, - 1)]"] show ?thesis
    by (simp add: written_bits_def unsigned_minus_1_eq_mask mask_eq_exp_minus_1 del: foldR.simps read_fields.simps)
qed

text \<open>
  When a buffer whose unused part is still zero is switched back from bit to byte access, its
  bytes are exactly the bits written, padded with zeros to a whole number of bytes.
\<close>

lemma bit_access_packs:
  assumes "bits_wf b" "\<forall>i. m_BitPosition b \<le> i \<and> i < 8 * length (m_Buffer b) \<longrightarrow> \<not> buf_bit (m_Buffer b) i"
    and "\<forall>(n, v)\<in>set fs. 1 \<le> n \<and> n \<le> 32" "m_BitPosition b + sum_list (map fst fs) + 7 < 2 ^ 31"
  shows "\<exists>b'. bindR (foldR (\<lambda>(n, v). WriteBits n v) fs b) (SetAccessType BYTE_ACCESS) = Inr b' \<and>
    packed (written_bits b @ enc_fields fs) (written b')"
proof -
  obtain b' where b': "foldR (\<lambda>(n, v). WriteBits n v) fs b = Inr b'" "bits_wf b'"
    "written_bits b' = written_bits b @ enc_fields fs"
    using bits.wr_fields [OF assms(1,3)] assms(4) by (auto simp: length_enc_fields)
  have "bits_wf b' \<and> bits_clean b'"
  proof (rule foldR_invariant [OF b'(1)])
    show "bits_wf b \<and> bits_clean b" using assms by (simp add: bits_clean_def)
    show "bits_wf t \<and> bits_clean t"
      if "f \<in> set fs" "bits_wf s \<and> bits_clean s" "(case f of (n, v) \<Rightarrow> WriteBits n v) s = Inr t" for f s t
    proof -
      obtain n v where f: "f = (n, v)" by fastforce
      then have n: "1 \<le> n" "n \<le> 32" using that(1) assms(3) by auto
      from f that(3) have run: "WriteBits n v s = Inr t" by simp
      then have "m_BitPosition s + n + 7 < 2 ^ 31" by (auto simp: WriteBits_def split: if_splits)
      with WriteBits_eq [of s n v] bits_clean_WriteBits [of s n v t] that(2) n run show ?thesis by auto
    qed
  qed
  with b' to_byte_access(1) [of b'] show ?thesis by (auto simp: SetAccessType_eq)
qed

end
