(* ===== verification/Util.thy ===== *)
theory Util
  imports Prelude
begin

text \<open>
  \<open>PlayerNameToInt64\<close> of \<open>src/src/Util.h\<close>: the name hash of the protocol, a number in base 37. It is
  computed in 64-bit arithmetic; the lemmas show that this arithmetic never wraps, give the number
  the function computes, and that the hash of an ordinary name can be turned back into the name.
\<close>

section \<open>The function\<close>

text \<open>What the body of the loop adds to \<open>l\<close> for the character \<open>c\<close>; other characters add nothing.\<close>

definition name_digit :: "char \<Rightarrow> nat" where
  "name_digit ch =
     (let c = (of_char ch :: nat)
      in if c \<ge> 65 \<and> c \<le> 90 then (1 + c) - 65
         else if c \<ge> 97 \<and> c \<le> 122 then (1 + c) - 97
         else if c \<ge> 48 \<and> c \<le> 57 then (27 + c) - 48
         else 0)"

function strip_loop :: "u64 \<Rightarrow> u64" where
  "strip_loop l = (if l mod 37 = 0 \<and> l \<noteq> 0 then strip_loop (l div 37) else l)"
  by pat_completeness auto
termination
  by (relation "measure unat") (auto simp: unat_div_distrib unat_gt_0 div_less_dividend)

declare strip_loop.simps [simp del]

definition PlayerNameToInt64 :: "string \<Rightarrow> u64" where
  "PlayerNameToInt64 s =
     (let len = (if length s > 12 then 12 else length s);
          l = foldl (\<lambda>l i. l * 37 + word_of_nat (name_digit (s ! i))) 0 [0..<len]
      in strip_loop l)"

section \<open>The number computed\<close>

definition value37 :: "nat list \<Rightarrow> nat" where
  "value37 ds = foldl (\<lambda>n d. n * 37 + d) 0 ds"

function strip37 :: "nat \<Rightarrow> nat" where
  "strip37 n = (if n mod 37 = 0 \<and> n \<noteq> 0 then strip37 (n div 37) else n)"
  by pat_completeness auto
termination
  by (relation "measure id") auto

declare strip37.simps [simp del]

function digits37 :: "nat \<Rightarrow> nat list" where
  "digits37 n = (if n = 0 then [] else digits37 (n div 37) @ [n mod 37])"
  by pat_completeness auto
termination
  by (relation "measure id") auto

declare digits37.simps [simp del]

text \<open>The inverse the game client applies: the characters of the digits of a hash.\<close>

definition name_table :: string where
  "name_table = ''_abcdefghijklmnopqrstuvwxyz0123456789''"

definition name_of :: "nat \<Rightarrow> string" where
  "name_of n = map (\<lambda>d. name_table ! d) (digits37 n)"

lemma name_digit_less: "name_digit c < 37"
  by (auto simp: name_digit_def Let_def)

lemma value37_snoc [simp]: "value37 [] = 0" "value37 (ds @ [d]) = value37 ds * 37 + d"
  by (simp_all add: value37_def)

lemma value37_less: "\<forall>d\<in>set ds. d < 37 \<Longrightarrow> value37 ds < 37 ^ length ds"
proof (induction ds rule: rev_induct)
  case Nil
  then show ?case by simp
next
  case (snoc d ds)
  then have "value37 ds + 1 \<le> 37 ^ length ds" "d < 37" by simp_all
  then have "(value37 ds + 1) * 37 \<le> 37 ^ length ds * 37" by (intro mult_right_mono) simp_all
  then have "value37 ds * 37 + 37 \<le> 37 ^ Suc (length ds)" by simp
  with \<open>d < 37\<close> show ?case by simp
qed

lemma unat_word_small: "n < 2 ^ 64 \<Longrightarrow> unat (word_of_nat n :: u64) = n"
  by (simp add: unat_of_nat take_bit_nat_eq_self)

lemma name_loop_value:
  "foldl (\<lambda>l c. l * 37 + word_of_nat (name_digit c)) (0 :: u64) cs =
   word_of_nat (value37 (map name_digit cs))"
  by (induction cs rule: rev_induct) (simp_all)

lemma strip_loop_value: "unat (strip_loop l) = strip37 (unat l)"
proof (induction l rule: strip_loop.induct)
  case (1 l)
  have iff: "l mod 37 = 0 \<and> l \<noteq> 0 \<longleftrightarrow> unat l mod 37 = 0 \<and> unat l \<noteq> 0"
    by (simp add: unat_mod_distrib unat_eq_0 flip: unat_eq_0 [of "l mod 37"])
  show ?case
  proof (cases "l mod 37 = 0 \<and> l \<noteq> 0")
    case True
    with "1.IH" have "unat (strip_loop (l div 37)) = strip37 (unat l div 37)"
      by (simp add: unat_div_distrib)
    with True iff show ?thesis
      by (simp add: strip_loop.simps [of l] strip37.simps [of "unat l"])
  next
    case False
    with iff show ?thesis
      by (auto simp: strip_loop.simps [of l] strip37.simps [of "unat l"])
  qed
qed

text \<open>Twelve digits in base 37 fit into 63 bits.\<close>

lemma name_value_fits: "value37 (map name_digit (take 12 s)) < 2 ^ 63"
proof -
  have "value37 (map name_digit (take 12 s)) < 37 ^ length (take 12 s)"
    using value37_less [of "map name_digit (take 12 s)"] by (simp add: name_digit_less)
  also have "(37 :: nat) ^ length (take 12 s) \<le> 37 ^ 12"
    by (intro power_increasing) simp_all
  finally show ?thesis by simp
qed

lemma PlayerNameToInt64_value:
  "unat (PlayerNameToInt64 s) = strip37 (value37 (map name_digit (take 12 s)))"
proof -
  let ?len = "if length s > 12 then 12 else length s"
  have idx: "map ((!) s) [0..<?len] = take 12 s"
    by (rule nth_equalityI) (auto split: if_splits)
  have "foldl (\<lambda>l i. l * 37 + word_of_nat (name_digit (s ! i))) (0 :: u64) [0..<?len] =
      foldl (\<lambda>l c. l * 37 + word_of_nat (name_digit c)) 0 (map ((!) s) [0..<?len])"
    by (simp add: foldl_map)
  also have "\<dots> = word_of_nat (value37 (map name_digit (take 12 s)))"
    unfolding idx by (rule name_loop_value)
  finally have fold: "foldl (\<lambda>l i. l * 37 + word_of_nat (name_digit (s ! i))) (0 :: u64) [0..<?len] =
      word_of_nat (value37 (map name_digit (take 12 s)))" .
  from name_value_fits [of s] have "value37 (map name_digit (take 12 s)) < 2 ^ 64" by simp
  then show ?thesis
    by (simp only: PlayerNameToInt64_def Let_def fold strip_loop_value unat_word_small)
qed

section \<open>Names and hashes\<close>

lemma strip37_unchanged: "n mod 37 \<noteq> 0 \<Longrightarrow> strip37 n = n"
  by (simp add: strip37.simps [of n])

lemma strip37_normal: "strip37 n = 0 \<or> strip37 n mod 37 \<noteq> 0"
proof (induction n rule: strip37.induct)
  case (1 n)
  then show ?case
    by (cases "n mod 37 = 0 \<and> n \<noteq> 0") (auto simp: strip37.simps [of n])
qed

lemma value37_pos: "ds \<noteq> [] \<Longrightarrow> hd ds \<noteq> 0 \<Longrightarrow> value37 ds \<noteq> 0"
proof (induction ds rule: rev_induct)
  case (snoc d ds)
  then show ?case using value37_snoc(2) [of "[]" d] by (cases "ds = []") auto
qed simp

text \<open>The digits of a number without leading zeros.\<close>

lemma digits37_value37:
  "\<forall>d\<in>set ds. d < 37 \<Longrightarrow> ds \<noteq> [] \<longrightarrow> hd ds \<noteq> 0 \<Longrightarrow> digits37 (value37 ds) = ds"
proof (induction ds rule: rev_induct)
  case Nil
  then show ?case by (simp add: digits37.simps)
next
  case (snoc d ds)
  have "value37 (ds @ [d]) \<noteq> 0" using value37_pos [of "ds @ [d]"] snoc.prems(2) by simp
  moreover have "digits37 (value37 ds) = ds" using snoc by (cases "ds = []") (auto simp: digits37.simps)
  ultimately show ?case using snoc.prems(1) by (simp add: digits37.simps [of "value37 ds * 37 + d"])
qed

text \<open>
  The characters that count, and what the client shows for a character: letters in lower case, digits as they are, and an
  underscore for everything else, blanks included.
\<close>

definition name_char :: "char \<Rightarrow> bool" where
  "name_char c \<longleftrightarrow>
     (let n = (of_char c :: nat) in 65 \<le> n \<and> n \<le> 90 \<or> 97 \<le> n \<and> n \<le> 122 \<or> 48 \<le> n \<and> n \<le> 57)"

definition shown_char :: "char \<Rightarrow> char" where
  "shown_char c =
     (let n = (of_char c :: nat)
      in if 65 \<le> n \<and> n \<le> 90 then char_of (n + 32) else if name_char c then c else CHR ''_'')"

lemma name_table_chars:
  "1 \<le> k \<Longrightarrow> k < 27 \<Longrightarrow> name_table ! k = char_of (k + 96)" "27 \<le> k \<Longrightarrow> k < 37 \<Longrightarrow> name_table ! k = char_of (k + 21)"
proof -
  have "map ((!) name_table) [1..<27] = map (\<lambda>k. char_of (k + 96)) [1..<27]"
    "map ((!) name_table) [27..<37] = map (\<lambda>k. char_of (k + 21)) [27..<37]"
    by (simp_all add: name_table_def upt_rec char_of_def bit_iff_odd)
  then have "\<forall>k\<in>{1..<27}. name_table ! k = char_of (k + 96)" "\<forall>k\<in>{27..<37}. name_table ! k = char_of (k + 21)"
    unfolding map_eq_conv set_upt by - (assumption+)
  then show "1 \<le> k \<Longrightarrow> k < 27 \<Longrightarrow> name_table ! k = char_of (k + 96)"
    "27 \<le> k \<Longrightarrow> k < 37 \<Longrightarrow> name_table ! k = char_of (k + 21)"
    by (meson atLeastLessThan_iff)+
qed

lemma shown_char_digit: "name_table ! name_digit c = shown_char c"
proof -
  let ?n = "of_char c :: nat"
  have c: "char_of ?n = c" by simp
  consider "65 \<le> ?n \<and> ?n \<le> 90" | "97 \<le> ?n \<and> ?n \<le> 122" | "48 \<le> ?n \<and> ?n \<le> 57" | "\<not> name_char c"
    by (auto simp: name_char_def Let_def)
  then show ?thesis
  proof cases
    case 1
    then have "name_table ! name_digit c = char_of (?n - 64 + 96)" "?n - 64 + 96 = ?n + 32"
      using name_table_chars(1) [of "?n - 64"] by (auto simp: name_digit_def Let_def)
    with 1 show ?thesis by (simp add: shown_char_def Let_def)
  next
    case 2
    then have "name_table ! name_digit c = char_of (?n - 96 + 96)" "?n - 96 + 96 = ?n"
      using name_table_chars(1) [of "?n - 96"] by (auto simp: name_digit_def Let_def)
    with 2 c show ?thesis by (simp add: shown_char_def name_char_def Let_def)
  next
    case 3
    then have "name_table ! name_digit c = char_of (?n - 21 + 21)" "?n - 21 + 21 = ?n"
      using name_table_chars(2) [of "?n - 21"] by (auto simp: name_digit_def Let_def)
    with 3 c show ?thesis by (simp add: shown_char_def name_char_def Let_def)
  next
    case 4
    then show ?thesis by (auto simp: name_char_def name_digit_def shown_char_def name_table_def Let_def)
  qed
qed

lemma name_char_digit: "name_char c \<Longrightarrow> name_digit c \<noteq> 0"
  by (auto simp: name_char_def name_digit_def Let_def)

section \<open>Properties\<close>

text \<open>
  The hash of a name is the number whose digits in base 37 are those of its first twelve
  characters (letters of either case 1 to 26, digits 27 to 36, anything else 0) with trailing zero
  digits removed. The number fits into 63 bits, so no step of the 64-bit computation wraps, and
  the loop that removes the zeros ends with zero or a number that 37 does not divide.
\<close>

lemma name_hash_value:
  "value37 (map name_digit (take 12 s)) < 2 ^ 63 \<and>
   unat (PlayerNameToInt64 s) = strip37 (value37 (map name_digit (take 12 s))) \<and>
   (unat (PlayerNameToInt64 s) mod 37 = 0 \<longleftrightarrow> PlayerNameToInt64 s = 0)"
proof -
  have "PlayerNameToInt64 s = 0 \<longleftrightarrow> unat (PlayerNameToInt64 s) = 0" by (simp add: unat_eq_0)
  then show ?thesis
    using strip37_normal [of "value37 (map name_digit (take 12 s))"] name_value_fits [of s]
    by (auto simp: PlayerNameToInt64_value)
qed

text \<open>
  C40: a name of at most twelve characters that starts and ends with a letter or a digit is recovered from its hash, up to
  what the hash does not distinguish: upper case letters come back in lower case, and blanks and all other
  characters inside the name as underscores. So names that are shown differently have different hashes.
\<close>

theorem name_hash_roundtrip:
  assumes "length s \<le> 12" "s \<noteq> [] \<longrightarrow> name_char (hd s) \<and> name_char (last s)"
  shows "name_of (unat (PlayerNameToInt64 s)) = map shown_char s"
proof -
  let ?ds = "map name_digit s"
  have ds: "\<forall>d\<in>set ?ds. d < 37" "?ds \<noteq> [] \<longrightarrow> hd ?ds \<noteq> 0"
    using assms(2) name_char_digit by (auto simp: name_digit_less hd_map)
  have "strip37 (value37 ?ds) = value37 ?ds"
  proof (cases s rule: rev_cases)
    case Nil
    then show ?thesis by (simp add: strip37.simps)
  next
    case (snoc cs c)
    then have "name_digit c \<noteq> 0" "name_digit c < 37" using assms(2) name_char_digit [of c] name_digit_less by simp_all
    with snoc show ?thesis by (intro strip37_unchanged) simp
  qed
  then show ?thesis
    using assms(1) digits37_value37 [OF ds] by (simp add: PlayerNameToInt64_value name_of_def shown_char_digit)
qed

theorem name_hash_roundtrip_witness:
  "name_of (unat (PlayerNameToInt64 ''Zezima 99'')) = ''zezima_99''"
proof -
  have "name_char (hd ''Zezima 99'') \<and> name_char (last ''Zezima 99'')" "map shown_char ''Zezima 99'' = ''zezima_99''"
    by code_simp+
  with name_hash_roundtrip [of "''Zezima 99''"] show ?thesis by simp
qed

end
