(* ===== verification/UpdateFlags.thy ===== *)
theory UpdateFlags
  imports Prelude
begin

text \<open>
  \<open>src/src/UpdateFlags.h\<close>: the set of update flags of a player as a 32-bit mask. \<open>flag_set\<close> reads a
  mask as a set of bit numbers; the operators of the header are union, intersection and overlap of
  these sets.
\<close>

type_synonym UpdateFlag = u32

definition Flag_None :: UpdateFlag where "Flag_None = 0"
definition Flag_Appearance :: UpdateFlag where "Flag_Appearance = push_bit 0 1"
definition Flag_Animation :: UpdateFlag where "Flag_Animation = push_bit 1 1"
definition Flag_Graphics :: UpdateFlag where "Flag_Graphics = push_bit 2 1"
definition Flag_Chat :: UpdateFlag where "Flag_Chat = push_bit 3 1"
definition Flag_FaceEntity :: UpdateFlag where "Flag_FaceEntity = push_bit 4 1"
definition Flag_ForceMove :: UpdateFlag where "Flag_ForceMove = push_bit 5 1"
definition Flag_ResetMovement :: UpdateFlag where "Flag_ResetMovement = push_bit 6 1"
definition Flag_NeedsPlacement :: UpdateFlag where "Flag_NeedsPlacement = push_bit 7 1"
definition Flag_All :: UpdateFlag where "Flag_All = 0xFFFFFFFF"

definition flag_or :: "UpdateFlag \<Rightarrow> UpdateFlag \<Rightarrow> UpdateFlag" where
  "flag_or a b = a OR b"

definition flag_and :: "UpdateFlag \<Rightarrow> UpdateFlag \<Rightarrow> UpdateFlag" where
  "flag_and a b = a AND b"

definition hasFlag :: "UpdateFlag \<Rightarrow> UpdateFlag \<Rightarrow> bool" where
  "hasFlag flags flag \<longleftrightarrow> flag_and flags flag \<noteq> 0"

section \<open>Masks as sets\<close>

definition flag_set :: "UpdateFlag \<Rightarrow> nat set" where
  "flag_set f = {n. bit f n}"

lemma flag_set_ops [simp]:
  "flag_set (flag_or a b) = flag_set a \<union> flag_set b"
  "flag_set (flag_and a b) = flag_set a \<inter> flag_set b"
  "flag_set Flag_None = {}"
  by (auto simp: flag_set_def flag_or_def flag_and_def Flag_None_def bit_simps)

lemma flag_set_empty: "flag_set f = {} \<longleftrightarrow> f = 0"
proof
  assume "flag_set f = {}"
  then show "f = 0" by (intro bit_word_eqI) (simp add: flag_set_def)
qed (simp add: flag_set_def)

lemma hasFlag_set: "hasFlag flags flag \<longleftrightarrow> flag_set flags \<inter> flag_set flag \<noteq> {}"
  using flag_set_empty [of "flag_and flags flag"] by (simp add: hasFlag_def)

lemma hasFlag_or [simp]: "hasFlag (flag_or a b) f \<longleftrightarrow> hasFlag a f \<or> hasFlag b f"
  by (auto simp: hasFlag_set)

lemma hasFlag_None [simp]: "\<not> hasFlag Flag_None f"
  by (simp add: hasFlag_set)

lemma hasFlag_self [simp]: "hasFlag Flag_NeedsPlacement Flag_NeedsPlacement"
  by (simp add: hasFlag_def flag_and_def Flag_NeedsPlacement_def)

lemma hasFlag_nonzero: "hasFlag flags f \<Longrightarrow> flags \<noteq> 0"
  by (auto simp: hasFlag_def flag_and_def)

lemma Flag_All_eq: "Flag_All = -1"
  by (simp add: Flag_All_def)

lemma flag_or_All [simp]: "flag_or a Flag_All = Flag_All"
  by (simp add: flag_or_def Flag_All_eq)

end
