(* ===== verification/Position.thy ===== *)
theory Position
  imports Prelude
begin

text \<open>
  \<open>src/src/Position.h\<close>: map positions as unsigned 32-bit coordinates, the 8x8 regions they lie in,
  directions of movement and visibility. All coordinate arithmetic wraps modulo \<open>2 ^ 32\<close>, as it
  does in the code; differences are read as \<open>int32_t\<close> (\<open>sint\<close>).
\<close>

section \<open>The class\<close>

record Position =
  pos_x :: u32
  pos_y :: u32
  pos_z :: u32

definition Position_new :: "u32 \<Rightarrow> u32 \<Rightarrow> Position" where
  "Position_new x y = \<lparr>pos_x = x, pos_y = y, pos_z = 0\<rparr>"

text \<open>Getters and setters are the fields of the record.\<close>

abbreviation (input) GetX :: "'a Position_scheme \<Rightarrow> u32" where
  "GetX \<equiv> pos_x"

abbreviation (input) GetY :: "'a Position_scheme \<Rightarrow> u32" where
  "GetY \<equiv> pos_y"

abbreviation (input) GetZ :: "'a Position_scheme \<Rightarrow> u32" where
  "GetZ \<equiv> pos_z"

abbreviation (input) SetX :: "u32 \<Rightarrow> 'a Position_scheme \<Rightarrow> 'a Position_scheme" where
  "SetX value p \<equiv> p\<lparr>pos_x := value\<rparr>"

abbreviation (input) SetY :: "u32 \<Rightarrow> 'a Position_scheme \<Rightarrow> 'a Position_scheme" where
  "SetY value p \<equiv> p\<lparr>pos_y := value\<rparr>"

abbreviation (input) SetZ :: "u32 \<Rightarrow> 'a Position_scheme \<Rightarrow> 'a Position_scheme" where
  "SetZ value p \<equiv> p\<lparr>pos_z := value\<rparr>"

definition GetRegionX :: "Position \<Rightarrow> u32" where
  "GetRegionX p = drop_bit 3 (pos_x p) - 6"

definition GetRegionY :: "Position \<Rightarrow> u32" where
  "GetRegionY p = drop_bit 3 (pos_y p) - 6"

definition GetLocalX :: "Position \<Rightarrow> Position \<Rightarrow> u32" where
  "GetLocalX p base = pos_x p - 8 * GetRegionX base"

definition GetLocalY :: "Position \<Rightarrow> Position \<Rightarrow> u32" where
  "GetLocalY p base = pos_y p - 8 * GetRegionY base"

abbreviation (input) GetLocalX_own :: "Position \<Rightarrow> u32" where
  "GetLocalX_own p \<equiv> GetLocalX p p"

abbreviation (input) GetLocalY_own :: "Position \<Rightarrow> u32" where
  "GetLocalY_own p \<equiv> GetLocalY p p"

definition Move :: "i32 \<Rightarrow> i32 \<Rightarrow> Position \<Rightarrow> Position" where
  "Move amountX amountY p =
     (let p = SetX (GetX p + amountX) p in SetY (GetY p + amountY) p)"

definition Direction :: "i32 \<Rightarrow> i32 \<Rightarrow> i32" where
  "Direction dx dy =
     (if sint dx < 0 then
        (if sint dy < 0 then 5 else if sint dy > 0 then 0 else 3)
      else if sint dx > 0 then
        (if sint dy < 0 then 7 else if sint dy > 0 then 2 else 4)
      else
        (if sint dy < 0 then 6 else if sint dy > 0 then 1 else -1))"

definition IsViewableFrom :: "Position \<Rightarrow> Position \<Rightarrow> bool" where
  "IsViewableFrom p other \<longleftrightarrow>
     (let deltaX = sint (pos_x other - pos_x p); deltaY = sint (pos_y other - pos_y p)
      in deltaX \<le> 14 \<and> deltaX \<ge> -15 \<and> deltaY \<le> 14 \<and> deltaY \<ge> -15)"

definition DIRECTION_DELTA_X :: "i32 list" where
  "DIRECTION_DELTA_X = [-1, 0, 1, -1, 1, -1, 0, 1]"

definition DIRECTION_DELTA_Y :: "i32 list" where
  "DIRECTION_DELTA_Y = [1, 1, 1, 0, 0, -1, -1, -1]"

section \<open>Directions\<close>

lemma sint_eq_0: "sint (w :: i32) = 0 \<longleftrightarrow> w = 0"
  by (metis signed_0 signed_word_eqI)

lemma Direction_range:
  "Direction dx dy = -1 \<and> dx = 0 \<and> dy = 0 \<or>
   unat (Direction dx dy) < 8 \<and> (dx \<noteq> 0 \<or> dy \<noteq> 0) \<and> Direction dx dy \<noteq> -1 \<and>
   DIRECTION_DELTA_X ! unat (Direction dx dy) = word_of_int (sgn (sint dx)) \<and>
   DIRECTION_DELTA_Y ! unat (Direction dx dy) = word_of_int (sgn (sint dy))"
  by (auto simp: Direction_def DIRECTION_DELTA_X_def DIRECTION_DELTA_Y_def sgn_if sint_eq_0)

section \<open>Regions\<close>

text \<open>A position lies 48 to 55 tiles into the map area loaded for its own region.\<close>

lemma shift_region: "8 * (drop_bit 3 (x :: u32) - 6) = x - (x mod 8) - 48"
proof -
  have "8 * (x div 8) = x - x mod 8"
    by (simp add: minus_mod_eq_mult_div)
  then show ?thesis by (simp add: drop_bit_eq_div right_diff_distrib)
qed

lemma local_self: "GetLocalX p p = pos_x p mod 8 + 48" "GetLocalY p p = pos_y p mod 8 + 48"
  unfolding GetLocalX_def GetLocalY_def GetRegionX_def GetRegionY_def shift_region by simp_all

lemma uint_mod_8: "0 \<le> uint ((x :: u32) mod 8)" "uint ((x :: u32) mod 8) < 8"
  by (simp_all add: uint_mod_distrib)

lemma local_self_range:
  "48 \<le> sint (GetLocalX p p)" "sint (GetLocalX p p) < 56"
  "48 \<le> sint (GetLocalY p p)" "sint (GetLocalY p p) < 56"
proof -
  have "sint (x mod 8 + 48) = uint (x mod 8) + 48" for x :: u32
  proof -
    have "uint (x mod 8 + 48) = uint (x mod 8) + 48"
      using uint_mod_8 [of x] by (simp add: uint_word_ariths)
    then show ?thesis using uint_mod_8 [of x] by (subst sint_small) simp_all
  qed
  then show "48 \<le> sint (GetLocalX p p)" "sint (GetLocalX p p) < 56"
    "48 \<le> sint (GetLocalY p p)" "sint (GetLocalY p p) < 56"
    using uint_mod_8 [of "pos_x p"] uint_mod_8 [of "pos_y p"] by (simp_all add: local_self)
qed

end
