(* ===== verification/Game_State.thy ===== *)
theory Game_State
  imports UpdateFlags Position ISAACCipher
begin

text \<open>
  The objects of the running server and how they hold each other. A class becomes a record; objects
  live in two heaps (players and clients) and are named by their address. \<open>std::shared_ptr\<close> is an
  address whose owner keeps the object alive, \<open>std::weak_ptr\<close> an address whose \<open>lock()\<close> is a lookup
  that fails once the object is destroyed.

  \<^item> \<open>Player\<close>s are owned by \<open>World::m_Players\<close>, by the \<open>m_LocalPlayers\<close> of other players, and by \<open>playerList\<close>,
    the local variable of \<open>World::Process\<close> on the game thread while a cycle is running;
    \<open>release_players\<close> is what dropping a \<open>shared_ptr<Player>\<close> does: it destroys the player if
    nothing owns it any more, and then drops the pointers in its list of local players.
  \<^item> \<open>Client\<close>s are owned by the asynchronous operations and posted handlers that captured \<open>self\<close>.
    The operations of asio that a client has started are part of its record: \<open>reading\<close>,
    \<open>write_op\<close> (the bytes of the write in progress) and the queue \<open>m_Strand\<close> of posted handlers, and
    \<open>sent\<close> is the data of its completed writes.
\<close>

type_synonym ref = nat

section \<open>Movement\<close>

record Point = Position +
  m_Direction :: i32

record MovementHandler =
  m_Waypoints :: "Point list"
  m_RunToggled :: bool
  m_RunPath :: bool

section \<open>Players\<close>

record Player =
  m_Equipment :: "u32 list"
  m_Colors :: "u32 list"
  m_Appearance :: "u32 list"
  m_PrimaryDirection :: i32
  m_SecondaryDirection :: i32
  m_NPCCosplayId :: u32
  m_Username :: string
  m_Client :: ref
  m_Position :: Position
  m_CurrentRegion :: Position
  m_UpdateFlags :: UpdateFlag
  m_MovementHandler :: MovementHandler
  m_Index :: i32
  m_LocalPlayers :: "ref list"

section \<open>Clients\<close>

datatype NetworkStage = CONNECTED | LOGGING_IN | LOGGED_IN | LOGGED_OUT

text \<open>The handlers that wait on a strand: posted functions and completed operations.\<close>

datatype handler =
    SendTask "i8 list"
  | RequestDisconnectTask
  | ReadDone "i8 list option"
  | WriteDone bool

record Client =
  socket_open :: bool
  m_Strand :: "handler list"
  reading :: bool
  write_op :: "i8 list option"
  sent :: "i8 list list"
  m_Stage :: NetworkStage
  m_ClientUsername :: string
  m_Disconnected :: bool
  m_OnDisconnect :: "ref option"
  m_Encryptor :: "ISAACCipher option"
  m_Decryptor :: "ISAACCipher option"
  m_PacketsThisSecond :: u32
  m_LastPacketSecond :: int
  m_LastActivityTime :: int
  m_WriteQueue :: "i8 list list"
  m_Writing :: bool
  m_PendingDisconnect :: bool
  m_Player :: "ref option"

section \<open>The server process\<close>

definition MAX_PLAYERS :: nat where
  "MAX_PLAYERS = 2048"

record System =
  players :: "Player option list"
  clients :: "Client option list"
  m_Players :: "(string \<times> ref) list"
  m_OccupiedIndices :: "bool list"
  m_Sessions :: "ref list"
  m_Running :: bool
  playerList :: "ref list"

section \<open>Heaps\<close>

definition heap_at :: "'a option list \<Rightarrow> ref \<Rightarrow> 'a option" where
  "heap_at h r = (if r < length h then h ! r else None)"

definition deref :: "'a option list \<Rightarrow> ref \<Rightarrow> fault + 'a" where
  "deref h r = (case heap_at h r of Some x \<Rightarrow> Inr x | None \<Rightarrow> Inl NullPointer)"

definition put_player :: "ref \<Rightarrow> Player \<Rightarrow> System \<Rightarrow> System" where
  "put_player p x s = s\<lparr>players := (players s)[p := Some x]\<rparr>"

definition put_client :: "ref \<Rightarrow> Client \<Rightarrow> System \<Rightarrow> System" where
  "put_client c x s = s\<lparr>clients := (clients s)[c := Some x]\<rparr>"

text \<open>Running a member function on an object behind a pointer.\<close>

definition on_player :: "ref \<Rightarrow> (Player \<Rightarrow> fault + Player) \<Rightarrow> System \<Rightarrow> fault + System" where
  "on_player p f s =
     bindR (deref (players s) p) (\<lambda>x. bindR (f x) (\<lambda>x. Inr (put_player p x s)))"

definition on_client :: "ref \<Rightarrow> (Client \<Rightarrow> fault + Client) \<Rightarrow> System \<Rightarrow> fault + System" where
  "on_client c f s =
     bindR (deref (clients s) c) (\<lambda>x. bindR (f x) (\<lambda>x. Inr (put_client c x s)))"

lemma heap_at_update:
  "heap_at (h[r := v]) q = (if q = r \<and> r < length h then v else heap_at h q)"
  by (auto simp: heap_at_def nth_list_update)

lemma heap_at_append:
  "heap_at (h @ [v]) q = (if q = length h then v else heap_at h q)"
  by (auto simp: heap_at_def nth_append)

lemma heap_at_length: "heap_at h r = Some x \<Longrightarrow> r < length h"
  by (auto simp: heap_at_def split: if_splits)

lemma heap_at_live: "heap_at h r = Some x \<Longrightarrow> heap_at (h[r := v]) q = (if q = r then v else heap_at h q)"
  by (auto simp: heap_at_update dest: heap_at_length)

lemma heap_at_mem: "Some x \<in> set h \<longleftrightarrow> (\<exists>r. heap_at h r = Some x)"
  by (auto simp: heap_at_def in_set_conv_nth split: if_splits)

lemma heap_at_fresh [simp]: "heap_at h (length h) = None"
  by (simp add: heap_at_def)

lemma deref_eq [fault_simps, simp]:
  "deref h r = Inr x \<longleftrightarrow> heap_at h r = Some x"
  "deref h r = Inl e \<longleftrightarrow> heap_at h r = None \<and> e = NullPointer"
  by (auto simp: deref_def split: option.splits)

lemma put_fields [simp]:
  "players (put_client c x s) = players s" "clients (put_player p y s) = clients s"
  "m_Players (put_client c x s) = m_Players s" "m_Players (put_player p y s) = m_Players s"
  "m_OccupiedIndices (put_client c x s) = m_OccupiedIndices s"
  "m_OccupiedIndices (put_player p y s) = m_OccupiedIndices s"
  "m_Sessions (put_client c x s) = m_Sessions s" "m_Sessions (put_player p y s) = m_Sessions s"
  "m_Running (put_client c x s) = m_Running s" "m_Running (put_player p y s) = m_Running s"
  "playerList (put_client c x s) = playerList s" "playerList (put_player p y s) = playerList s"
  "length (clients (put_client c x s)) = length (clients s)"
  "length (players (put_player p y s)) = length (players s)"
  by (simp_all add: put_client_def put_player_def)

lemma at_put_client:
  "heap_at (clients s) c = Some z \<Longrightarrow>
   heap_at (clients (put_client c x s)) q = (if q = c then Some x else heap_at (clients s) q)"
  by (auto simp: put_client_def heap_at_update dest: heap_at_length)

lemma at_put_player:
  "heap_at (players s) p = Some z \<Longrightarrow>
   heap_at (players (put_player p x s)) q = (if q = p then Some x else heap_at (players s) q)"
  by (auto simp: put_player_def heap_at_update dest: heap_at_length)

lemma on_client_Inr:
  "on_client c f s = Inr t \<longleftrightarrow>
   (\<exists>x y. heap_at (clients s) c = Some x \<and> f x = Inr y \<and> t = put_client c y s)"
  by (auto simp: on_client_def fault_simps)

lemma on_player_Inr:
  "on_player p f s = Inr t \<longleftrightarrow>
   (\<exists>x y. heap_at (players s) p = Some x \<and> f x = Inr y \<and> t = put_player p y s)"
  by (auto simp: on_player_def fault_simps)

section \<open>Ownership of players\<close>

text \<open>Held by the world or by the game thread, and held by anything.\<close>

definition rooted :: "ref \<Rightarrow> System \<Rightarrow> bool" where
  "rooted p s \<longleftrightarrow> p \<in> snd ` set (m_Players s) \<or> p \<in> set (playerList s)"

lemma rooted_put [simp]:
  "rooted p (put_client c x s) = rooted p s" "rooted p (put_player q y s) = rooted p s"
  "rooted p (s\<lparr>players := ps\<rparr>) = rooted p s" "rooted p (s\<lparr>clients := cs\<rparr>) = rooted p s"
  "rooted p (s\<lparr>m_OccupiedIndices := bs\<rparr>) = rooted p s" "rooted p (s\<lparr>m_Sessions := ss\<rparr>) = rooted p s"
  "rooted p (s\<lparr>m_Running := b\<rparr>) = rooted p s"
  by (simp_all add: rooted_def)

definition owned :: "ref \<Rightarrow> System \<Rightarrow> bool" where
  "owned p s \<longleftrightarrow>
     rooted p s \<or>
     list_ex (\<lambda>q. case q of Some x \<Rightarrow> p \<in> set (m_LocalPlayers x) | None \<Rightarrow> False) (players s)"

definition live_players :: "System \<Rightarrow> nat" where
  "live_players s = length (filter (\<lambda>q. q \<noteq> None) (players s))"

lemma live_players_free:
  assumes "heap_at (players s) p = Some x"
  shows "live_players (s\<lparr>players := (players s)[p := None]\<rparr>) < live_players s"
proof -
  have p: "p < length (players s)" "players s ! p = Some x"
    using assms by (auto simp: heap_at_def split: if_splits)
  define as where "as = take p (players s)"
  define bs where "bs = drop (Suc p) (players s)"
  have "players s = as @ Some x # bs" "(players s)[p := None] = as @ None # bs"
    using p id_take_nth_drop [OF p(1)] by (simp_all add: as_def bs_def upd_conv_take_nth_drop)
  then show ?thesis by (simp add: live_players_def)
qed

function release_players :: "ref list \<Rightarrow> System \<Rightarrow> System" where
  "release_players [] s = s"
| "release_players (p # ps) s =
     (case heap_at (players s) p of
        None \<Rightarrow> release_players ps s
      | Some x \<Rightarrow>
          if owned p s then release_players ps s
          else release_players (m_LocalPlayers x @ ps) (s\<lparr>players := (players s)[p := None]\<rparr>))"
  by pat_completeness auto
termination
  by (relation "measures [\<lambda>(ps, s). live_players s, \<lambda>(ps, s). length ps]")
    (auto simp: live_players_free)

text \<open>
  Every pointer held by the world or by a live player points to a live player; dropping pointers
  keeps that, and only destroys players that nothing owns.
\<close>

definition alive :: "ref \<Rightarrow> System \<Rightarrow> bool" where
  "alive p s \<longleftrightarrow> heap_at (players s) p \<noteq> None"

definition refs_ok :: "System \<Rightarrow> bool" where
  "refs_ok s \<longleftrightarrow>
     (\<forall>p. rooted p s \<longrightarrow> alive p s) \<and>
     (\<forall>q x. heap_at (players s) q = Some x \<longrightarrow> (\<forall>p\<in>set (m_LocalPlayers x). alive p s))"

lemma owned_iff:
  "owned p s \<longleftrightarrow>
   rooted p s \<or> (\<exists>q x. heap_at (players s) q = Some x \<and> p \<in> set (m_LocalPlayers x))"
proof -
  have "list_ex (\<lambda>q. case q of Some x \<Rightarrow> p \<in> set (m_LocalPlayers x) | None \<Rightarrow> False) (players s) \<longleftrightarrow>
      (\<exists>x. Some x \<in> set (players s) \<and> p \<in> set (m_LocalPlayers x))"
    by (auto simp: list_ex_iff split: option.splits)
  then show ?thesis by (auto simp: owned_def heap_at_mem)
qed

lemma refs_ok_free:
  assumes "refs_ok s" "heap_at (players s) p = Some x" "\<not> owned p s"
  shows "refs_ok (s\<lparr>players := (players s)[p := None]\<rparr>)"
  using assms unfolding refs_ok_def owned_iff alive_def rooted_def
  by (auto simp: heap_at_live [OF assms(2)] split: if_splits)

lemma release_players_frame:
  "clients (release_players ps s) = clients s \<and> m_Players (release_players ps s) = m_Players s \<and>
   m_OccupiedIndices (release_players ps s) = m_OccupiedIndices s \<and>
   m_Sessions (release_players ps s) = m_Sessions s \<and> m_Running (release_players ps s) = m_Running s \<and>
   playerList (release_players ps s) = playerList s \<and>
   length (players (release_players ps s)) = length (players s)"
  by (induction ps s rule: release_players.induct) (simp_all split: option.splits)

lemma release_players_at:
  "heap_at (players (release_players ps s)) q = Some x \<Longrightarrow> heap_at (players s) q = Some x"
proof (induction ps s rule: release_players.induct)
  case (2 p ps s)
  then show ?case
    by (auto simp: heap_at_update split: option.splits if_splits)
qed simp

lemma release_players_keeps:
  "rooted q s \<Longrightarrow> heap_at (players (release_players ps s)) q = heap_at (players s) q"
proof (induction ps s rule: release_players.induct)
  case (2 p ps s)
  then show ?case
    by (auto simp: heap_at_update owned_iff rooted_def split: option.splits)
qed simp

lemma refs_ok_release [wf_intros]: "refs_ok s \<Longrightarrow> refs_ok (release_players ps s)"
  by (induction ps s rule: release_players.induct) (auto simp: refs_ok_free split: option.splits)

lemma release_players_dead:
  "p \<in> set ps \<Longrightarrow> \<not> owned p s \<Longrightarrow> heap_at (players (release_players ps s)) p = None"
proof (induction ps s rule: release_players.induct)
  case (2 q ps s)
  show ?case
  proof (cases "heap_at (players s) q")
    case None
    then show ?thesis
      using 2 release_players_at [of ps s q] by (cases "p = q") (auto intro: ccontr)
  next
    case (Some x)
    show ?thesis
    proof (cases "p = q \<and> \<not> owned q s")
      case True
      let ?s = "s\<lparr>players := (players s)[q := None]\<rparr>"
      have "heap_at (players ?s) q = None" using Some by (simp add: heap_at_live)
      with True Some release_players_at [of "m_LocalPlayers x @ ps" ?s q] show ?thesis
        by (cases "heap_at (players (release_players (m_LocalPlayers x @ ps) ?s)) q") auto
    next
      case False
      let ?s = "s\<lparr>players := (players s)[q := None]\<rparr>"
      have "\<not> owned p ?s"
        using 2(5) Some by (auto simp: owned_iff rooted_def heap_at_live [OF Some] split: if_splits)
      with False 2 Some show ?thesis by auto
    qed
  qed
qed simp

declare release_players.simps [simp del]

end
