(* ===== verification/Movement.thy ===== *)
theory Movement
  imports Game_State
begin

text \<open>
  \<open>src/src/MovementHandler.h\<close> and \<open>src/src/MovementHandler.cpp\<close>: the queue of waypoints of a player.
  A \<open>MovementHandler\<close> is a part of its player and holds a reference to it, so its member functions
  are functions on the player. \<open>Process_move\<close> is \<open>Process\<close> up to its test of the map region, which
  is in the theory \<open>Player\<close>.

  The lemmas show what \<open>AddToPath\<close> appends (the steps of the straight line to the target, cut at
  100 waypoints), that the queue is always a chain of adjacent tiles that starts at the player, and
  that processing the queue walks the player along it.
\<close>

section \<open>Definitions\<close>

text \<open>Getters are the fields of the records; the two directions are returned as \<open>uint32_t\<close>.\<close>

abbreviation (input) GetUsername :: "Player \<Rightarrow> string" where
  "GetUsername \<equiv> m_Username"

abbreviation (input) GetPosition :: "Player \<Rightarrow> Position" where
  "GetPosition \<equiv> m_Position"

abbreviation (input) GetColors :: "Player \<Rightarrow> u32 list" where
  "GetColors \<equiv> m_Colors"

abbreviation (input) GetEquipment :: "Player \<Rightarrow> u32 list" where
  "GetEquipment \<equiv> m_Equipment"

abbreviation (input) GetAppearance :: "Player \<Rightarrow> u32 list" where
  "GetAppearance \<equiv> m_Appearance"

abbreviation (input) GetPrimaryDirection :: "Player \<Rightarrow> u32" where
  "GetPrimaryDirection \<equiv> m_PrimaryDirection"

abbreviation (input) GetSecondaryDirection :: "Player \<Rightarrow> u32" where
  "GetSecondaryDirection \<equiv> m_SecondaryDirection"

abbreviation (input) GetNPCCosplayId :: "Player \<Rightarrow> u32" where
  "GetNPCCosplayId \<equiv> m_NPCCosplayId"

abbreviation (input) GetIndex :: "Player \<Rightarrow> i32" where
  "GetIndex \<equiv> m_Index"

abbreviation (input) GetCurrentRegion :: "Player \<Rightarrow> Position" where
  "GetCurrentRegion \<equiv> m_CurrentRegion"

abbreviation (input) GetMovementHandler :: "Player \<Rightarrow> MovementHandler" where
  "GetMovementHandler \<equiv> m_MovementHandler"

abbreviation (input) GetLocalPlayers :: "Player \<Rightarrow> ref list" where
  "GetLocalPlayers \<equiv> m_LocalPlayers"

abbreviation (input) GetUpdateFlags :: "Player \<Rightarrow> UpdateFlag" where
  "GetUpdateFlags \<equiv> m_UpdateFlags"

abbreviation (input) IsRunToggled :: "MovementHandler \<Rightarrow> bool" where
  "IsRunToggled \<equiv> m_RunToggled"

abbreviation (input) IsRunPath :: "MovementHandler \<Rightarrow> bool" where
  "IsRunPath \<equiv> m_RunPath"

abbreviation (input) GetDirection :: "Point \<Rightarrow> i32" where
  "GetDirection \<equiv> m_Direction"

abbreviation (input) SetDirection :: "i32 \<Rightarrow> Point \<Rightarrow> Point" where
  "SetDirection direction w \<equiv> w\<lparr>m_Direction := direction\<rparr>"

definition Point_new :: "u32 \<Rightarrow> u32 \<Rightarrow> i32 \<Rightarrow> Point" where
  "Point_new x y direction = \<lparr>pos_x = x, pos_y = y, pos_z = 0, m_Direction = direction\<rparr>"

definition MovementHandler_new :: MovementHandler where
  "MovementHandler_new = \<lparr>m_Waypoints = [], m_RunToggled = False, m_RunPath = False\<rparr>"

definition Player_new :: "string \<Rightarrow> ref \<Rightarrow> Player" where
  "Player_new username client =
     \<lparr>m_Equipment = replicate 14 0, m_Colors = [7, 8, 9, 5, 0],
      m_Appearance = [18, 26, 36, 0, 33, 42, 10],
      m_PrimaryDirection = -1, m_SecondaryDirection = -1, m_NPCCosplayId = -1,
      m_Username = username, m_Client = client,
      m_Position = Position_new 3200 3200, m_CurrentRegion = Position_new 0 0,
      m_UpdateFlags = Flag_None, m_MovementHandler = MovementHandler_new,
      m_Index = -1, m_LocalPlayers = []\<rparr>"

definition waypoints :: "Player \<Rightarrow> Point list" where
  "waypoints pl = m_Waypoints (m_MovementHandler pl)"

definition set_waypoints :: "Point list \<Rightarrow> Player \<Rightarrow> Player" where
  "set_waypoints ws pl = pl\<lparr>m_MovementHandler := (m_MovementHandler pl)\<lparr>m_Waypoints := ws\<rparr>\<rparr>"

definition SetRunPath :: "bool \<Rightarrow> Player \<Rightarrow> Player" where
  "SetRunPath runPath pl = pl\<lparr>m_MovementHandler := (m_MovementHandler pl)\<lparr>m_RunPath := runPath\<rparr>\<rparr>"

definition MovementHandler_Reset :: "Player \<Rightarrow> Player" where
  "MovementHandler_Reset pl =
     (let pl = set_waypoints [] (SetRunPath False pl); p = GetPosition pl
      in set_waypoints (waypoints pl @ [Point_new (GetX p) (GetY p) (-1)]) pl)"

definition MovementHandler_Finish :: "Player \<Rightarrow> Player" where
  "MovementHandler_Finish pl = (if waypoints pl \<noteq> [] then set_waypoints (tl (waypoints pl)) pl else pl)"

definition AddStep :: "u32 \<Rightarrow> u32 \<Rightarrow> Player \<Rightarrow> fault + Player" where
  "AddStep x y pl =
     (if length (waypoints pl) \<ge> 100 then Inr pl
      else if waypoints pl = [] then Inl OutOfBounds
      else
        let back = last (waypoints pl);
            deltaX = x - GetX back;
            deltaY = y - GetY back;
            direction = Direction deltaX deltaY
        in if sint direction > -1
           then Inr (set_waypoints (waypoints pl @ [Point_new x y direction]) pl)
           else Inr pl)"

text \<open>\<open>if (delta < 0) delta++; else if (delta > 0) delta--;\<close>\<close>

definition toward_zero :: "i32 \<Rightarrow> i32" where
  "toward_zero delta =
     (if sint delta < 0 then delta + 1 else if sint delta > 0 then delta - 1 else delta)"

text \<open>The loop of \<open>AddToPath\<close> with \<open>n\<close> iterations left.\<close>

primrec AddToPath_loop :: "nat \<Rightarrow> Position \<Rightarrow> i32 \<Rightarrow> i32 \<Rightarrow> Player \<Rightarrow> fault + Player" where
  "AddToPath_loop 0 position deltaX deltaY pl = Inr pl"
| "AddToPath_loop (Suc n) position deltaX deltaY pl =
     (let deltaX = toward_zero deltaX; deltaY = toward_zero deltaY
      in bindR (AddStep (GetX position - deltaX) (GetY position - deltaY) pl)
           (AddToPath_loop n position deltaX deltaY))"

text \<open>\<open>std::abs\<close> of the smallest \<open>int32_t\<close> overflows.\<close>

definition abs_i32 :: "i32 \<Rightarrow> fault + int" where
  "abs_i32 v = (if sint v = - (2 ^ 31) then Inl SignedOverflow else Inr \<bar>sint v\<bar>)"

definition AddToPath :: "Position \<Rightarrow> Player \<Rightarrow> fault + Player" where
  "AddToPath position pl =
     (let pl = (if waypoints pl = [] then MovementHandler_Reset pl else pl);
          back = last (waypoints pl);
          deltaX = GetX position - GetX back;
          deltaY = GetY position - GetY back
      in bindR (abs_i32 deltaX) (\<lambda>absX. bindR (abs_i32 deltaY) (\<lambda>absY.
           AddToPath_loop (nat (max absX absY)) position deltaX deltaY pl)))"

text \<open>Moving the player by the deltas of a direction, with the bounds of the two arrays.\<close>

definition move_direction :: "i32 \<Rightarrow> Player \<Rightarrow> fault + Player" where
  "move_direction d pl =
     (if unat d < length DIRECTION_DELTA_X
      then Inr (pl\<lparr>m_Position :=
             Move (DIRECTION_DELTA_X ! unat d) (DIRECTION_DELTA_Y ! unat d) (GetPosition pl)\<rparr>)
      else Inl OutOfBounds)"

definition SetPrimaryDirection :: "i32 \<Rightarrow> Player \<Rightarrow> Player" where
  "SetPrimaryDirection d pl = pl\<lparr>m_PrimaryDirection := d\<rparr>"

definition SetSecondaryDirection :: "i32 \<Rightarrow> Player \<Rightarrow> Player" where
  "SetSecondaryDirection d pl = pl\<lparr>m_SecondaryDirection := d\<rparr>"

text \<open>Taking the front of the queue, and moving to a waypoint that was taken and has a direction.\<close>

definition pop_waypoint :: "Player \<Rightarrow> Point option \<times> Player" where
  "pop_waypoint pl =
     (case waypoints pl of [] \<Rightarrow> (None, pl) | w # ws \<Rightarrow> (Some w, set_waypoints ws pl))"

definition move_to :: "(i32 \<Rightarrow> Player \<Rightarrow> Player) \<Rightarrow> Point option \<Rightarrow> Player \<Rightarrow> fault + Player" where
  "move_to set_direction point pl =
     (case point of
        Some w \<Rightarrow>
          if GetDirection w \<noteq> -1
          then bindR (move_direction (GetDirection w) pl) (\<lambda>pl. Inr (set_direction (GetDirection w) pl))
          else Inr pl
      | None \<Rightarrow> Inr pl)"

definition Process_move :: "Player \<Rightarrow> fault + Player" where
  "Process_move pl =
     (let (walkPoint, pl) = pop_waypoint pl;
          (runPoint, pl) =
            (if IsRunToggled (m_MovementHandler pl) \<or> IsRunPath (m_MovementHandler pl)
             then pop_waypoint pl else (None, pl))
      in bindR (move_to SetPrimaryDirection walkPoint pl) (move_to SetSecondaryDirection runPoint))"

section \<open>What AddToPath appends\<close>

lemma waypoints_set [simp]:
  "waypoints (set_waypoints ws pl) = ws" "m_Position (set_waypoints ws pl) = m_Position pl"
  "set_waypoints ws (set_waypoints vs pl) = set_waypoints ws pl"
  "set_waypoints (waypoints pl) pl = pl"
  "waypoints (SetRunPath r pl) = waypoints pl" "m_Position (SetRunPath r pl) = m_Position pl"
  by (simp_all add: waypoints_def set_waypoints_def SetRunPath_def)

text \<open>How far a coordinate has moved towards its target at distance \<open>d\<close> after \<open>k\<close> steps.\<close>

definition progress :: "int \<Rightarrow> nat \<Rightarrow> int" where
  "progress d k = sgn d * min (int k) \<bar>d\<bar>"

definition straight_point :: "u32 \<Rightarrow> u32 \<Rightarrow> int \<Rightarrow> int \<Rightarrow> nat \<Rightarrow> Point" where
  "straight_point x y dx dy k =
     Point_new (x + word_of_int (progress dx k)) (y + word_of_int (progress dy k))
       (Direction (if int k \<le> \<bar>dx\<bar> then word_of_int (sgn dx) else 0)
                  (if int k \<le> \<bar>dy\<bar> then word_of_int (sgn dy) else 0))"

text \<open>The tiles after \<open>(x, y)\<close> on the way to \<open>(x + dx, y + dy)\<close>: diagonally, then straight on.\<close>

definition straight :: "u32 \<Rightarrow> u32 \<Rightarrow> int \<Rightarrow> int \<Rightarrow> Point list" where
  "straight x y dx dy = map (straight_point x y dx dy) [1..<Suc (nat (max \<bar>dx\<bar> \<bar>dy\<bar>))]"

lemma progress_0 [simp]: "progress d 0 = 0"
  by (simp add: progress_def)

lemma progress_step:
  "progress d (Suc k) = progress d k + (if int (Suc k) \<le> \<bar>d\<bar> then sgn d else 0)"
  by (auto simp: progress_def sgn_if min_def)

lemma toward_zero_progress:
  assumes "\<bar>d\<bar> < 2 ^ 31"
  shows "toward_zero (word_of_int (d - progress d k)) = word_of_int (d - progress d (Suc k))"
proof -
  let ?r = "d - progress d k"
  have "\<bar>?r\<bar> < 2 ^ 31"
    using assms by (auto simp: progress_def sgn_if min_def)
  then have "sint (word_of_int ?r :: i32) = ?r"
    by (subst signed_of_int) (auto intro!: signed_take_bit_int_eq_self)
  moreover have "d - progress d (Suc k) =
      (if ?r < 0 then ?r + 1 else if ?r > 0 then ?r - 1 else ?r)"
    by (auto simp: progress_def sgn_if min_def)
  ultimately show ?thesis by (simp add: toward_zero_def)
qed

lemma AddStep_straight:
  assumes "waypoints pl \<noteq> []" "Suc k \<le> nat (max \<bar>dx\<bar> \<bar>dy\<bar>)"
    and "pos_x (last (waypoints pl)) = x + word_of_int (progress dx k)"
    and "pos_y (last (waypoints pl)) = y + word_of_int (progress dy k)"
    and "length (waypoints pl) < 100"
  shows "AddStep (x + word_of_int (progress dx (Suc k))) (y + word_of_int (progress dy (Suc k))) pl =
    Inr (set_waypoints (waypoints pl @ [straight_point x y dx dy (Suc k)]) pl)"
proof -
  let ?ex = "if int (Suc k) \<le> \<bar>dx\<bar> then word_of_int (sgn dx) else (0 :: i32)"
  let ?ey = "if int (Suc k) \<le> \<bar>dy\<bar> then word_of_int (sgn dy) else (0 :: i32)"
  have "x + word_of_int (progress dx (Suc k)) - pos_x (last (waypoints pl)) = ?ex"
    "y + word_of_int (progress dy (Suc k)) - pos_y (last (waypoints pl)) = ?ey"
    using assms(3,4) by (simp_all add: progress_step del: of_nat_Suc)
  moreover have "sint (Direction ?ex ?ey) > -1"
    using assms(2) by (auto simp: Direction_def sgn_if max_def split: if_splits)
  ultimately show ?thesis
    using assms(1,5) by (simp add: AddStep_def Let_def straight_point_def del: of_nat_Suc)
qed

lemma AddToPath_loop_straight:
  assumes "\<bar>dx\<bar> < 2 ^ 31" "\<bar>dy\<bar> < 2 ^ 31" "waypoints pl \<noteq> []" "k + n = nat (max \<bar>dx\<bar> \<bar>dy\<bar>)"
    and "pos_x position = x + word_of_int dx" "pos_y position = y + word_of_int dy"
    and "length (waypoints pl) < 100 \<Longrightarrow>
      pos_x (last (waypoints pl)) = x + word_of_int (progress dx k) \<and>
      pos_y (last (waypoints pl)) = y + word_of_int (progress dy k)"
  shows "AddToPath_loop n position (word_of_int (dx - progress dx k)) (word_of_int (dy - progress dy k)) pl =
    Inr (set_waypoints (waypoints pl @ take (100 - length (waypoints pl))
      (map (straight_point x y dx dy) [Suc k..<Suc (k + n)])) pl)"
  using assms(3,4,7)
proof (induction n arbitrary: k pl)
  case 0
  then show ?case by simp
next
  case (Suc n)
  let ?pt = "straight_point x y dx dy (Suc k)"
  have pos: "pos_x position - word_of_int (dx - progress dx (Suc k)) = x + word_of_int (progress dx (Suc k))"
    "pos_y position - word_of_int (dy - progress dy (Suc k)) = y + word_of_int (progress dy (Suc k))"
    using assms(5,6) by simp_all
  note step = toward_zero_progress [OF assms(1)] toward_zero_progress [OF assms(2)] pos
  show ?case
  proof (cases "length (waypoints pl) < 100")
    case True
    then have last: "pos_x (last (waypoints pl)) = x + word_of_int (progress dx k)"
      "pos_y (last (waypoints pl)) = y + word_of_int (progress dy k)"
      using Suc.prems(3) by simp_all
    let ?pl = "set_waypoints (waypoints pl @ [?pt]) pl"
    have add: "AddStep (x + word_of_int (progress dx (Suc k))) (y + word_of_int (progress dy (Suc k))) pl =
        Inr ?pl"
      by (rule AddStep_straight [OF Suc.prems(1) _ last True]) (use Suc.prems(2) in simp)
    have "Suc k + n = nat (max \<bar>dx\<bar> \<bar>dy\<bar>)" using Suc.prems(2) by simp
    note IH = Suc.IH [OF _ this, of ?pl]
    have cut: "take (100 - length (waypoints pl)) (map f [Suc k..<Suc (k + Suc n)]) =
        f (Suc k) # take (100 - Suc (length (waypoints pl))) (map f [Suc (Suc k)..<Suc (Suc k + n)])"
      for f :: "nat \<Rightarrow> Point"
      using True by (simp add: upt_conv_Cons Suc_diff_Suc [symmetric] del: upt_Suc)
    show ?thesis
      unfolding AddToPath_loop.simps Let_def step add bindR.simps cut
      by (subst IH) (simp_all add: straight_point_def Point_new_def)
  next
    case False
    then have full: "AddStep a b pl = Inr pl" for a b by (simp add: AddStep_def)
    have "Suc k + n = nat (max \<bar>dx\<bar> \<bar>dy\<bar>)" using Suc.prems(2) by simp
    note IH = Suc.IH [OF Suc.prems(1) this]
    show ?thesis
      unfolding AddToPath_loop.simps Let_def step full bindR.simps
      by (subst IH) (use False in simp_all)
  qed
qed

text \<open>\<open>started pl\<close> is the player with the waypoint that \<open>Reset\<close> puts into an empty queue.\<close>

definition started :: "Player \<Rightarrow> Player" where
  "started pl = (if waypoints pl = [] then MovementHandler_Reset pl else pl)"

lemma started_nonempty [simp]: "waypoints (started pl) \<noteq> []"
  by (simp add: started_def MovementHandler_Reset_def Let_def)

lemma sint_abs_less: "sint (d :: i32) \<noteq> - (2 ^ 31) \<Longrightarrow> \<bar>sint d\<bar> < 2 ^ 31"
  using sint_ge [of d] sint_less [of d] by simp

lemma AddToPath_eq:
  fixes pl position
  defines "ws \<equiv> waypoints (started pl)"
  defines "dx \<equiv> pos_x position - pos_x (last ws)" and "dy \<equiv> pos_y position - pos_y (last ws)"
  assumes "sint dx \<noteq> - (2 ^ 31)" "sint dy \<noteq> - (2 ^ 31)"
  shows "AddToPath position pl = Inr (set_waypoints (ws @ take (100 - length ws)
    (straight (pos_x (last ws)) (pos_y (last ws)) (sint dx) (sint dy))) (started pl))"
proof -
  have "AddToPath position pl = AddToPath_loop (nat (max \<bar>sint dx\<bar> \<bar>sint dy\<bar>)) position dx dy (started pl)"
    using assms(4,5) by (simp add: AddToPath_def abs_i32_def Let_def started_def [symmetric] dx_def dy_def ws_def)
  also have "\<dots> = Inr (set_waypoints (ws @ take (100 - length ws)
    (straight (pos_x (last ws)) (pos_y (last ws)) (sint dx) (sint dy))) (started pl))"
  proof -
    have "pos_x position = pos_x (last ws) + word_of_int (sint dx)"
      "pos_y position = pos_y (last ws) + word_of_int (sint dy)"
      by (simp_all add: dx_def dy_def)
    from AddToPath_loop_straight [OF sint_abs_less [OF assms(4)] sint_abs_less [OF assms(5)]
        started_nonempty [of pl] _ this, of 0 "nat (max \<bar>sint dx\<bar> \<bar>sint dy\<bar>)"]
    show ?thesis by (simp add: straight_def ws_def [symmetric] del: upt_Suc)
  qed
  finally show ?thesis .
qed

lemma AddToPath_overflow:
  fixes pl position
  defines "ws \<equiv> waypoints (started pl)"
  assumes "sint (pos_x position - pos_x (last ws)) = - (2 ^ 31) \<or>
    sint (pos_y position - pos_y (last ws)) = - (2 ^ 31)"
  shows "AddToPath position pl = Inl SignedOverflow"
  using assms(2) unfolding ws_def
  by (auto simp: AddToPath_def Let_def abs_i32_def started_def [symmetric])

section \<open>The queue is a chain of adjacent tiles\<close>

definition adjacent :: "u32 \<Rightarrow> u32 \<Rightarrow> Point \<Rightarrow> bool" where
  "adjacent x y w \<longleftrightarrow>
     (if m_Direction w = -1 then pos_x w = x \<and> pos_y w = y
      else unat (m_Direction w) < 8 \<and>
        pos_x w = x + DIRECTION_DELTA_X ! unat (m_Direction w) \<and>
        pos_y w = y + DIRECTION_DELTA_Y ! unat (m_Direction w))"

primrec chain :: "u32 \<Rightarrow> u32 \<Rightarrow> Point list \<Rightarrow> bool" where
  "chain x y [] = True"
| "chain x y (w # ws) = (adjacent x y w \<and> chain (pos_x w) (pos_y w) ws)"

definition movement_wf :: "Player \<Rightarrow> bool" where
  "movement_wf pl \<longleftrightarrow>
     chain (pos_x (m_Position pl)) (pos_y (m_Position pl)) (waypoints pl) \<and> length (waypoints pl) \<le> 100"

lemma chain_append:
  "ws \<noteq> [] \<Longrightarrow>
   chain x y (ws @ vs) \<longleftrightarrow> chain x y ws \<and> chain (pos_x (last ws)) (pos_y (last ws)) vs"
  by (induction ws arbitrary: x y) auto

lemma list_all_take: "list_all P xs \<Longrightarrow> list_all P (take n xs)"
  by (auto simp: list_all_iff dest: in_set_takeD)

lemma chain_take: "chain x y ws \<Longrightarrow> chain x y (take n ws)"
  by (induction ws arbitrary: x y n) (auto simp: take_Cons split: nat.splits)

lemma adjacent_straight:
  assumes "Suc k \<le> nat (max \<bar>dx\<bar> \<bar>dy\<bar>)"
  shows "adjacent (x + word_of_int (progress dx k)) (y + word_of_int (progress dy k))
    (straight_point x y dx dy (Suc k))"
proof -
  let ?ex = "if int (Suc k) \<le> \<bar>dx\<bar> then word_of_int (sgn dx) else (0 :: i32)"
  let ?ey = "if int (Suc k) \<le> \<bar>dy\<bar> then word_of_int (sgn dy) else (0 :: i32)"
  have "?ex \<noteq> 0 \<or> ?ey \<noteq> 0"
    using assms by (auto simp: sgn_if max_def split: if_splits)
  moreover have "word_of_int (sgn (sint ?ex)) = ?ex" "word_of_int (sgn (sint ?ey)) = ?ey"
    by (auto simp: sgn_if)
  ultimately have "unat (Direction ?ex ?ey) < 8 \<and> Direction ?ex ?ey \<noteq> -1 \<and>
      DIRECTION_DELTA_X ! unat (Direction ?ex ?ey) = ?ex \<and> DIRECTION_DELTA_Y ! unat (Direction ?ex ?ey) = ?ey"
    using Direction_range [of ?ex ?ey] by metis
  then show ?thesis
    by (simp add: adjacent_def straight_point_def Point_new_def progress_step del: of_nat_Suc)
qed

lemma chain_straight_from:
  assumes "k + n \<le> nat (max \<bar>dx\<bar> \<bar>dy\<bar>)"
  shows "chain (x + word_of_int (progress dx k)) (y + word_of_int (progress dy k))
    (map (straight_point x y dx dy) [Suc k..<Suc (k + n)])"
  using assms
proof (induction n arbitrary: k)
  case 0
  then show ?case by simp
next
  case (Suc n)
  then have up: "[Suc k..<Suc (k + Suc n)] = Suc k # [Suc (Suc k)..<Suc (Suc k + n)]"
    by (simp add: upt_conv_Cons del: upt_Suc)
  have "chain (x + word_of_int (progress dx (Suc k))) (y + word_of_int (progress dy (Suc k)))
      (map (straight_point x y dx dy) [Suc (Suc k)..<Suc (Suc k + n)])"
    using Suc.IH [of "Suc k"] Suc.prems by simp
  moreover have "adjacent (x + word_of_int (progress dx k)) (y + word_of_int (progress dy k))
      (straight_point x y dx dy (Suc k))"
    using Suc.prems by (intro adjacent_straight) simp
  moreover have "pos_x (straight_point x y dx dy (Suc k)) = x + word_of_int (progress dx (Suc k))"
    "pos_y (straight_point x y dx dy (Suc k)) = y + word_of_int (progress dy (Suc k))"
    by (simp_all add: straight_point_def Point_new_def)
  ultimately show ?case unfolding up list.map chain.simps by metis
qed

lemma chain_straight: "chain x y (straight x y dx dy)"
  using chain_straight_from [of 0 "nat (max \<bar>dx\<bar> \<bar>dy\<bar>)" dx dy x y] by (simp add: straight_def)

lemma length_straight [simp]: "length (straight x y dx dy) = nat (max \<bar>dx\<bar> \<bar>dy\<bar>)"
  by (simp add: straight_def)

lemma last_straight:
  assumes "straight x y dx dy \<noteq> []"
  shows "pos_x (last (straight x y dx dy)) = x + word_of_int dx"
    and "pos_y (last (straight x y dx dy)) = y + word_of_int dy"
proof -
  let ?n = "nat (max \<bar>dx\<bar> \<bar>dy\<bar>)"
  have "1 \<le> ?n" using assms by (cases ?n) (simp_all add: straight_def)
  then have "last (straight x y dx dy) = straight_point x y dx dy ?n"
    unfolding straight_def by (cases ?n) (simp_all add: last_map)
  moreover have "progress dx ?n = dx" "progress dy ?n = dy"
    by (auto simp: progress_def sgn_if)
  ultimately show "pos_x (last (straight x y dx dy)) = x + word_of_int dx"
    "pos_y (last (straight x y dx dy)) = y + word_of_int dy"
    by (simp_all add: straight_point_def Point_new_def)
qed

section \<open>Operations keep the chain\<close>

lemma movement_wf_Reset [wf_intros]: "movement_wf (MovementHandler_Reset pl)"
  by (simp add: movement_wf_def MovementHandler_Reset_def Let_def adjacent_def Point_new_def)

lemma movement_wf_SetRunPath [wf_intros]: "movement_wf pl \<Longrightarrow> movement_wf (SetRunPath r pl)"
  by (simp add: movement_wf_def)

lemma movement_wf_Finish [wf_intros]:
  "movement_wf pl \<Longrightarrow> waypoints pl = [] \<or> m_Direction (hd (waypoints pl)) = -1 \<Longrightarrow>
   movement_wf (MovementHandler_Finish pl)"
  by (cases "waypoints pl") (auto simp: movement_wf_def MovementHandler_Finish_def adjacent_def)

lemma movement_wf_started [wf_intros]: "movement_wf pl \<Longrightarrow> movement_wf (started pl)"
  by (simp add: started_def movement_wf_Reset)

lemma position_started [simp]: "m_Position (started pl) = m_Position pl"
  by (simp add: started_def MovementHandler_Reset_def Let_def)

lemma adjacent_step:
  assumes "k < nat (max \<bar>dx\<bar> \<bar>dy\<bar>)"
  shows "m_Direction (straight_point x y dx dy (Suc k)) \<noteq> -1"
proof -
  let ?ex = "if int (Suc k) \<le> \<bar>dx\<bar> then word_of_int (sgn dx) else (0 :: i32)"
  let ?ey = "if int (Suc k) \<le> \<bar>dy\<bar> then word_of_int (sgn dy) else (0 :: i32)"
  have "?ex \<noteq> 0 \<or> ?ey \<noteq> 0"
    using assms by (auto simp: sgn_if max_def split: if_splits)
  then show ?thesis
    using Direction_range [of ?ex ?ey] by (auto simp: straight_point_def Point_new_def)
qed

lemma straight_directions: "list_all (\<lambda>w. m_Direction w \<noteq> -1) (straight x y dx dy)"
proof -
  have "m_Direction (straight_point x y dx dy k) \<noteq> -1" if "1 \<le> k" "k < Suc (nat (max \<bar>dx\<bar> \<bar>dy\<bar>))" for k
    using adjacent_step [of "k - 1" dx dy x y] that by (cases k) simp_all
  then show ?thesis by (simp add: straight_def list_all_iff del: upt_Suc)
qed

lemma AddToPath_cases:
  obtains (overflow) "AddToPath position pl = Inl SignedOverflow"
  | (path) vs where "AddToPath position pl = Inr (set_waypoints (waypoints (started pl) @ vs) (started pl))"
      "chain (pos_x (last (waypoints (started pl)))) (pos_y (last (waypoints (started pl)))) vs"
      "length vs \<le> 100 - length (waypoints (started pl))" "list_all (\<lambda>w. m_Direction w \<noteq> -1) vs"
proof -
  let ?ws = "waypoints (started pl)"
  let ?dx = "pos_x position - pos_x (last ?ws)" and ?dy = "pos_y position - pos_y (last ?ws)"
  show ?thesis
  proof (cases "sint ?dx = - (2 ^ 31) \<or> sint ?dy = - (2 ^ 31)")
    case True
    then show ?thesis by (intro overflow AddToPath_overflow)
  next
    case False
    then have "AddToPath position pl = Inr (set_waypoints (?ws @ take (100 - length ?ws)
        (straight (pos_x (last ?ws)) (pos_y (last ?ws)) (sint ?dx) (sint ?dy))) (started pl))"
      by (intro AddToPath_eq) simp_all
    then show ?thesis
      by (rule path) (auto intro: chain_take chain_straight straight_directions list_all_take)
  qed
qed

lemma movement_wf_AddToPath [wf_intros]:
  assumes "AddToPath position pl = Inr pl'" "movement_wf pl"
  shows "movement_wf pl'"
proof (cases rule: AddToPath_cases [of position pl])
  case (path vs)
  with assms movement_wf_started [OF assms(2)] show ?thesis
    by (auto simp: movement_wf_def chain_append)
qed (use assms in simp)

lemma AddToPath_frame:
  assumes "AddToPath position pl = Inr pl'"
  shows "waypoints pl' \<noteq> [] \<and> hd (waypoints pl') = hd (waypoints (started pl)) \<and>
    (\<exists>ws. pl' = set_waypoints ws (started pl))"
  by (cases rule: AddToPath_cases [of position pl]) (use assms in auto)

section \<open>Processing the queue walks along it\<close>

definition running :: "Player \<Rightarrow> bool" where
  "running pl \<longleftrightarrow> m_RunToggled (m_MovementHandler pl) \<or> m_RunPath (m_MovementHandler pl)"

text \<open>The tile of the last of some waypoints, or the given tile if there are none.\<close>

definition tile_after :: "Position \<Rightarrow> Point list \<Rightarrow> u32 \<times> u32" where
  "tile_after p ws = (if ws = [] then (pos_x p, pos_y p) else (pos_x (last ws), pos_y (last ws)))"

lemma move_adjacent:
  assumes "adjacent (pos_x (m_Position pl)) (pos_y (m_Position pl)) w" "m_Direction w \<noteq> -1"
  shows "move_to g (Some w) pl =
    Inr (g (m_Direction w) (pl\<lparr>m_Position := (m_Position pl)\<lparr>pos_x := pos_x w, pos_y := pos_y w\<rparr>\<rparr>))"
  using assms by (simp add: move_to_def move_direction_def adjacent_def Move_def DIRECTION_DELTA_X_def)

lemma move_none: "move_to g None pl = Inr pl"
  by (simp add: move_to_def)

lemma pop_def: "pop_waypoint pl =
    (if waypoints pl = [] then (None, pl) else (Some (hd (waypoints pl)), set_waypoints (tl (waypoints pl)) pl))"
  by (simp add: pop_waypoint_def split: list.splits)

lemma handler_set:
  "m_RunToggled (m_MovementHandler (set_waypoints ws pl)) = m_RunToggled (m_MovementHandler pl)"
  "m_RunPath (m_MovementHandler (set_waypoints ws pl)) = m_RunPath (m_MovementHandler pl)"
  by (simp_all add: set_waypoints_def)

lemmas move_fields = handler_set SetPrimaryDirection_def SetSecondaryDirection_def

text \<open>The waypoints of a finished path all have a direction.\<close>

definition settled :: "Player \<Rightarrow> bool" where
  "settled pl \<longleftrightarrow> movement_wf pl \<and> list_all (\<lambda>w. m_Direction w \<noteq> -1) (waypoints pl)"

text \<open>The direction to report for the waypoint at a position of the queue.\<close>

definition reported :: "Point list \<Rightarrow> nat \<Rightarrow> i32 \<Rightarrow> i32" where
  "reported ws k d = (if k < length ws then m_Direction (ws ! k) else d)"

lemma Process_move_eq:
  assumes "settled pl"
  defines "n \<equiv> if running pl then 2 else 1" and "ws \<equiv> waypoints pl"
  defines "tile \<equiv> tile_after (m_Position pl) (take n ws)"
  shows "Process_move pl = Inr ((set_waypoints (drop n ws) pl)
    \<lparr>m_Position := (m_Position pl)\<lparr>pos_x := fst tile, pos_y := snd tile\<rparr>,
     m_PrimaryDirection := reported ws 0 (m_PrimaryDirection pl),
     m_SecondaryDirection := (if running pl then reported ws 1 (m_SecondaryDirection pl)
                              else m_SecondaryDirection pl)\<rparr>)"
proof -
  have wf: "chain (pos_x (m_Position pl)) (pos_y (m_Position pl)) ws"
    "list_all (\<lambda>w. m_Direction w \<noteq> -1) ws"
    using assms(1) by (simp_all add: settled_def movement_wf_def ws_def)
  have run: "m_RunToggled (m_MovementHandler pl) \<or> m_RunPath (m_MovementHandler pl) \<longleftrightarrow> running pl"
    by (simp add: running_def)
  consider "ws = []" | w where "ws = [w]" | w v vs where "ws = w # v # vs"
    by (cases ws rule: remdups_adj.cases) auto
  then show ?thesis
  proof cases
    case 1
    moreover from this have "set_waypoints [] pl = pl"
      by (metis waypoints_set(4) ws_def)
    ultimately show ?thesis
      by (simp add: Process_move_def pop_def move_to_def ws_def tile_def tile_after_def reported_def)
  next
    case (2 w)
    then have w: "waypoints pl = [w]" by (simp add: ws_def)
    have "adjacent (pos_x (m_Position pl)) (pos_y (m_Position pl)) w" "m_Direction w \<noteq> -1"
      using wf 2 by simp_all
    then show ?thesis
      using 2 by (simp add: Process_move_def pop_def w run move_adjacent move_none tile_def tile_after_def
        n_def reported_def move_fields) (cases pl, simp add: set_waypoints_def)
  next
    case (3 w v vs)
    then have w: "waypoints pl = w # v # vs" by (simp add: ws_def)
    have "adjacent (pos_x (m_Position pl)) (pos_y (m_Position pl)) w" "m_Direction w \<noteq> -1"
      "adjacent (pos_x w) (pos_y w) v" "m_Direction v \<noteq> -1"
      using wf 3 by simp_all
    then show ?thesis
      using 3 by (simp add: Process_move_def pop_def w run move_adjacent move_none tile_def tile_after_def
        n_def reported_def move_fields) (cases pl, simp add: set_waypoints_def)
  qed
qed

lemma chain_drop:
  assumes "chain (pos_x p) (pos_y p) ws"
  shows "chain (fst (tile_after p (take n ws))) (snd (tile_after p (take n ws))) (drop n ws)"
proof (cases "take n ws = []")
  case True
  with assms show ?thesis by (cases "n = 0") (auto simp: tile_after_def)
next
  case False
  with assms chain_append [OF False, of "pos_x p" "pos_y p" "drop n ws"] show ?thesis
    by (simp add: tile_after_def)
qed

lemma settled_Process_move [wf_intros]:
  assumes "settled pl" "Process_move pl = Inr pl'"
  shows "settled pl'"
proof -
  let ?n = "if running pl then 2 else 1"
  let ?tile = "tile_after (m_Position pl) (take ?n (waypoints pl))"
  have "waypoints pl' = drop ?n (waypoints pl)" "pos_x (m_Position pl') = fst ?tile"
    "pos_y (m_Position pl') = snd ?tile"
    using assms Process_move_eq [OF assms(1)] by (auto simp: set_waypoints_def waypoints_def)
  moreover have "chain (fst ?tile) (snd ?tile) (drop ?n (waypoints pl))"
    using assms(1) by (intro chain_drop) (simp add: settled_def movement_wf_def)
  ultimately show ?thesis
    using assms(1) by (auto simp: settled_def movement_wf_def list_all_iff dest: in_set_dropD)
qed

text \<open>Repeated processing, with no new path in between.\<close>

lemma tile_after_drop:
  assumes "p' = p\<lparr>pos_x := fst (tile_after p (take n ws)), pos_y := snd (tile_after p (take n ws))\<rparr>"
  shows "tile_after p' (drop n ws) = tile_after p ws"
  using assms by (cases "length ws \<le> n") (auto simp: tile_after_def last_drop)

lemma walk:
  assumes "settled pl"
  shows "\<exists>pl'. foldR (\<lambda>_. Process_move) (replicate k ()) pl = Inr pl' \<and> settled pl' \<and>
    running pl' = running pl \<and>
    waypoints pl' = drop (k * (if running pl then 2 else 1)) (waypoints pl) \<and>
    tile_after (m_Position pl') (waypoints pl') = tile_after (m_Position pl) (waypoints pl)"
  using assms
proof (induction k arbitrary: pl)
  case 0
  then show ?case by simp
next
  case (Suc k)
  let ?n = "if running pl then 2 else 1"
  obtain pl1 where pl1: "Process_move pl = Inr pl1" "waypoints pl1 = drop ?n (waypoints pl)"
    "m_Position pl1 = (m_Position pl)\<lparr>pos_x := fst (tile_after (m_Position pl) (take ?n (waypoints pl))),
      pos_y := snd (tile_after (m_Position pl) (take ?n (waypoints pl)))\<rparr>"
    "running pl1 = running pl"
    using Process_move_eq [OF Suc.prems] by (auto simp: running_def set_waypoints_def waypoints_def)
  from Suc.IH [OF settled_Process_move [OF Suc.prems pl1(1)]] obtain pl2 where
    "foldR (\<lambda>_. Process_move) (replicate k ()) pl1 = Inr pl2" "settled pl2" "running pl2 = running pl1"
    "waypoints pl2 = drop (k * (if running pl1 then 2 else 1)) (waypoints pl1)"
    "tile_after (m_Position pl2) (waypoints pl2) = tile_after (m_Position pl1) (waypoints pl1)"
    by blast
  then show ?case
    using pl1(1,2,4) tile_after_drop [OF pl1(3)] by (intro exI [of _ pl2]) (simp add: add.commute)
qed

section \<open>A whole movement request\<close>

text \<open>What \<open>Client::HandlePacket\<close> does with the targets of a movement packet.\<close>

definition set_path :: "bool \<Rightarrow> Position list \<Rightarrow> Player \<Rightarrow> fault + Player" where
  "set_path runPath targets pl =
     bindR (foldR AddToPath targets (SetRunPath runPath (MovementHandler_Reset pl)))
       (\<lambda>pl. Inr (MovementHandler_Finish pl))"

text \<open>While a path is being built, the queue starts with the waypoint of \<open>Reset\<close>.\<close>

definition building :: "Player \<Rightarrow> bool" where
  "building pl \<longleftrightarrow> movement_wf pl \<and> waypoints pl \<noteq> [] \<and> m_Direction (hd (waypoints pl)) = -1 \<and>
     list_all (\<lambda>w. m_Direction w \<noteq> -1) (tl (waypoints pl))"

lemma building_Reset: "building (SetRunPath r (MovementHandler_Reset pl))"
  using movement_wf_SetRunPath [OF movement_wf_Reset [of pl], of r]
  by (simp add: building_def MovementHandler_Reset_def Let_def Point_new_def)

lemma building_AddToPath:
  assumes "building pl" "AddToPath position pl = Inr pl'"
  shows "building pl'"
proof (cases rule: AddToPath_cases [of position pl])
  case (path vs)
  have "movement_wf pl'" using assms movement_wf_AddToPath by (auto simp: building_def)
  with path assms show ?thesis by (auto simp: building_def started_def)
qed (use assms in simp)

lemma settled_Finish: "building pl \<Longrightarrow> settled (MovementHandler_Finish pl)"
  using movement_wf_Finish [of pl] by (simp add: building_def settled_def MovementHandler_Finish_def)

lemma settled_set_path:
  assumes "set_path runPath targets pl = Inr pl'"
  shows "settled pl'"
proof -
  obtain pl1 where "foldR AddToPath targets (SetRunPath runPath (MovementHandler_Reset pl)) = Inr pl1"
    and pl': "pl' = MovementHandler_Finish pl1"
    using assms by (auto simp: set_path_def fault_simps)
  from this(1) have "building pl1"
    by (rule foldR_invariant [where P = building]) (auto intro: building_Reset building_AddToPath)
  then show ?thesis by (simp add: pl' settled_Finish)
qed

section \<open>Properties\<close>

text \<open>A new player with the path to the tile three east and one north of where players start.\<close>

definition walker :: Player where
  "walker = set_waypoints [Point_new 3201 3201 2, Point_new 3202 3201 4, Point_new 3203 3201 4]
     (Player_new ''bob'' 0)"

text \<open>
  C29: \<open>AddToPath\<close> on any queue and target. It starts an empty queue at the player's tile, and then
  appends the tiles of the straight line from the last waypoint to the target (first diagonally, then
  along one axis), each with the direction from its predecessor, as far as the limit of 100
  waypoints allows. The only fault is \<open>std::abs\<close> of the smallest \<open>int32_t\<close>.
\<close>

theorem add_to_path_line:
  "AddToPath position pl =
     (let pl' = (if waypoints pl = [] then MovementHandler_Reset pl else pl);
          ws = waypoints pl';
          dx = sint (pos_x position - pos_x (last ws)); dy = sint (pos_y position - pos_y (last ws))
      in if dx = - (2 ^ 31) \<or> dy = - (2 ^ 31) then Inl SignedOverflow
         else Inr (set_waypoints
           (ws @ take (100 - length ws)
             (map (\<lambda>k. Point_new
                 (pos_x (last ws) + word_of_int (sgn dx * min (int k) \<bar>dx\<bar>))
                 (pos_y (last ws) + word_of_int (sgn dy * min (int k) \<bar>dy\<bar>))
                 (Direction (if int k \<le> \<bar>dx\<bar> then word_of_int (sgn dx) else 0)
                            (if int k \<le> \<bar>dy\<bar> then word_of_int (sgn dy) else 0)))
               [1..<Suc (nat (max \<bar>dx\<bar> \<bar>dy\<bar>))])) pl'))"
  using AddToPath_eq [of position pl] AddToPath_overflow [of position pl]
  unfolding Let_def straight_def straight_point_def progress_def started_def [symmetric]
  by (simp only: split: if_split) blast

text \<open>
  C30: the path of a movement request. Whatever the targets, the queue that results is a chain of
  adjacent tiles that starts next to the player, with at most 100 waypoints, each with a direction.
\<close>

theorem movement_request_chain:
  assumes "foldR AddToPath targets (SetRunPath runPath (MovementHandler_Reset pl)) = Inr pl'"
  shows "chain (pos_x (m_Position (MovementHandler_Finish pl'))) (pos_y (m_Position (MovementHandler_Finish pl')))
      (waypoints (MovementHandler_Finish pl')) \<and>
    length (waypoints (MovementHandler_Finish pl')) \<le> 100 \<and>
    list_all (\<lambda>w. m_Direction w \<noteq> -1) (waypoints (MovementHandler_Finish pl'))"
  using settled_set_path [of runPath targets pl "MovementHandler_Finish pl'"] assms
  by (simp_all add: set_path_def settled_def movement_wf_def)

theorem movement_request_chain_witness:
  "\<exists>pl'. foldR AddToPath [Position_new 3203 3201] (SetRunPath False (MovementHandler_Reset (Player_new ''bob'' 0))) =
      Inr pl' \<and> MovementHandler_Finish pl' = walker \<and>
    chain (pos_x (m_Position (MovementHandler_Finish pl'))) (pos_y (m_Position (MovementHandler_Finish pl')))
      (waypoints (MovementHandler_Finish pl'))"
proof -
  let ?pl = "set_waypoints (Point_new 3200 3200 (-1) # waypoints walker) walker"
  have path: "foldR AddToPath [Position_new 3203 3201]
      (SetRunPath False (MovementHandler_Reset (Player_new ''bob'' 0))) = Inr ?pl"
    by code_simp
  moreover have "MovementHandler_Finish ?pl = walker" by code_simp
  ultimately show ?thesis using movement_request_chain [OF path] by metis
qed

text \<open>
  C31: walking. From a chain of waypoints with directions, processing it often enough (as many times
  as there are waypoints, or half as many when running) never faults, empties the queue and
  leaves the player on the tile of the last waypoint.
\<close>

theorem walk_reaches_end:
  assumes "chain (pos_x (m_Position pl)) (pos_y (m_Position pl)) (waypoints pl)"
    and "length (waypoints pl) \<le> 100" "list_all (\<lambda>w. m_Direction w \<noteq> -1) (waypoints pl)"
    and "waypoints pl \<noteq> []" "length (waypoints pl) \<le> k * (if running pl then 2 else 1)"
  shows "\<exists>pl'. foldR (\<lambda>_. Process_move) (replicate k ()) pl = Inr pl' \<and> waypoints pl' = [] \<and>
    pos_x (m_Position pl') = pos_x (last (waypoints pl)) \<and>
    pos_y (m_Position pl') = pos_y (last (waypoints pl))"
proof -
  have "settled pl" using assms by (simp add: settled_def movement_wf_def)
  from walk [OF this, of k] assms(4,5) show ?thesis by (auto simp: tile_after_def)
qed

theorem walk_reaches_end_witness:
  "\<exists>pl'. foldR (\<lambda>_. Process_move) (replicate 3 ()) walker = Inr pl' \<and> waypoints pl' = [] \<and>
    pos_x (m_Position pl') = 3203 \<and> pos_y (m_Position pl') = 3201"
proof -
  have "chain (pos_x (m_Position walker)) (pos_y (m_Position walker)) (waypoints walker)"
    "length (waypoints walker) \<le> 100" "list_all (\<lambda>w. m_Direction w \<noteq> -1) (waypoints walker)"
    "waypoints walker \<noteq> []" "length (waypoints walker) \<le> 3 * (if running walker then 2 else 1)"
    "pos_x (last (waypoints walker)) = 3203" "pos_y (last (waypoints walker)) = 3201"
    by code_simp+
  with walk_reaches_end [of walker 3] show ?thesis by simp
qed

end
