(* ===== verification/Client_Send.thy ===== *)
theory Client_Send
  imports Movement StreamBuffer_Bits
begin

text \<open>
  The functions of \<open>src/src/Client.cpp\<close> that send packets: \<open>Send\<close>, which posts the written bytes of a
  buffer to the strand of the client, and the three packets built by the class itself. The lemmas
  give the exact bytes posted and the state of the cipher afterwards (\<open>emit\<close>).
\<close>

section \<open>Definitions\<close>

text \<open>A client just made from an accepted socket; the clock values start at the epoch.\<close>

definition Client_new :: Client where
  "Client_new =
     \<lparr>socket_open = True, m_Strand = [], reading = False, write_op = None, sent = [],
      m_Stage = CONNECTED, m_ClientUsername = [], m_Disconnected = False, m_OnDisconnect = None,
      m_Encryptor = None, m_Decryptor = None, m_PacketsThisSecond = 0, m_LastPacketSecond = 0,
      m_LastActivityTime = 0, m_WriteQueue = [], m_Writing = False, m_PendingDisconnect = False,
      m_Player = None\<rparr>"

abbreviation (input) GetNetworkStage :: "Client \<Rightarrow> NetworkStage" where
  "GetNetworkStage \<equiv> m_Stage"

abbreviation (input) Client_GetUsername :: "Client \<Rightarrow> string" where
  "Client_GetUsername \<equiv> m_ClientUsername"

abbreviation (input) GetEncryptor :: "Client \<Rightarrow> ISAACCipher option" where
  "GetEncryptor \<equiv> m_Encryptor"

definition Send :: "StreamBuffer \<Rightarrow> Client \<Rightarrow> fault + Client" where
  "Send outStream x =
     (if StreamBuffer_Position outStream \<le> length (Data outStream)
      then Inr (x\<lparr>m_Strand := m_Strand x @ [SendTask (take (StreamBuffer_Position outStream) (Data outStream))]\<rparr>)
      else Inl OutOfBounds)"

text \<open>Dereferencing a \<open>shared_ptr<ISAACCipher>\<close>.\<close>

definition deref_cipher :: "ISAACCipher option \<Rightarrow> fault + ISAACCipher" where
  "deref_cipher e = (case e of Some c \<Rightarrow> Inr c | None \<Rightarrow> Inl NullPointer)"

text \<open>\<open>m_Player.lock()\<close>.\<close>

definition GetPlayer :: "Client \<Rightarrow> System \<Rightarrow> ref option" where
  "GetPlayer x s =
     (case m_Player x of
        None \<Rightarrow> None
      | Some p \<Rightarrow> (case heap_at (players s) p of None \<Rightarrow> None | Some _ \<Rightarrow> Some p))"

definition locked_player :: "Client \<Rightarrow> System \<Rightarrow> fault + Player" where
  "locked_player x s =
     (case GetPlayer x s of None \<Rightarrow> Inl NullPointer | Some p \<Rightarrow> deref (players s) p)"

definition SendMapRegion :: "ref \<Rightarrow> System \<Rightarrow> fault + System" where
  "SendMapRegion c s =
     on_client c (\<lambda>x.
       bindR (deref_cipher (m_Encryptor x)) (\<lambda>e.
       bindR (WriteHeader0 73 e (StreamBuffer_sized 5)) (\<lambda>(outStream, e).
       let x = x\<lparr>m_Encryptor := Some e\<rparr> in
       bindR (locked_player x s) (\<lambda>pl.
       bindR (WriteShortT (GetRegionX (GetPosition pl) + 6) VT_A outStream) (\<lambda>outStream.
       bindR (locked_player x s) (\<lambda>pl.
       bindR (WriteShort0 (GetRegionY (GetPosition pl) + 6) outStream) (\<lambda>outStream.
       Send outStream x))))))) s"

definition SendPlayerMessage :: "string \<Rightarrow> Client \<Rightarrow> fault + Client" where
  "SendPlayerMessage message x =
     bindR (deref_cipher (m_Encryptor x)) (\<lambda>e.
     bindR (WriteHeader 253 e HS_BYTE (StreamBuffer_sized (length message + 3))) (\<lambda>(outStream, e).
     let x = x\<lparr>m_Encryptor := Some e\<rparr> in
     bindR (WriteString message outStream) (\<lambda>outStream.
     bindR (FinishVariableHeader outStream) (\<lambda>outStream.
     Send outStream x))))"

definition SendSidebarInterface :: "i32 \<Rightarrow> i32 \<Rightarrow> Client \<Rightarrow> fault + Client" where
  "SendSidebarInterface menuId form x =
     bindR (deref_cipher (m_Encryptor x)) (\<lambda>e.
     bindR (WriteHeader0 71 e (StreamBuffer_sized 4)) (\<lambda>(outStream, e).
     let x = x\<lparr>m_Encryptor := Some e\<rparr> in
     bindR (WriteShort0 form outStream) (\<lambda>outStream.
     bindR (WriteByte menuId VT_A outStream) (\<lambda>outStream.
     Send outStream x))))"

section \<open>What is posted\<close>

text \<open>
  The abstract effect of sending a packet: the next key of the cipher is added to the opcode, and
  the opcode and the body are posted to the strand.
\<close>

definition emit :: "i32 \<Rightarrow> i8 list \<Rightarrow> Client \<Rightarrow> Client" where
  "emit opcode body x =
     (case m_Encryptor x of
        None \<Rightarrow> x
      | Some e \<Rightarrow>
          x\<lparr>m_Encryptor := Some (snd (GetNextKey e)),
            m_Strand := m_Strand x @ [SendTask (ucast (opcode + fst (GetNextKey e)) # body)]\<rparr>)"

lemma Send_eq:
  "stream_wf out \<Longrightarrow> Send out x = Inr (x\<lparr>m_Strand := m_Strand x @ [SendTask (written out)]\<rparr>)"
  by (simp add: Send_def stream_wf_def written_def)

text \<open>Writing bytes behind a header and sending the frame.\<close>

lemma send_frame:
  assumes "m_Encryptor x = Some e" "WriteHeader opcode e HS_NONE (StreamBuffer_sized n) = Inr (out, e')"
  shows "Send (put_bytes body out) (x\<lparr>m_Encryptor := Some e'\<rparr>) = Inr (emit opcode body x)"
    and "m_AccessType out = BYTE_ACCESS" "m_Pos out = 1"
proof -
  have "stream_wf out \<and> written out = [ucast (opcode + fst (GetNextKey e))] \<and> e' = snd (GetNextKey e) \<and>
      m_AccessType out = BYTE_ACCESS \<and> m_Pos out = 1"
    using WriteHeader_eq [OF stream_wf_sized [of n], of HS_NONE opcode e] assms(2) by auto
  with assms(1) show "Send (put_bytes body out) (x\<lparr>m_Encryptor := Some e'\<rparr>) = Inr (emit opcode body x)"
    "m_AccessType out = BYTE_ACCESS" "m_Pos out = 1"
    by (simp_all add: Send_eq stream_wf_put_bytes written_put_bytes emit_def)
qed

lemma header_ok: "\<exists>out e'. WriteHeader opcode e hs (StreamBuffer_sized n) = Inr (out, e')"
  using WriteHeader_eq [OF stream_wf_sized [of n], of hs opcode e] by (cases hs) auto

lemma SendSidebarInterface_eq:
  assumes "m_Encryptor x = Some e" "value_fits VT_A menuId"
  shows "SendSidebarInterface menuId form x =
    Inr (emit 71 (enc_short VT_STANDARD BIG form @ [enc_value VT_A menuId]) x)"
proof -
  obtain out e' where out: "WriteHeader 71 e HS_NONE (StreamBuffer_sized 4) = Inr (out, e')"
    using header_ok by blast
  note frame = send_frame [OF assms(1) out]
  show ?thesis
    using frame(1) [of "enc_short VT_STANDARD BIG form @ [enc_value VT_A menuId]"] assms out frame(2,3)
    by (simp add: SendSidebarInterface_def deref_cipher_def WriteShort_eq WriteByte_eq put_bytes_append)
qed

lemma SendPlayerMessage_eq:
  assumes "m_Encryptor x = Some e" "length message < 2 ^ 30"
  shows "SendPlayerMessage message x = Inr (emit 253 (word_of_nat (length message + 1) # enc_string message) x)"
proof -
  from WriteHeader_eq [OF stream_wf_sized [of "length message + 3"], of HS_BYTE 253 e]
  obtain out where out: "WriteHeader 253 e HS_BYTE (StreamBuffer_sized (length message + 3)) =
      Inr (out, snd (GetNextKey e))" "stream_wf out" "m_AccessType out = BYTE_ACCESS"
    "written out = [ucast (253 + fst (GetNextKey e)), 0]" "m_HeaderSize out = HS_BYTE" "m_FrameSize out = 1"
    "m_Pos out = 2"
    by auto
  let ?out = "put_bytes (enc_string message) out"
  have "\<exists>b'. FinishVariableHeader ?out = Inr b' \<and> stream_wf b' \<and> m_FrameSize b' = 0 \<and>
      written b' = [ucast (253 + fst (GetNextKey e))] @ frame_size_bytes HS_BYTE (length (enc_string message)) @
        enc_string message \<and> m_Pos b' = m_Pos ?out \<and> m_AccessType b' = m_AccessType ?out"
    by (rule FinishVariableHeader_eq)
      (use out assms(2) in \<open>simp_all add: stream_wf_put_bytes written_put_bytes\<close>)
  with assms out show ?thesis
    by (auto simp: SendPlayerMessage_def deref_cipher_def WriteString_eq Send_eq emit_def)
qed

text \<open>The body of the map region packet: the region of a position, in tiles divided by eight.\<close>

definition region_body :: "Position \<Rightarrow> i8 list" where
  "region_body p =
     enc_short VT_A BIG (drop_bit 3 (pos_x p)) @ enc_short VT_STANDARD BIG (drop_bit 3 (pos_y p))"

lemma region_fits: "value_fits VT_A (drop_bit 3 (x :: u32))"
proof (rule value_fits_small)
  have "uint x < 2 ^ 32" using uint_lt2p [of x] by simp
  then have "uint (drop_bit 3 x) < 2 ^ 29" by (simp add: drop_bit_eq_div uint_div)
  moreover from this have "sint (drop_bit 3 x) = uint (drop_bit 3 x)"
    using order_trans [OF _ uint_nonnegative [of "drop_bit 3 x"], of "- 2147483648"]
    by (simp add: sint_uint signed_take_bit_int_eq_self_iff)
  ultimately show "\<bar>sint (drop_bit 3 x)\<bar> < 2 ^ 30" by simp
qed

lemma locked_player_eq:
  "m_Player x = Some p \<Longrightarrow> heap_at (players s) p = Some pl \<Longrightarrow> locked_player x s = Inr pl"
  by (simp add: locked_player_def GetPlayer_def)

lemma SendMapRegion_eq:
  assumes "heap_at (clients s) c = Some x" "m_Encryptor x = Some e" "m_Player x = Some p"
    and "heap_at (players s) p = Some pl"
  shows "SendMapRegion c s = Inr (put_client c (emit 73 (region_body (m_Position pl)) x) s)"
proof -
  obtain out e' where out: "WriteHeader 73 e HS_NONE (StreamBuffer_sized 5) = Inr (out, e')"
    using header_ok by blast
  note frame = send_frame [OF assms(2) out]
  have deref: "deref (clients s) c = Inr x" using assms(1) by simp
  have lock: "locked_player (x\<lparr>m_Encryptor := Some e'\<rparr>) s = Inr pl"
    by (rule locked_player_eq) (use assms in simp_all)
  show ?thesis
    using frame(1) [of "region_body (m_Position pl)"] assms(2) out frame(2,3) region_fits
    by (simp add: SendMapRegion_def on_client_def deref deref_cipher_def lock WriteShort_eq
        put_bytes_append region_body_def GetRegionX_def GetRegionY_def Let_def del: deref_eq)
qed

lemma emit_fields [simp]:
  "reading (emit opcode body x) = reading x" "write_op (emit opcode body x) = write_op x"
  "sent (emit opcode body x) = sent x" "m_Stage (emit opcode body x) = m_Stage x"
  "socket_open (emit opcode body x) = socket_open x" "m_Decryptor (emit opcode body x) = m_Decryptor x"
  "m_ClientUsername (emit opcode body x) = m_ClientUsername x"
  "m_Disconnected (emit opcode body x) = m_Disconnected x"
  "m_OnDisconnect (emit opcode body x) = m_OnDisconnect x"
  "m_WriteQueue (emit opcode body x) = m_WriteQueue x" "m_Writing (emit opcode body x) = m_Writing x"
  "m_PendingDisconnect (emit opcode body x) = m_PendingDisconnect x" "m_Player (emit opcode body x) = m_Player x"
  "m_Encryptor (emit opcode body x) = map_option (\<lambda>e. snd (GetNextKey e)) (m_Encryptor x)"
  by (simp_all add: emit_def split: option.splits)

section \<open>Both ends of a connection decode the same opcodes\<close>

text \<open>
  Decoding an opcode byte, as the loop of \<open>Client::HandleIncomingData\<close> does: the next key is
  subtracted.
\<close>

definition decode_opcode :: "i32 \<Rightarrow> ISAACCipher \<Rightarrow> i32 \<times> ISAACCipher" where
  "decode_opcode byte decryptor =
     (let packetOpcode = byte AND 0xFF; (key, decryptor) = GetNextKey decryptor
      in ((packetOpcode - key) AND 0xFF, decryptor))"

text \<open>
  The contract of an encrypted channel: \<open>dec\<close> undoes \<open>enc\<close> when both start in the same state, and both
  end in the same state. Then two ends that start together stay in step over any sequence.
\<close>

locale opcode_channel =
  fixes enc :: "'v \<Rightarrow> 'c \<Rightarrow> 'b \<times> 'c"
    and dec :: "'b \<Rightarrow> 'c \<Rightarrow> 'v \<times> 'c"
    and val :: "'v \<Rightarrow> 'v"
  assumes dec_enc: "enc v c = (b, c') \<Longrightarrow> dec b c = (val v, c')"
begin

lemma in_step: "map_state enc vs c = (bs, c') \<Longrightarrow> map_state dec bs c = (map val vs, c')"
  by (induction vs arbitrary: c bs) (auto simp: Let_def split: prod.splits dest: dec_enc)

end

text \<open>A packet is an opcode and a body; only the opcode is encrypted.\<close>

definition enc_packet :: "i32 \<times> i8 list \<Rightarrow> ISAACCipher \<Rightarrow> i8 list \<times> ISAACCipher" where
  "enc_packet p e = (ucast (fst p + fst (GetNextKey e)) # snd p, snd (GetNextKey e))"

definition dec_packet :: "i8 list \<Rightarrow> ISAACCipher \<Rightarrow> (i32 \<times> i8 list) \<times> ISAACCipher" where
  "dec_packet bs d = (let (opcode, d) = decode_opcode (ucast (hd bs)) d in ((opcode, tl bs), d))"

lemma opcode_byte: "(ucast (ucast (v + k :: i32) :: i8) AND 0xFF) - k AND 0xFF = v AND 0xFF" for v k :: i32
  by (simp add: and_255_ucast ucast8_simps)

interpretation chan: opcode_channel enc_packet dec_packet "\<lambda>(op, body). (op AND 0xFF, body)"
  by unfold_locales
    (auto simp: enc_packet_def dec_packet_def decode_opcode_def Let_def opcode_byte split: prod.splits)

primrec emits :: "(i32 \<times> i8 list) list \<Rightarrow> Client \<Rightarrow> Client" where
  "emits [] x = x"
| "emits (p # ps) x = emits ps (emit (fst p) (snd p) x)"

lemma emits_append [simp]: "emits (ps @ qs) x = emits qs (emits ps x)"
  by (induction ps arbitrary: x) simp_all

lemma emits_eq:
  "m_Encryptor x = Some e \<Longrightarrow>
   emits ps x = x\<lparr>m_Encryptor := Some (snd (map_state enc_packet ps e)),
     m_Strand := m_Strand x @ map SendTask (fst (map_state enc_packet ps e))\<rparr>"
proof (induction ps arbitrary: x e)
  case Nil
  then show ?case by (cases x) simp
next
  case (Cons p ps)
  let ?e = "snd (enc_packet p e)"
  have "emit (fst p) (snd p) x =
      x\<lparr>m_Encryptor := Some ?e, m_Strand := m_Strand x @ [SendTask (fst (enc_packet p e))]\<rparr>"
    using Cons.prems by (simp add: emit_def enc_packet_def)
  with Cons.IH [of "emit (fst p) (snd p) x" ?e] show ?case
    by (simp add: map_state_Cons del: map_state.simps)
qed

lemma emits_fields [simp]:
  "reading (emits ps x) = reading x" "write_op (emits ps x) = write_op x" "sent (emits ps x) = sent x"
  "m_Stage (emits ps x) = m_Stage x" "socket_open (emits ps x) = socket_open x"
  "m_Decryptor (emits ps x) = m_Decryptor x" "m_ClientUsername (emits ps x) = m_ClientUsername x"
  "m_Disconnected (emits ps x) = m_Disconnected x" "m_OnDisconnect (emits ps x) = m_OnDisconnect x"
  "m_WriteQueue (emits ps x) = m_WriteQueue x" "m_Writing (emits ps x) = m_Writing x"
  "m_PendingDisconnect (emits ps x) = m_PendingDisconnect x" "m_Player (emits ps x) = m_Player x"
  by (induction ps arbitrary: x) simp_all

text \<open>All that sending does to a client: data is posted to its strand and its cipher moves on.\<close>

definition sends :: "Client \<Rightarrow> Client \<Rightarrow> bool" where
  "sends x x' \<longleftrightarrow>
     (\<exists>packets e. x' = x\<lparr>m_Strand := m_Strand x @ map SendTask packets, m_Encryptor := e\<rparr> \<and>
       (e = None \<longleftrightarrow> m_Encryptor x = None))"

lemma sends_refl [simp]: "sends x x"
  unfolding sends_def by (intro exI [of _ "[]"] exI [of _ "m_Encryptor x"]) simp

lemma sends_trans: "sends x y \<Longrightarrow> sends y z \<Longrightarrow> sends x z"
  unfolding sends_def
proof (elim exE conjE)
  fix ps qs e f
  assume "y = x\<lparr>m_Strand := m_Strand x @ map SendTask ps, m_Encryptor := e\<rparr>" "e = None \<longleftrightarrow> m_Encryptor x = None"
    and "z = y\<lparr>m_Strand := m_Strand y @ map SendTask qs, m_Encryptor := f\<rparr>" "f = None \<longleftrightarrow> m_Encryptor y = None"
  then show "\<exists>packets e. z = x\<lparr>m_Strand := m_Strand x @ map SendTask packets, m_Encryptor := e\<rparr> \<and>
      (e = None \<longleftrightarrow> m_Encryptor x = None)"
    by (intro exI [of _ "ps @ qs"] exI [of _ f]) simp
qed

lemma sends_key: "m_Encryptor x \<noteq> None \<Longrightarrow> sends x (x\<lparr>m_Encryptor := Some e\<rparr>)"
  unfolding sends_def by (intro exI [of _ "[]"] exI [of _ "Some e"]) simp

lemma sends_emit: "sends x (emit opcode body x)"
proof (cases "m_Encryptor x")
  case (Some e)
  then show ?thesis
    unfolding sends_def emit_def
    by (intro exI [of _ "[ucast (opcode + fst (GetNextKey e)) # body]"] exI [of _ "Some (snd (GetNextKey e))"]) simp
qed (simp add: emit_def)

lemma sends_emits: "sends x (emits ps x)"
  by (induction ps arbitrary: x) (simp, metis emits.simps(2) sends_emit sends_trans)

end
