(* ===== verification/Player.thy ===== *)
theory Player
  imports Client_Send
begin

text \<open>
  \<open>src/src/Player.h\<close> and \<open>src/src/Player.cpp\<close> (the constructor is in the theory \<open>Movement\<close>), and the part of
  \<open>MovementHandler::Process\<close> that follows the moves. Functions that reach the client of the player
  work on the whole state; the \<open>weak_ptr\<close> to the client is locked at each use.

  For a player whose client is alive and has its cipher (\<open>player_ok\<close>) no operation faults, and the
  lemmas give the state each one ends in.
\<close>

section \<open>Definitions\<close>

definition GetClient :: "Player \<Rightarrow> System \<Rightarrow> ref option" where
  "GetClient pl s = (case heap_at (clients s) (m_Client pl) of None \<Rightarrow> None | Some _ \<Rightarrow> Some (m_Client pl))"

text \<open>\<open>GetClient()->f\<close> for a player behind a pointer.\<close>

definition with_client :: "ref \<Rightarrow> (ref \<Rightarrow> System \<Rightarrow> fault + System) \<Rightarrow> System \<Rightarrow> fault + System" where
  "with_client p f s =
     bindR (deref (players s) p) (\<lambda>pl.
       case GetClient pl s of None \<Rightarrow> Inl NullPointer | Some c \<Rightarrow> f c s)"

definition SetUpdateFlag :: "UpdateFlag \<Rightarrow> Player \<Rightarrow> Player" where
  "SetUpdateFlag flag pl = pl\<lparr>m_UpdateFlags := flag_or (m_UpdateFlags pl) flag\<rparr>"

definition NeedsUpdate_flag :: "UpdateFlag \<Rightarrow> Player \<Rightarrow> bool" where
  "NeedsUpdate_flag flag pl = hasFlag (m_UpdateFlags pl) flag"

definition NeedsUpdate :: "Player \<Rightarrow> bool" where
  "NeedsUpdate pl \<longleftrightarrow> m_UpdateFlags pl \<noteq> 0"

definition ClearUpdateFlags :: "Player \<Rightarrow> Player" where
  "ClearUpdateFlags pl = pl\<lparr>m_UpdateFlags := Flag_None\<rparr>"

definition SetIndex :: "i32 \<Rightarrow> Player \<Rightarrow> Player" where
  "SetIndex index pl = pl\<lparr>m_Index := index\<rparr>"

text \<open>\<open>SetCurrentRegion\<close> assigns to its argument: it returns the player and the argument afterwards.\<close>

definition SetCurrentRegion :: "Position \<Rightarrow> Player \<Rightarrow> Position \<times> Player" where
  "SetCurrentRegion currentRegion pl = (m_CurrentRegion pl, pl)"

definition UpdateMapRegion :: "ref \<Rightarrow> System \<Rightarrow> fault + System" where
  "UpdateMapRegion p s =
     bindR (on_player p (\<lambda>pl.
       Inr (SetUpdateFlag Flag_NeedsPlacement (pl\<lparr>m_CurrentRegion := m_Position pl\<rparr>))) s)
     (with_client p SendMapRegion)"

definition MovementHandler_Process :: "ref \<Rightarrow> System \<Rightarrow> fault + System" where
  "MovementHandler_Process p s =
     bindR (on_player p Process_move s) (\<lambda>s.
     bindR (deref (players s) p) (\<lambda>pl.
       let deltaX = GetX (GetPosition pl) - GetRegionX (GetCurrentRegion pl) * 8;
           deltaY = GetY (GetPosition pl) - GetRegionY (GetCurrentRegion pl) * 8
       in if sint deltaX < 16 \<or> sint deltaX \<ge> 88 \<or> sint deltaY < 16 \<or> sint deltaY \<ge> 88
          then UpdateMapRegion p s else Inr s))"

definition Player_Process :: "ref \<Rightarrow> System \<Rightarrow> fault + System" where
  "Player_Process p = MovementHandler_Process p"

definition Player_Reset :: "Player \<Rightarrow> Player" where
  "Player_Reset pl = ClearUpdateFlags (SetSecondaryDirection (-1) (SetPrimaryDirection (-1) pl))"

definition sidebars :: "(i32 \<times> i32) list" where
  "sidebars =
     [(1, 3917), (2, 638), (3, 3213), (4, 1644), (5, 5608), (6, 1151), (8, 5065), (9, 5715),
      (10, 2449), (11, 4445), (12, 147), (13, 6299), (0, 2423)]"

definition Login :: "ref \<Rightarrow> System \<Rightarrow> fault + System" where
  "Login p s =
     bindR (UpdateMapRegion p s) (\<lambda>s.
     bindR (on_player p (\<lambda>pl. Inr (SetUpdateFlag Flag_All pl)) s) (\<lambda>s.
     bindR (foldR (\<lambda>(menuId, form).
              with_client p (\<lambda>c. on_client c (SendSidebarInterface menuId form))) sidebars s)
       (with_client p (\<lambda>c. on_client c (SendPlayerMessage ''Welcome to AsioRSPS!'')))))"

text \<open>\<open>Logout\<close> only writes to the log.\<close>

definition Logout :: "ref \<Rightarrow> System \<Rightarrow> fault + System" where
  "Logout p s = Inr s"

section \<open>Players with a live client\<close>

definition player_ok :: "ref \<Rightarrow> Player \<Rightarrow> Client \<Rightarrow> System \<Rightarrow> bool" where
  "player_ok p pl x s \<longleftrightarrow>
     heap_at (players s) p = Some pl \<and> heap_at (clients s) (m_Client pl) = Some x \<and>
     m_Player x = Some p \<and> m_Encryptor x \<noteq> None"

lemma with_client_eq:
  "player_ok p pl x s \<Longrightarrow> with_client p f s = f (m_Client pl) s"
  by (auto simp: with_client_def player_ok_def deref_def GetClient_def)

lemma on_player_eq:
  "heap_at (players s) p = Some pl \<Longrightarrow> on_player p f s = bindR (f pl) (\<lambda>y. Inr (put_player p y s))"
  by (simp add: on_player_def deref_def)

lemma on_client_eq:
  "heap_at (clients s) c = Some x \<Longrightarrow> on_client c f s = bindR (f x) (\<lambda>y. Inr (put_client c y s))"
  by (simp add: on_client_def deref_def)

lemma put_put [simp]:
  "put_player p z (put_player p y s) = put_player p z s"
  "put_client c w (put_client c x s) = put_client c w s"
  "put_player p y (put_client c x s) = put_client c x (put_player p y s)"
  by (simp_all add: put_player_def put_client_def)

lemma player_ok_put:
  assumes "player_ok p pl x s" "m_Client pl' = m_Client pl" "m_Player x' = m_Player x"
    and "m_Encryptor x' \<noteq> None"
  shows "player_ok p pl' x' (put_client (m_Client pl) x' (put_player p pl' s))"
  using assms unfolding player_ok_def
  by (auto simp: at_put_client [of _ _ x] at_put_player)

lemma UpdateMapRegion_eq:
  assumes "player_ok p pl x s"
  defines "pl' \<equiv> pl\<lparr>m_CurrentRegion := m_Position pl,
    m_UpdateFlags := flag_or (m_UpdateFlags pl) Flag_NeedsPlacement\<rparr>"
  shows "UpdateMapRegion p s =
    Inr (put_client (m_Client pl) (emit 73 (region_body (m_Position pl)) x) (put_player p pl' s))"
proof -
  have ok: "player_ok p pl' x (put_player p pl' s)"
    using assms(1) by (auto simp: player_ok_def at_put_player pl'_def)
  from assms(1) obtain e where e: "heap_at (players s) p = Some pl" "m_Encryptor x = Some e"
    by (auto simp: player_ok_def)
  have "SendMapRegion (m_Client pl') (put_player p pl' s) =
      Inr (put_client (m_Client pl') (emit 73 (region_body (m_Position pl')) x) (put_player p pl' s))"
    by (rule SendMapRegion_eq) (use ok e in \<open>auto simp: player_ok_def\<close>)
  then show ?thesis
    by (simp add: UpdateMapRegion_def on_player_eq [OF e(1)] SetUpdateFlag_def pl'_def [symmetric]
        with_client_eq [OF ok]) (simp add: pl'_def)
qed

section \<open>The map region follows the player\<close>

definition in_region :: "Player \<Rightarrow> bool" where
  "in_region pl \<longleftrightarrow>
     16 \<le> sint (GetLocalX (m_Position pl) (m_CurrentRegion pl)) \<and>
     sint (GetLocalX (m_Position pl) (m_CurrentRegion pl)) < 88 \<and>
     16 \<le> sint (GetLocalY (m_Position pl) (m_CurrentRegion pl)) \<and>
     sint (GetLocalY (m_Position pl) (m_CurrentRegion pl)) < 88"

lemma in_region_own: "m_CurrentRegion pl = m_Position pl \<Longrightarrow> in_region pl"
  using local_self_range [of "m_Position pl"] by (simp add: in_region_def)

lemma in_region_unat:
  assumes "in_region pl"
  shows "16 \<le> unat (GetLocalX (m_Position pl) (m_CurrentRegion pl))"
    "unat (GetLocalX (m_Position pl) (m_CurrentRegion pl)) < 88"
    "16 \<le> unat (GetLocalY (m_Position pl) (m_CurrentRegion pl))"
    "unat (GetLocalY (m_Position pl) (m_CurrentRegion pl)) < 88"
  using assms unat_of_sint [of "GetLocalX (m_Position pl) (m_CurrentRegion pl)"]
    unat_of_sint [of "GetLocalY (m_Position pl) (m_CurrentRegion pl)"]
  by (auto simp: in_region_def)

lemma MovementHandler_Process_eq:
  assumes "player_ok p pl x s" "Process_move pl = Inr pl1" "m_Client pl1 = m_Client pl"
  defines "pl2 \<equiv> pl1\<lparr>m_CurrentRegion := m_Position pl1,
    m_UpdateFlags := flag_or (m_UpdateFlags pl1) Flag_NeedsPlacement\<rparr>"
  shows "MovementHandler_Process p s =
    Inr (if in_region pl1 then put_player p pl1 s
         else put_client (m_Client pl) (emit 73 (region_body (m_Position pl1)) x) (put_player p pl2 s))"
proof -
  have ok: "player_ok p pl1 x (put_player p pl1 s)"
    using assms by (auto simp: player_ok_def at_put_player)
  then have at: "heap_at (players (put_player p pl1 s)) p = Some pl1" by (simp add: player_ok_def)
  have pl: "heap_at (players s) p = Some pl" using assms by (simp add: player_ok_def)
  show ?thesis
    using UpdateMapRegion_eq [OF ok] assms(2,3)
    by (simp add: MovementHandler_Process_def on_player_eq [OF pl] deref_def at in_region_def
        GetLocalX_def GetLocalY_def mult.commute not_le not_less pl2_def Let_def)
qed

section \<open>The packets of a login\<close>

definition login_packets :: "Position \<Rightarrow> (i32 \<times> i8 list) list" where
  "login_packets p =
     (73, region_body p) #
     map (\<lambda>(menuId, form). (71, enc_short VT_STANDARD BIG form @ [enc_value VT_A menuId])) sidebars @
     [(253, 21 # enc_string ''Welcome to AsioRSPS!'')]"

definition logged_in_player :: "Player \<Rightarrow> Player" where
  "logged_in_player pl = pl\<lparr>m_CurrentRegion := m_Position pl, m_UpdateFlags := Flag_All\<rparr>"

lemma client_ok_put:
  "player_ok p pl x s \<Longrightarrow> m_Player y = m_Player x \<Longrightarrow> m_Encryptor y \<noteq> None \<Longrightarrow>
   player_ok p pl y (put_client (m_Client pl) y s)"
  by (auto simp: player_ok_def at_put_client)

lemma sidebars_fit: "\<forall>(menuId, form)\<in>set sidebars. value_fits VT_A menuId"
  by (simp add: sidebars_def value_fits_def typed_value_def in_i32_def)

lemma sidebars_eq:
  assumes "player_ok p pl x s" "\<forall>(menuId, form)\<in>set bars. value_fits VT_A menuId"
  shows "foldR (\<lambda>(menuId, form). with_client p (\<lambda>c. on_client c (SendSidebarInterface menuId form))) bars s =
    Inr (put_client (m_Client pl)
      (emits (map (\<lambda>(menuId, form). (71, enc_short VT_STANDARD BIG form @ [enc_value VT_A menuId])) bars) x) s)"
  using assms
proof (induction bars arbitrary: x s)
  case Nil
  then have "put_client (m_Client pl) x s = s"
    by (auto simp: put_client_def player_ok_def heap_at_def list_update_same_conv split: if_splits)
  then show ?case by simp
next
  case (Cons bar bars)
  obtain menuId form where bar: "bar = (menuId, form)" by fastforce
  let ?x = "emit 71 (enc_short VT_STANDARD BIG form @ [enc_value VT_A menuId]) x"
  from Cons.prems obtain e where x: "heap_at (clients s) (m_Client pl) = Some x" "m_Encryptor x = Some e"
    by (auto simp: player_ok_def)
  have fits: "value_fits VT_A menuId" "\<forall>(menuId, form)\<in>set bars. value_fits VT_A menuId" using Cons.prems(2) bar by auto
  have "player_ok p pl ?x (put_client (m_Client pl) ?x s)"
    using Cons.prems(1) by (intro client_ok_put) (auto simp: player_ok_def)
  from Cons.IH [OF this fits(2)] show ?case
    by (simp add: bar with_client_eq [OF Cons.prems(1)] on_client_eq [OF x(1)] SendSidebarInterface_eq [OF x(2) fits(1)])
qed

lemma Login_eq:
  assumes "player_ok p pl x s"
  shows "Login p s =
    Inr (put_client (m_Client pl) (emits (login_packets (m_Position pl)) x) (put_player p (logged_in_player pl) s))"
proof -
  let ?c = "m_Client pl"
  let ?pl = "pl\<lparr>m_CurrentRegion := m_Position pl, m_UpdateFlags := flag_or (m_UpdateFlags pl) Flag_NeedsPlacement\<rparr>"
  let ?x = "emit 73 (region_body (m_Position pl)) x"
  let ?s = "put_client ?c ?x (put_player p ?pl s)"
  let ?t = "put_client ?c ?x (put_player p (logged_in_player pl) s)"
  have ok: "player_ok p ?pl ?x ?s"
    by (rule player_ok_put [OF assms]) (use assms in \<open>auto simp: player_ok_def\<close>)
  have ok1: "player_ok p (logged_in_player pl) ?x ?t"
    by (rule player_ok_put [OF assms]) (use assms in \<open>auto simp: player_ok_def logged_in_player_def\<close>)
  have flag: "on_player p (\<lambda>pl. Inr (SetUpdateFlag Flag_All pl)) ?s = Inr ?t"
    using ok by (subst on_player_eq [of _ _ ?pl])
      (simp_all add: player_ok_def SetUpdateFlag_def logged_in_player_def)
  have c: "m_Client (logged_in_player pl) = ?c" by (simp add: logged_in_player_def)
  let ?y = "emits (map (\<lambda>(menuId, form). (71, enc_short VT_STANDARD BIG form @ [enc_value VT_A menuId])) sidebars) ?x"
  obtain e where e: "m_Encryptor ?x = Some e" using ok1 by (auto simp: player_ok_def)
  have ok2: "player_ok p (logged_in_player pl) ?y (put_client ?c ?y ?t)"
    using client_ok_put [OF ok1, of ?y] emits_eq [OF e] by (simp add: c)
  then have y: "heap_at (clients (put_client ?c ?y ?t)) ?c = Some ?y" "m_Encryptor ?y \<noteq> None"
    by (simp_all add: player_ok_def c)
  then obtain e2 where e2: "m_Encryptor ?y = Some e2" by auto
  show ?thesis
    by (simp add: Login_def UpdateMapRegion_eq [OF assms] flag sidebars_eq [OF ok1 sidebars_fit] c
        with_client_eq [OF ok2, unfolded c put_put] on_client_eq [OF y(1), unfolded put_put] SendPlayerMessage_eq [OF e2]
        login_packets_def)
qed

section \<open>Properties\<close>

text \<open>A server with one player, \<open>walker\<close>, not yet registered, and its client.\<close>

definition one_client :: Client where
  "one_client =
     Client_new\<lparr>m_Encryptor := Some (ISAACCipher_new 1 2 3 4), m_Player := Some 0, m_Stage := LOGGED_IN\<rparr>"

definition one_player :: System where
  "one_player =
     \<lparr>players = [Some walker], clients = [Some one_client],
      m_Players = [], m_OccupiedIndices = replicate 2048 False,
      m_Sessions = [0], m_Running = True, playerList = []\<rparr>"

lemma one_player_ok: "player_ok 0 walker one_client one_player"
  by (simp add: one_player_def one_client_def player_ok_def heap_at_def walker_def set_waypoints_def
      Player_new_def)

lemma walker_settled: "settled walker"
  by code_simp

text \<open>
  \<open>Player::Process\<close> for a player with a live client never faults. Afterwards the player is between 16
  and 87 tiles from the corner of the map region its client has loaded, so its local coordinates fit
  into the seven bits they are sent in. Either the region is unchanged and nothing is sent, or the
  region is that of the new position, the player is flagged for placement, and exactly one map region
  packet, for the new position, is sent.
\<close>

lemma process_keeps_region:
  assumes "player_ok p pl x s" "settled pl"
  shows "\<exists>s' pl' x'. Player_Process p s = Inr s' \<and> player_ok p pl' x' s' \<and> settled pl' \<and>
    (let localX = GetLocalX (m_Position pl') (m_CurrentRegion pl');
         localY = GetLocalY (m_Position pl') (m_CurrentRegion pl')
     in 16 \<le> unat localX \<and> unat localX < 88 \<and> 16 \<le> unat localY \<and> unat localY < 88) \<and>
    (x' = x \<and> m_CurrentRegion pl' = m_CurrentRegion pl \<and> m_UpdateFlags pl' = m_UpdateFlags pl \<or>
     x' = emit 73 (region_body (m_Position pl')) x \<and> m_CurrentRegion pl' = m_Position pl' \<and>
     NeedsUpdate_flag Flag_NeedsPlacement pl')"
proof -
  obtain pl1 where pl1: "Process_move pl = Inr pl1" "m_Client pl1 = m_Client pl"
    "m_CurrentRegion pl1 = m_CurrentRegion pl" "m_UpdateFlags pl1 = m_UpdateFlags pl"
    using Process_move_eq [OF assms(2)] by (simp add: set_waypoints_def)
  have st: "settled pl1" by (rule settled_Process_move [OF assms(2) pl1(1)])
  let ?pl = "pl1\<lparr>m_CurrentRegion := m_Position pl1, m_UpdateFlags := flag_or (m_UpdateFlags pl1) Flag_NeedsPlacement\<rparr>"
  note proc = MovementHandler_Process_eq [OF assms(1) pl1(1,2), folded Player_Process_def]
  show ?thesis
  proof (cases "in_region pl1")
    case True
    moreover have "player_ok p pl1 x (put_player p pl1 s)"
      using assms(1) pl1 by (auto simp: player_ok_def at_put_player)
    ultimately show ?thesis
      using st proc pl1 in_region_unat [OF True]
      by (intro exI [of _ "put_player p pl1 s"] exI [of _ pl1] exI [of _ x]) (simp add: Let_def)
  next
    case False
    let ?x = "emit 73 (region_body (m_Position pl1)) x"
    have "player_ok p ?pl ?x (put_client (m_Client pl) ?x (put_player p ?pl s))"
      by (rule player_ok_put [OF assms(1)]) (use assms(1) pl1(2) in \<open>auto simp: player_ok_def\<close>)
    moreover have "settled ?pl" using st by (simp add: settled_def movement_wf_def waypoints_def)
    moreover have "NeedsUpdate_flag Flag_NeedsPlacement ?pl" by (simp add: NeedsUpdate_flag_def)
    ultimately show ?thesis
      using proc False in_region_unat [OF in_region_own, of ?pl]
      by (intro exI [of _ "put_client (m_Client pl) ?x (put_player p ?pl s)"] exI [of _ ?pl] exI [of _ ?x])
        (simp add: Let_def)
  qed
qed

text \<open>
  C32: \<open>Player::Login\<close> with a live client never faults. It posts, in this order, the map region of the
  player's position, the thirteen sidebar interfaces and the welcome message; a peer whose cipher is in
  the state of the client's encryptor decodes exactly these opcodes and bodies, and both ciphers end
  in the same state. The player gets all update flags and its own position as region.
\<close>

theorem login_posts:
  assumes "player_ok p pl x s" "m_Encryptor x = Some e"
  shows "\<exists>s' x' packets e'. Login p s = Inr s' \<and>
    player_ok p (pl\<lparr>m_CurrentRegion := m_Position pl, m_UpdateFlags := Flag_All\<rparr>) x' s' \<and>
    m_Strand x' = m_Strand x @ map SendTask packets \<and> m_Encryptor x' = Some e' \<and>
    map_state dec_packet packets e =
      ((73, region_body (m_Position pl)) #
       map (\<lambda>(menuId, form). (71, enc_short VT_STANDARD BIG form @ [enc_value VT_A menuId])) sidebars @
       [(253, 21 # enc_string ''Welcome to AsioRSPS!'')], e')"
proof -
  let ?ps = "login_packets (m_Position pl)"
  let ?x = "emits ?ps x" and ?pl = "logged_in_player pl"
  obtain packets e' where enc: "map_state enc_packet ?ps e = (packets, e')" by fastforce
  have x: "?x = x\<lparr>m_Encryptor := Some e', m_Strand := m_Strand x @ map SendTask packets\<rparr>"
    using emits_eq [OF assms(2), of ?ps] enc by simp
  have "map (\<lambda>(op, body). (op AND 0xFF, body)) ?ps = ?ps"
    by (simp add: login_packets_def sidebars_def)
  then have dec: "map_state dec_packet packets e = (?ps, e')"
    using chan.in_step [OF enc] by simp
  have ok: "player_ok p ?pl ?x (put_client (m_Client pl) ?x (put_player p ?pl s))"
    by (rule player_ok_put [OF assms(1)]) (simp_all add: x logged_in_player_def)
  show ?thesis
    unfolding login_packets_def [symmetric] logged_in_player_def [symmetric]
    using Login_eq [OF assms(1)] ok dec x by fastforce
qed

theorem login_posts_witness:
  "\<exists>s' x' packets. Login 0 one_player = Inr s' \<and> heap_at (clients s') 0 = Some x' \<and>
    m_Strand x' = map SendTask packets \<and>
    map fst (fst (map_state dec_packet packets (ISAACCipher_new 1 2 3 4))) = 73 # replicate 13 71 @ [253]"
proof -
  have e: "m_Encryptor one_client = Some (ISAACCipher_new 1 2 3 4)" "m_Strand one_client = []"
    "m_Client walker = 0"
    by (simp_all add: one_client_def Client_new_def walker_def set_waypoints_def Player_new_def)
  from login_posts [OF one_player_ok e(1)] obtain s' x' packets e' where
    *: "Login 0 one_player = Inr s'"
    "player_ok 0 (walker\<lparr>m_CurrentRegion := m_Position walker, m_UpdateFlags := Flag_All\<rparr>) x' s'"
    "m_Strand x' = map SendTask packets"
    "map_state dec_packet packets (ISAACCipher_new 1 2 3 4) =
      ((73, region_body (m_Position walker)) #
       map (\<lambda>(menuId, form). (71, enc_short VT_STANDARD BIG form @ [enc_value VT_A menuId])) sidebars @
       [(253, 21 # enc_string ''Welcome to AsioRSPS!'')], e')"
    unfolding e(2) by auto
  from *(2) have "heap_at (clients s') 0 = Some x'" by (simp add: player_ok_def e(3))
  with * show ?thesis by (auto simp: sidebars_def numeral_eq_Suc)
qed

end
