(* ===== verification/World.thy ===== *)
theory World
  imports Player "HOL-Library.AList"
begin

text \<open>
  The registry of \<open>src/src/World.h\<close> and \<open>src/src/World.cpp\<close>: the players by name and the bit set of
  occupied indices. \<open>m_Players\<close> is an association list without duplicate keys; the iteration order
  of \<open>std::unordered_map\<close> is not taken from it but is an argument of the functions that iterate
  (theories \<open>PlayerUpdating\<close> and \<open>World_Process\<close>).

  The locale \<open>slot_allocator\<close> states what the world relies on when it hands out indices, and is
  interpreted on \<open>GetFreeIndex\<close> and \<open>std::bitset::reset\<close>. \<open>registry_wf\<close> is the invariant that ties
  names, players and indices together.
\<close>

section \<open>Definitions\<close>

abbreviation (input) GetPlayers :: "System \<Rightarrow> (string \<times> ref) list" where
  "GetPlayers \<equiv> m_Players"

definition World_GetPlayer :: "string \<Rightarrow> System \<Rightarrow> ref option" where
  "World_GetPlayer username s = map_of (m_Players s) username"

text \<open>The loop of \<open>GetFreeIndex\<close> from index \<open>i\<close>; it ends with the index and the bit set.\<close>

function GetFreeIndex_loop :: "nat \<Rightarrow> bool list \<Rightarrow> i32 \<times> bool list" where
  "GetFreeIndex_loop i occupied =
     (if i < MAX_PLAYERS
      then if \<not> occupied ! i then (word_of_nat i, occupied[i := True])
           else GetFreeIndex_loop (i + 1) occupied
      else (-1, occupied))"
  by pat_completeness auto
termination
  by (relation "measure (\<lambda>(i, occupied). MAX_PLAYERS - i)") auto

declare GetFreeIndex_loop.simps [simp del]

definition GetFreeIndex :: "bool list \<Rightarrow> i32 \<times> bool list" where
  "GetFreeIndex occupied = GetFreeIndex_loop 0 occupied"

text \<open>\<open>m_OccupiedIndices.reset(slot)\<close> converts the slot to \<open>size_t\<close> and throws outside the bit set.\<close>

definition bitset_reset :: "i32 \<Rightarrow> bool list \<Rightarrow> fault + bool list" where
  "bitset_reset slot occupied =
     (if 0 \<le> sint slot \<and> nat (sint slot) < MAX_PLAYERS
      then Inr (occupied[nat (sint slot) := False])
      else Inl (OutOfRange ''bitset::reset''))"

definition RegisterPlayer :: "ref \<Rightarrow> System \<Rightarrow> fault + System" where
  "RegisterPlayer p s =
     (let (index, occupied) = GetFreeIndex (m_OccupiedIndices s);
          s = s\<lparr>m_OccupiedIndices := occupied\<rparr>
      in if index = -1 then Inr s
         else
           bindR (on_player p (\<lambda>pl. Inr (SetIndex index pl)) s) (\<lambda>s.
           bindR (deref (players s) p) (\<lambda>pl.
             let old = map_of (m_Players s) (GetUsername pl);
                 s = s\<lparr>m_Players := AList.update (GetUsername pl) p (m_Players s)\<rparr>;
                 s = (case old of None \<Rightarrow> s | Some q \<Rightarrow> release_players [q] s)
             in Login p s)))"

definition RemovePlayer :: "string \<Rightarrow> System \<Rightarrow> fault + System" where
  "RemovePlayer username s =
     (case World_GetPlayer username s of
        Some p \<Rightarrow>
          bindR (deref (players s) p) (\<lambda>pl.
            let slot = GetIndex pl
            in bindR (if slot \<noteq> -1
                      then bindR (bitset_reset slot (m_OccupiedIndices s))
                             (\<lambda>occupied. Inr (s\<lparr>m_OccupiedIndices := occupied\<rparr>))
                      else Inr s) (\<lambda>s.
               bindR (Logout p s) (\<lambda>s.
                 Inr (release_players [p] (s\<lparr>m_Players := AList.delete username (m_Players s)\<rparr>)))))
      | None \<Rightarrow> Inr s)"

section \<open>Allocation of indices\<close>

locale slot_allocator =
  fixes alloc :: "'s \<Rightarrow> nat option \<times> 's"
    and free :: "nat \<Rightarrow> 's \<Rightarrow> 's"
    and used :: "'s \<Rightarrow> nat set"
    and ok :: "'s \<Rightarrow> bool"
    and cap :: nat
  assumes alloc_some: "ok s \<Longrightarrow> alloc s = (Some i, s') \<Longrightarrow>
      i < cap \<and> i \<notin> used s \<and> (\<forall>j<i. j \<in> used s) \<and> used s' = insert i (used s) \<and> ok s'"
    and alloc_none: "ok s \<Longrightarrow> alloc s = (None, s') \<Longrightarrow> used s = {..<cap} \<and> s' = s"
    and free_used: "ok s \<Longrightarrow> i < cap \<Longrightarrow> used (free i s) = used s - {i} \<and> ok (free i s)"
    and used_bound: "ok s \<Longrightarrow> used s \<subseteq> {..<cap}"
begin

lemma alloc_iff_room:
  assumes "ok s"
  shows "(\<exists>i s'. alloc s = (Some i, s')) \<longleftrightarrow> card (used s) < cap"
proof -
  obtain r s' where a: "alloc s = (r, s')" by fastforce
  have fin: "finite (used s)" using used_bound [OF assms] finite_subset by blast
  show ?thesis
  proof (cases r)
    case None
    with a alloc_none [OF assms] show ?thesis by simp
  next
    case (Some i)
    with a alloc_some [OF assms] used_bound [OF assms] have "used s \<subset> {..<cap}" by auto
    with a Some show ?thesis
      using psubset_card_mono [of "{..<cap}" "used s"] by simp
  qed
qed

text \<open>Owners of slots: an allocation keeps an injective assignment injective, a release as well.\<close>

lemma alloc_keeps_inj:
  assumes "ok s" "alloc s = (Some i, s')" "inj_on f A" "f ` A = used s" "a \<notin> A"
  shows "inj_on (f(a := i)) (insert a A)" "(f(a := i)) ` insert a A = used s'"
  using alloc_some [OF assms(1,2)] assms(3-5) by (auto simp: inj_on_def)

lemma free_keeps_inj:
  assumes "ok s" "inj_on f A" "f ` A = used s" "a \<in> A"
  shows "inj_on f (A - {a})" "f ` (A - {a}) = used (free (f a) s)"
proof -
  have "f a < cap" using used_bound [OF assms(1)] assms(3,4) by auto
  then show "f ` (A - {a}) = used (free (f a) s)"
    using free_used [OF assms(1)] assms(2-4) by (auto simp: inj_on_def)
qed (use assms(2) in \<open>auto simp: inj_on_def\<close>)

end

definition bitset_ok :: "bool list \<Rightarrow> bool" where
  "bitset_ok occupied \<longleftrightarrow> length occupied = MAX_PLAYERS"

definition used_indices :: "bool list \<Rightarrow> nat set" where
  "used_indices occupied = {i. i < length occupied \<and> occupied ! i}"

text \<open>\<open>GetFreeIndex\<close> with its special value -1 read as an option.\<close>

definition free_slot :: "bool list \<Rightarrow> nat option \<times> bool list" where
  "free_slot occupied =
     (let (index, occupied) = GetFreeIndex occupied
      in (if index = -1 then None else Some (unat index), occupied))"

definition clear_slot :: "nat \<Rightarrow> bool list \<Rightarrow> bool list" where
  "clear_slot i occupied = occupied[i := False]"

lemma index_word: "i < MAX_PLAYERS \<Longrightarrow> unat (word_of_nat i :: i32) = i \<and> (word_of_nat i :: i32) \<noteq> -1"
proof -
  assume "i < MAX_PLAYERS"
  then have "unat (word_of_nat i :: i32) = i"
    by (simp add: MAX_PLAYERS_def unat_of_nat take_bit_nat_eq_self)
  moreover have "unat (-1 :: i32) = 4294967295" by (simp add: unsigned_minus_1_eq_mask mask_eq_exp_minus_1)
  ultimately show ?thesis using \<open>i < MAX_PLAYERS\<close> by (auto simp: MAX_PLAYERS_def)
qed

lemma GetFreeIndex_loop_spec:
  assumes "i \<le> MAX_PLAYERS" "\<forall>j<i. occupied ! j"
  shows "GetFreeIndex_loop i occupied =
    (if \<forall>j<MAX_PLAYERS. occupied ! j then (-1, occupied)
     else let k = (LEAST k. k < MAX_PLAYERS \<and> \<not> occupied ! k) in (word_of_nat k, occupied[k := True]))"
  using assms
proof (induction i occupied rule: GetFreeIndex_loop.induct)
  case (1 i occupied)
  show ?case
  proof (cases "i < MAX_PLAYERS \<and> \<not> occupied ! i")
    case True
    then have "(LEAST k. k < MAX_PLAYERS \<and> \<not> occupied ! k) = i"
      using 1(3) by (intro Least_equality) (auto simp: not_less [symmetric])
    with True show ?thesis by (subst GetFreeIndex_loop.simps) (auto simp: Let_def)
  next
    case False
    show ?thesis
    proof (cases "i < MAX_PLAYERS")
      case True
      with False have "occupied ! i" by simp
      then have "\<forall>j<i + 1. occupied ! j" using 1(3) by (auto simp: less_Suc_eq)
      with 1(1) True \<open>occupied ! i\<close> show ?thesis
        by (subst GetFreeIndex_loop.simps) (simp add: Suc_le_eq)
    next
      case False
      with 1(2,3) show ?thesis by (subst GetFreeIndex_loop.simps) auto
    qed
  qed
qed

lemma free_slot_spec:
  "free_slot occupied =
    (if \<forall>j<MAX_PLAYERS. occupied ! j then (None, occupied)
     else let k = (LEAST k. k < MAX_PLAYERS \<and> \<not> occupied ! k) in (Some k, occupied[k := True]))"
proof (cases "\<forall>j<MAX_PLAYERS. occupied ! j")
  case True
  then show ?thesis
    using GetFreeIndex_loop_spec [of 0 occupied] by (simp add: free_slot_def GetFreeIndex_def)
next
  case False
  then obtain j where "j < MAX_PLAYERS \<and> \<not> occupied ! j" by blast
  then have "(LEAST k. k < MAX_PLAYERS \<and> \<not> occupied ! k) < MAX_PLAYERS"
    by (rule LeastI2) simp
  with False index_word show ?thesis
    using GetFreeIndex_loop_spec [of 0 occupied] by (auto simp: free_slot_def GetFreeIndex_def Let_def)
qed

interpretation slots: slot_allocator free_slot clear_slot used_indices bitset_ok MAX_PLAYERS
proof
  fix s s' i
  assume ok: "bitset_ok s" and a: "free_slot s = (Some i, s')"
  then obtain j where "j < MAX_PLAYERS \<and> \<not> s ! j"
    by (auto simp: free_slot_spec split: if_splits)
  then have least: "(LEAST k. k < MAX_PLAYERS \<and> \<not> s ! k) < MAX_PLAYERS \<and>
      \<not> s ! (LEAST k. k < MAX_PLAYERS \<and> \<not> s ! k)"
    by (rule LeastI)
  have i: "i = (LEAST k. k < MAX_PLAYERS \<and> \<not> s ! k)" and s': "s' = s[i := True]"
    using a by (auto simp: free_slot_spec Let_def split: if_splits)
  have "\<forall>j<i. s ! j"
    using not_less_Least [of _ "\<lambda>k. k < MAX_PLAYERS \<and> \<not> s ! k"] least unfolding i
    by (metis order.strict_trans)
  with least [folded i] s' show "i < MAX_PLAYERS \<and> i \<notin> used_indices s \<and> (\<forall>j<i. j \<in> used_indices s) \<and>
      used_indices s' = insert i (used_indices s) \<and> bitset_ok s'"
    using ok by (auto simp: used_indices_def bitset_ok_def nth_list_update)
next
  fix s s'
  assume "bitset_ok s" "free_slot s = (None, s')"
  then show "used_indices s = {..<MAX_PLAYERS} \<and> s' = s"
    by (auto simp: free_slot_spec bitset_ok_def used_indices_def Let_def split: if_splits)
qed (auto simp: clear_slot_def used_indices_def bitset_ok_def nth_list_update)

section \<open>The registry invariant\<close>

definition index_of :: "System \<Rightarrow> ref \<Rightarrow> nat" where
  "index_of s p = (case heap_at (players s) p of Some pl \<Rightarrow> unat (m_Index pl) | None \<Rightarrow> 0)"

text \<open>
  Every entry names a live player with that name and an index of its own; the occupied indices
  are exactly those of the registered players.
\<close>

definition registry_wf :: "System \<Rightarrow> bool" where
  "registry_wf s \<longleftrightarrow>
     distinct (map fst (m_Players s)) \<and> bitset_ok (m_OccupiedIndices s) \<and>
     (\<forall>(name, p)\<in>set (m_Players s).
        \<exists>pl. heap_at (players s) p = Some pl \<and> m_Username pl = name \<and> unat (m_Index pl) < MAX_PLAYERS) \<and>
     inj_on (index_of s) (snd ` set (m_Players s)) \<and>
     index_of s ` snd ` set (m_Players s) = used_indices (m_OccupiedIndices s)"

lemma registry_entry:
  assumes "registry_wf s" "(name, p) \<in> set (m_Players s)"
  obtains pl where "heap_at (players s) p = Some pl" "m_Username pl = name" "unat (m_Index pl) < MAX_PLAYERS"
    "index_of s p = unat (m_Index pl)"
  using assms by (fastforce simp: registry_wf_def index_of_def)

lemma registry_name:
  assumes "registry_wf s" "p \<in> snd ` set (m_Players s)" "heap_at (players s) p = Some pl"
  shows "(m_Username pl, p) \<in> set (m_Players s)"
proof -
  from assms(2) obtain name where name: "(name, p) \<in> set (m_Players s)" by auto
  with assms(1) obtain pl' where "heap_at (players s) p = Some pl'" "m_Username pl' = name"
    by (rule registry_entry)
  with name assms(3) show ?thesis by simp
qed

text \<open>No two entries of the registry share a player, so their number is bounded by the number of indices.\<close>

lemma registry_size:
  assumes "registry_wf s"
  shows "length (m_Players s) \<le> MAX_PLAYERS"
proof -
  let ?P = "snd ` set (m_Players s)"
  have names: "distinct (map fst (m_Players s))" and inj: "inj_on (index_of s) ?P"
    using assms by (simp_all add: registry_wf_def)
  have "inj_on snd (set (m_Players s))"
  proof (rule inj_onI)
    fix a b assume ab: "a \<in> set (m_Players s)" "b \<in> set (m_Players s)" "snd a = snd b"
    have "\<exists>pl. heap_at (players s) (snd e) = Some pl \<and> m_Username pl = fst e" if "e \<in> set (m_Players s)" for e
      using registry_entry [OF assms, of "fst e" "snd e"] that by auto
    from this [OF ab(1)] this [OF ab(2)] ab(3) show "a = b" by (auto simp: prod_eq_iff)
  qed
  then have "card ?P = card (set (m_Players s))" by (rule card_image)
  also have "\<dots> = length (m_Players s)" using names by (simp add: distinct_map distinct_card)
  finally have "length (m_Players s) = card (index_of s ` ?P)" using card_image [OF inj] by simp
  also have "\<dots> \<le> card {..<MAX_PLAYERS}"
  proof (rule card_mono)
    show "index_of s ` ?P \<subseteq> {..<MAX_PLAYERS}" using registry_entry [OF assms] by force
  qed simp
  finally show ?thesis by simp
qed

text \<open>Players with the same names and indices, and the same registry: the invariant is the same.\<close>

lemma registry_wf_cong:
  assumes "m_Players t = m_Players s" "m_OccupiedIndices t = m_OccupiedIndices s"
    and "\<And>p pl. p \<in> snd ` set (m_Players s) \<Longrightarrow> heap_at (players s) p = Some pl \<Longrightarrow>
      \<exists>pl'. heap_at (players t) p = Some pl' \<and> m_Username pl' = m_Username pl \<and> m_Index pl' = m_Index pl"
    and "registry_wf s"
  shows "registry_wf t"
proof -
  have entry: "\<exists>pl. heap_at (players t) p = Some pl \<and> m_Username pl = name \<and> unat (m_Index pl) < MAX_PLAYERS \<and>
      index_of t p = index_of s p" if mem: "(name, p) \<in> set (m_Players s)" for name p
  proof -
    from assms(4) mem obtain pl where "heap_at (players s) p = Some pl" "m_Username pl = name"
      "unat (m_Index pl) < MAX_PLAYERS" "index_of s p = unat (m_Index pl)"
      by (rule registry_entry)
    with assms(3) [of p pl] mem show ?thesis by (force simp: index_of_def)
  qed
  then have "index_of t p = index_of s p" if "p \<in> snd ` set (m_Players s)" for p
    using that by (metis imageE prod.collapse)
  then have "inj_on (index_of t) (snd ` set (m_Players s)) = inj_on (index_of s) (snd ` set (m_Players s))"
    "index_of t ` snd ` set (m_Players s) = index_of s ` snd ` set (m_Players s)"
    by (auto intro!: inj_on_cong image_cong)
  moreover have "\<forall>(name, p)\<in>set (m_Players s). \<exists>pl. heap_at (players t) p = Some pl \<and> m_Username pl = name \<and>
      unat (m_Index pl) < MAX_PLAYERS"
    using entry by fastforce
  ultimately show ?thesis
    using assms(4) by (simp add: registry_wf_def assms(1,2))
qed

lemma set_delete_distinct:
  "distinct (map fst xs) \<Longrightarrow> set (AList.delete k xs) = {e \<in> set xs. fst e \<noteq> k}"
  by (auto simp: AList.delete_eq)

lemma word_index: "unat (w :: i32) < MAX_PLAYERS \<Longrightarrow> w \<noteq> -1 \<and> sint w = int (unat w)"
proof -
  assume "unat w < MAX_PLAYERS"
  then have "int (unat w) < 2048" by (simp only: MAX_PLAYERS_def)
  then have "uint w < 2048" by simp
  moreover have "uint (-1 :: i32) = 4294967295" by (simp add: unsigned_minus_1_eq_mask mask_eq_exp_minus_1)
  ultimately show ?thesis using sint_small [of w] by auto
qed

lemma RemovePlayer_eq:
  assumes "registry_wf s" "(name, p) \<in> set (m_Players s)"
  shows "RemovePlayer name s = Inr (release_players [p]
    (s\<lparr>m_OccupiedIndices := (m_OccupiedIndices s)[index_of s p := False],
       m_Players := AList.delete name (m_Players s)\<rparr>))"
proof -
  from assms obtain pl where pl: "heap_at (players s) p = Some pl" "unat (m_Index pl) < MAX_PLAYERS"
    "index_of s p = unat (m_Index pl)"
    by (rule registry_entry)
  have "World_GetPlayer name s = Some p"
    using assms by (simp add: World_GetPlayer_def registry_wf_def)
  with pl word_index [OF pl(2)] show ?thesis
    by (simp add: RemovePlayer_def deref_def bitset_reset_def Logout_def Let_def)
qed

lemma delete_refs:
  assumes "registry_wf s" "(name, p) \<in> set (m_Players s)"
  shows "snd ` set (AList.delete name (m_Players s)) = snd ` set (m_Players s) - {p}"
proof -
  let ?P = "snd ` set (m_Players s)"
  have set: "set (AList.delete name (m_Players s)) = {e \<in> set (m_Players s). fst e \<noteq> name}"
    using assms(1) by (intro set_delete_distinct) (simp add: registry_wf_def)
  have "snd ` {e \<in> set (m_Players s). fst e \<noteq> name} = ?P - {p}"
  proof (intro equalityI subsetI)
    fix q assume "q \<in> snd ` {e \<in> set (m_Players s). fst e \<noteq> name}"
    then obtain n where n: "(n, q) \<in> set (m_Players s)" "n \<noteq> name" by auto
    moreover have "q \<noteq> p"
      using registry_entry [OF assms] registry_entry [OF assms(1) n(1)] n(2) by (metis option.inject)
    ultimately show "q \<in> ?P - {p}" by force
  next
    fix q assume "q \<in> ?P - {p}"
    then obtain n where n: "(n, q) \<in> set (m_Players s)" "q \<noteq> p" by auto
    then have "n \<noteq> name"
      using assms by (auto simp: registry_wf_def dest: eq_key_imp_eq_value)
    with n show "q \<in> snd ` {e \<in> set (m_Players s). fst e \<noteq> name}" by force
  qed
  with set show ?thesis by simp
qed

lemma registry_wf_remove:
  assumes "registry_wf s" "(name, p) \<in> set (m_Players s)"
  shows "registry_wf (s\<lparr>m_OccupiedIndices := (m_OccupiedIndices s)[index_of s p := False],
       m_Players := AList.delete name (m_Players s)\<rparr>)" (is "registry_wf ?s")
proof -
  let ?P = "snd ` set (m_Players s)"
  have set: "set (AList.delete name (m_Players s)) = {e \<in> set (m_Players s). fst e \<noteq> name}"
    using assms(1) by (intro set_delete_distinct) (simp add: registry_wf_def)
  have "snd ` {e \<in> set (m_Players s). fst e \<noteq> name} = ?P - {p}"
    using delete_refs [OF assms] by (simp add: set)
  moreover have "inj_on (index_of s) (?P - {p})"
      "index_of s ` (?P - {p}) = used_indices (clear_slot (index_of s p) (m_OccupiedIndices s))"
  proof -
    have wf: "bitset_ok (m_OccupiedIndices s)" "inj_on (index_of s) ?P"
      "index_of s ` ?P = used_indices (m_OccupiedIndices s)"
      using assms(1) by (simp_all add: registry_wf_def)
    have "p \<in> ?P" using assms(2) by force
    from slots.free_keeps_inj [OF wf this] show "inj_on (index_of s) (?P - {p})"
      "index_of s ` (?P - {p}) = used_indices (clear_slot (index_of s p) (m_OccupiedIndices s))"
      by simp_all
  qed
  moreover have "index_of ?s = index_of s" by (simp add: index_of_def fun_eq_iff)
  moreover have "distinct (map fst (AList.delete name (m_Players s)))"
    using assms(1) by (simp add: registry_wf_def distinct_delete)
  ultimately show ?thesis
    using assms(1) by (auto simp: registry_wf_def set clear_slot_def bitset_ok_def)
qed

lemma registry_wf_RemovePlayer [wf_intros]:
  assumes "registry_wf s" "RemovePlayer name s = Inr s'"
  shows "registry_wf s'"
proof (cases "World_GetPlayer name s")
  case None
  with assms show ?thesis by (simp add: RemovePlayer_def)
next
  case (Some p)
  then have p: "(name, p) \<in> set (m_Players s)"
    by (simp add: World_GetPlayer_def map_of_SomeD)
  let ?s = "s\<lparr>m_OccupiedIndices := (m_OccupiedIndices s)[index_of s p := False],
       m_Players := AList.delete name (m_Players s)\<rparr>"
  have s': "s' = release_players [p] ?s" using assms RemovePlayer_eq [OF assms(1) p] by simp
  show ?thesis
    by (rule registry_wf_cong [OF _ _ _ registry_wf_remove [OF assms(1) p]])
      (use release_players_frame [of "[p]" ?s] release_players_keeps [of _ ?s "[p]"] in \<open>simp_all add: rooted_def s'\<close>)
qed

section \<open>Registration\<close>

lemma GetFreeIndex_cases:
  assumes "bitset_ok occupied"
  obtains (full) "GetFreeIndex occupied = (-1, occupied)" "used_indices occupied = {..<MAX_PLAYERS}"
  | (slot) i where "GetFreeIndex occupied = (word_of_nat i, occupied[i := True])"
      "free_slot occupied = (Some i, occupied[i := True])" "i < MAX_PLAYERS" "i \<notin> used_indices occupied"
proof -
  obtain r occ where r: "free_slot occupied = (r, occ)" by fastforce
  show ?thesis
  proof (cases r)
    case None
    with r slots.alloc_none [OF assms] have "used_indices occupied = {..<MAX_PLAYERS}" "occ = occupied" by auto
    moreover from None r this(2) have "GetFreeIndex occupied = (-1, occupied)"
      by (auto simp: free_slot_def split: prod.splits if_splits)
    ultimately show ?thesis by (intro full)
  next
    case (Some i)
    with r slots.alloc_some [OF assms] have i: "i < MAX_PLAYERS" "i \<notin> used_indices occupied" by auto
    from Some r have "occ = occupied[i := True]"
      by (auto simp: free_slot_spec Let_def split: if_splits)
    moreover from Some r obtain w where "GetFreeIndex occupied = (w, occ)" "i = unat w"
      by (auto simp: free_slot_def split: prod.splits if_splits)
    ultimately show ?thesis using i r Some by (intro slot [of i]) simp_all
  qed
qed

text \<open>The state right before \<open>Login\<close>, for a player whose name is not registered.\<close>

definition enter_player :: "ref \<Rightarrow> Player \<Rightarrow> nat \<Rightarrow> System \<Rightarrow> System" where
  "enter_player p pl i s =
     (put_player p (pl\<lparr>m_Index := word_of_nat i\<rparr>) s)
       \<lparr>m_OccupiedIndices := (m_OccupiedIndices s)[i := True],
        m_Players := AList.update (m_Username pl) p (m_Players s)\<rparr>"

lemma put_player_upd [simp]:
  "put_player p x (s\<lparr>m_OccupiedIndices := occ\<rparr>) = (put_player p x s)\<lparr>m_OccupiedIndices := occ\<rparr>"
  "put_player p x (s\<lparr>m_Players := m\<rparr>) = (put_player p x s)\<lparr>m_Players := m\<rparr>"
  "put_client c y (s\<lparr>m_OccupiedIndices := occ\<rparr>) = (put_client c y s)\<lparr>m_OccupiedIndices := occ\<rparr>"
  "put_client c y (s\<lparr>m_Players := m\<rparr>) = (put_client c y s)\<lparr>m_Players := m\<rparr>"
  by (simp_all add: put_player_def put_client_def)

lemma RegisterPlayer_full:
  "GetFreeIndex (m_OccupiedIndices s) = (-1, m_OccupiedIndices s) \<Longrightarrow> RegisterPlayer p s = Inr s"
  by (simp add: RegisterPlayer_def)

lemma RegisterPlayer_slot:
  assumes "heap_at (players s) p = Some pl" "map_of (m_Players s) (m_Username pl) = None"
    and "GetFreeIndex (m_OccupiedIndices s) = (word_of_nat i, (m_OccupiedIndices s)[i := True])" "i < MAX_PLAYERS"
  shows "RegisterPlayer p s = Login p (enter_player p pl i s)"
proof -
  have "(word_of_nat i :: i32) \<noteq> -1" using index_word [OF assms(4)] by simp
  with assms show ?thesis
    by (simp add: RegisterPlayer_def on_player_eq [of _ _ pl] deref_def at_put_player SetIndex_def
        enter_player_def)
qed

lemma update_fresh: "k \<notin> fst ` set al \<Longrightarrow> AList.update k v al = al @ [(k, v)]"
  by (induction al) auto

lemma registry_wf_enter:
  assumes "registry_wf s" "heap_at (players s) p = Some pl" "m_Username pl \<notin> fst ` set (m_Players s)"
    and "free_slot (m_OccupiedIndices s) = (Some i, (m_OccupiedIndices s)[i := True])" "i < MAX_PLAYERS"
  shows "registry_wf (enter_player p pl i s)" (is "registry_wf ?s")
proof -
  let ?P = "snd ` set (m_Players s)"
  have p: "p \<notin> ?P"
    using registry_name [OF assms(1) _ assms(2)] assms(3) by force
  have upd: "AList.update (m_Username pl) p (m_Players s) = m_Players s @ [(m_Username pl, p)]"
    using assms(3) by (rule update_fresh)
  have at: "heap_at (players ?s) q = (if q = p then Some (pl\<lparr>m_Index := word_of_nat i\<rparr>) else heap_at (players s) q)"
    for q
    using assms(2) by (simp add: enter_player_def at_put_player)
  have "index_of ?s = (index_of s)(p := i)"
    using index_word [OF assms(5)] by (auto simp: index_of_def at fun_eq_iff)
  moreover have "inj_on ((index_of s)(p := i)) (insert p ?P)"
      "((index_of s)(p := i)) ` insert p ?P = used_indices ((m_OccupiedIndices s)[i := True])"
  proof -
    have wf: "bitset_ok (m_OccupiedIndices s)" "inj_on (index_of s) ?P"
      "index_of s ` ?P = used_indices (m_OccupiedIndices s)"
      using assms(1) by (simp_all add: registry_wf_def)
    from slots.alloc_keeps_inj [OF wf(1) assms(4) wf(2,3) p]
    show "inj_on ((index_of s)(p := i)) (insert p ?P)"
      "((index_of s)(p := i)) ` insert p ?P = used_indices ((m_OccupiedIndices s)[i := True])"
      by simp_all
  qed
  moreover have entry: "\<exists>pl'. heap_at (players ?s) q = Some pl' \<and> m_Username pl' = name \<and>
      unat (m_Index pl') < MAX_PLAYERS"
    if "(name, q) \<in> set (m_Players s) \<or> (name, q) = (m_Username pl, p)" for name q
    using that
  proof
    assume mem: "(name, q) \<in> set (m_Players s)"
    then have "q \<noteq> p" using p by force
    with registry_entry [OF assms(1) mem] show ?thesis by (metis at)
  next
    assume "(name, q) = (m_Username pl, p)"
    then show ?thesis using index_word [OF assms(5)] assms(5) by (simp add: at)
  qed
  moreover have pls: "m_Players ?s = m_Players s @ [(m_Username pl, p)]"
    "m_OccupiedIndices ?s = (m_OccupiedIndices s)[i := True]"
    by (simp_all add: enter_player_def upd)
  moreover have "\<forall>(name, q)\<in>set (m_Players ?s). \<exists>pl'. heap_at (players ?s) q = Some pl' \<and> m_Username pl' = name \<and>
      unat (m_Index pl') < MAX_PLAYERS"
    using entry unfolding pls by auto
  ultimately show ?thesis
    using assms(1,3) by (simp add: registry_wf_def bitset_ok_def)
qed

text \<open>Logging in changes neither the registry nor the names and indices of players.\<close>

lemma player_ok_enter:
  assumes "player_ok p pl x s"
  shows "player_ok p (pl\<lparr>m_Index := word_of_nat i\<rparr>) x (enter_player p pl i s)"
  using assms by (auto simp: player_ok_def enter_player_def at_put_player)

lemma registry_wf_login:
  assumes "registry_wf s" "heap_at (players s) p = Some pl"
  shows "registry_wf (put_client c y (put_player p (logged_in_player pl) s))"
  by (rule registry_wf_cong [OF _ _ _ assms(1)])
    (use assms(2) in \<open>auto simp: at_put_player logged_in_player_def\<close>)

lemma RegisterPlayer_eq:
  assumes "registry_wf s" "player_ok p pl x s" "World_GetPlayer (m_Username pl) s = None"
  obtains (full) "RegisterPlayer p s = Inr s" "used_indices (m_OccupiedIndices s) = {..<MAX_PLAYERS}"
  | (slot) i where "free_slot (m_OccupiedIndices s) = (Some i, (m_OccupiedIndices s)[i := True])"
      "i < MAX_PLAYERS"
      "RegisterPlayer p s = Inr (put_client (m_Client pl) (emits (login_packets (m_Position pl)) x)
         (put_player p (logged_in_player (pl\<lparr>m_Index := word_of_nat i\<rparr>)) (enter_player p pl i s)))"
      "registry_wf (put_client (m_Client pl) (emits (login_packets (m_Position pl)) x)
         (put_player p (logged_in_player (pl\<lparr>m_Index := word_of_nat i\<rparr>)) (enter_player p pl i s)))"
proof -
  have ok: "bitset_ok (m_OccupiedIndices s)" using assms(1) by (simp add: registry_wf_def)
  have pl: "heap_at (players s) p = Some pl" using assms(2) by (simp add: player_ok_def)
  from ok show ?thesis
  proof (cases rule: GetFreeIndex_cases)
    case full
    with that(1) show ?thesis by (simp add: RegisterPlayer_full)
  next
    case (slot i)
    note ok' = player_ok_enter [OF assms(2), of i]
    have "RegisterPlayer p s = Login p (enter_player p pl i s)"
      by (rule RegisterPlayer_slot) (use assms(3) pl slot in \<open>simp_all add: World_GetPlayer_def\<close>)
    moreover have "registry_wf (enter_player p pl i s)"
      using assms(3) slot by (intro registry_wf_enter [OF assms(1) pl])
        (simp_all add: World_GetPlayer_def map_of_eq_None_iff)
    from registry_wf_login [OF this] ok'
    have "registry_wf (put_client (m_Client pl) (emits (login_packets (m_Position pl)) x)
         (put_player p (logged_in_player (pl\<lparr>m_Index := word_of_nat i\<rparr>)) (enter_player p pl i s)))"
      by (simp add: player_ok_def)
    ultimately show ?thesis
      using Login_eq [OF ok'] slot by (intro that(2) [of i]) simp_all
  qed
qed

section \<open>Properties\<close>

text \<open>
  C24: registering a player with a live client, under a name that is not registered. Run without an overlapping step of
  the game thread, it never faults, although a comment at its call in the login says that it crashes, and
  keeps the registry invariant (live players under their own names, pairwise different indices, and
  exactly their indices occupied). If all 2048 indices are taken, nothing changes; otherwise the
  player gets the lowest free index, which becomes occupied, and is found under its name, and every
  other name is looked up as before.
\<close>

theorem register_player:
  assumes "registry_wf s" "player_ok p pl x s" "World_GetPlayer (m_Username pl) s = None"
  shows "\<exists>s'. RegisterPlayer p s = Inr s' \<and> registry_wf s' \<and>
    (if used_indices (m_OccupiedIndices s) = {..<2048} then s' = s
     else \<exists>i pl'. i < 2048 \<and> i \<notin> used_indices (m_OccupiedIndices s) \<and>
       {..<i} \<subseteq> used_indices (m_OccupiedIndices s) \<and>
       used_indices (m_OccupiedIndices s') = insert i (used_indices (m_OccupiedIndices s)) \<and>
       heap_at (players s') p = Some pl' \<and> m_Index pl' = word_of_nat i \<and>
       (\<forall>n. World_GetPlayer n s' = (if n = m_Username pl then Some p else World_GetPlayer n s)))"
  using assms
proof (cases rule: RegisterPlayer_eq)
  case full
  with assms(1) show ?thesis by (simp add: MAX_PLAYERS_def)
next
  case (slot i)
  let ?s = "put_client (m_Client pl) (emits (login_packets (m_Position pl)) x)
    (put_player p (logged_in_player (pl\<lparr>m_Index := word_of_nat i\<rparr>)) (enter_player p pl i s))"
  have "bitset_ok (m_OccupiedIndices s)" using assms(1) by (simp add: registry_wf_def)
  note i = slots.alloc_some [OF this slot(1)]
  have "heap_at (players (enter_player p pl i s)) p = Some (pl\<lparr>m_Index := word_of_nat i\<rparr>)"
    using player_ok_enter [OF assms(2)] by (simp add: player_ok_def)
  then have "heap_at (players ?s) p = Some (logged_in_player (pl\<lparr>m_Index := word_of_nat i\<rparr>))"
    by (simp add: at_put_player)
  moreover have "World_GetPlayer n ?s = (if n = m_Username pl then Some p else World_GetPlayer n s)" for n
    by (simp add: World_GetPlayer_def enter_player_def update_conv')
  moreover have "used_indices (m_OccupiedIndices ?s) = insert i (used_indices (m_OccupiedIndices s))"
    using i by (simp add: enter_player_def)
  ultimately show ?thesis
    using slot i by (auto simp: MAX_PLAYERS_def logged_in_player_def intro!: exI [of _ i])
qed

lemma used_none: "used_indices (replicate n False) = {}"
  by (auto simp: used_indices_def)

lemma registry_one_player: "registry_wf one_player"
  by (simp add: registry_wf_def one_player_def bitset_ok_def MAX_PLAYERS_def used_none)

theorem register_player_witness:
  "\<exists>s' pl'. RegisterPlayer 0 one_player = Inr s' \<and> registry_wf s' \<and> World_GetPlayer ''bob'' s' = Some 0 \<and>
    heap_at (players s') 0 = Some pl' \<and> m_Index pl' = 0"
proof -
  have "World_GetPlayer (m_Username walker) one_player = None"
    by (simp add: World_GetPlayer_def one_player_def)
  note reg = register_player [OF registry_one_player one_player_ok this]
  have none: "used_indices (m_OccupiedIndices one_player) = {}"
    by (simp add: one_player_def used_none)
  have "{} \<noteq> {..<2048 :: nat}" by (metis lessThan_iff empty_iff zero_less_numeral)
  moreover have "{..<i} \<subseteq> {} \<longleftrightarrow> i = 0" for i :: nat by auto
  moreover have "m_Username walker = ''bob''" by (simp add: walker_def set_waypoints_def Player_new_def)
  ultimately show ?thesis using reg unfolding none by auto
qed

text \<open>
  C25: removing by name. It never faults and keeps the registry invariant, the name is no longer
  found, every other name is looked up as before, and exactly the index of the removed player
  becomes free. Removing a name that is not registered changes nothing.
\<close>

theorem remove_player:
  assumes "registry_wf s"
  shows "\<exists>s'. RemovePlayer name s = Inr s' \<and> registry_wf s' \<and>
    (\<forall>n. World_GetPlayer n s' = (if n = name then None else World_GetPlayer n s)) \<and>
    (case World_GetPlayer name s of
       None \<Rightarrow> s' = s
     | Some p \<Rightarrow> \<exists>pl. heap_at (players s) p = Some pl \<and>
         used_indices (m_OccupiedIndices s') = used_indices (m_OccupiedIndices s) - {unat (m_Index pl)})"
proof (cases "World_GetPlayer name s")
  case None
  with assms show ?thesis by (auto simp: RemovePlayer_def)
next
  case (Some p)
  then have p: "(name, p) \<in> set (m_Players s)"
    by (simp add: World_GetPlayer_def map_of_SomeD)
  with assms obtain pl where pl: "heap_at (players s) p = Some pl" "unat (m_Index pl) < MAX_PLAYERS"
    "index_of s p = unat (m_Index pl)"
    by (rule registry_entry)
  let ?s = "s\<lparr>m_OccupiedIndices := (m_OccupiedIndices s)[index_of s p := False],
       m_Players := AList.delete name (m_Players s)\<rparr>"
  note rem = RemovePlayer_eq [OF assms p]
  have "used_indices (m_OccupiedIndices ?s) = used_indices (m_OccupiedIndices s) - {unat (m_Index pl)}"
    using slots.free_used [OF _ pl(2), of "m_OccupiedIndices s"] assms
    by (simp add: registry_wf_def pl(3) clear_slot_def)
  then show ?thesis
    using rem registry_wf_RemovePlayer [OF assms rem] release_players_frame [of "[p]" ?s] Some pl(1)
    by (auto simp: World_GetPlayer_def delete_conv')
qed

theorem remove_player_witness:
  "\<exists>s s'. World_GetPlayer ''bob'' s = Some 0 \<and> RemovePlayer ''bob'' s = Inr s' \<and> registry_wf s' \<and>
    World_GetPlayer ''bob'' s' = None"
proof -
  have "World_GetPlayer (m_Username walker) one_player = None" "m_Username walker = ''bob''"
    by (simp_all add: World_GetPlayer_def one_player_def walker_def set_waypoints_def Player_new_def)
  moreover have "used_indices (m_OccupiedIndices one_player) \<noteq> {..<MAX_PLAYERS}"
    by (simp add: one_player_def used_none MAX_PLAYERS_def) (metis lessThan_iff empty_iff zero_less_numeral)
  ultimately obtain s where "registry_wf s" "World_GetPlayer ''bob'' s = Some 0"
    by (cases rule: RegisterPlayer_eq [OF registry_one_player one_player_ok])
      (auto simp: World_GetPlayer_def enter_player_def update_conv')
  with remove_player [of s "''bob''"] show ?thesis by auto
qed

end
