(* ===== verification/PlayerUpdating.thy ===== *)
theory PlayerUpdating
  imports World Util
begin

text \<open>
  \<open>src/src/PlayerUpdating.h\<close> and \<open>src/src/PlayerUpdating.cpp\<close>: the update packet that every player gets
  once per cycle. Its first part is a sequence of bit fields (movement of the player, movement of
  the players it sees, players that come into view), its second part a block of bytes with the
  appearance of those that need it.

  The order in which \<open>std::unordered_map\<close> enumerates the players of the world is the argument \<open>order\<close>.
\<close>

section \<open>Slots\<close>

definition EQUIPMENT_SLOT_HEAD :: nat where "EQUIPMENT_SLOT_HEAD = 0"
definition EQUIPMENT_SLOT_CAPE :: nat where "EQUIPMENT_SLOT_CAPE = 1"
definition EQUIPMENT_SLOT_AMULET :: nat where "EQUIPMENT_SLOT_AMULET = 2"
definition EQUIPMENT_SLOT_WEAPON :: nat where "EQUIPMENT_SLOT_WEAPON = 3"
definition EQUIPMENT_SLOT_CHEST :: nat where "EQUIPMENT_SLOT_CHEST = 4"
definition EQUIPMENT_SLOT_SHIELD :: nat where "EQUIPMENT_SLOT_SHIELD = 5"
definition EQUIPMENT_SLOT_LEGS :: nat where "EQUIPMENT_SLOT_LEGS = 7"
definition EQUIPMENT_SLOT_HANDS :: nat where "EQUIPMENT_SLOT_HANDS = 9"
definition EQUIPMENT_SLOT_FEET :: nat where "EQUIPMENT_SLOT_FEET = 10"
definition APPEARANCE_SLOT_CHEST :: nat where "APPEARANCE_SLOT_CHEST = 0"
definition APPEARANCE_SLOT_ARMS :: nat where "APPEARANCE_SLOT_ARMS = 1"
definition APPEARANCE_SLOT_LEGS :: nat where "APPEARANCE_SLOT_LEGS = 2"
definition APPEARANCE_SLOT_HEAD :: nat where "APPEARANCE_SLOT_HEAD = 3"
definition APPEARANCE_SLOT_HANDS :: nat where "APPEARANCE_SLOT_HANDS = 4"
definition APPEARANCE_SLOT_FEET :: nat where "APPEARANCE_SLOT_FEET = 5"
definition APPEARANCE_SLOT_BEARD :: nat where "APPEARANCE_SLOT_BEARD = 6"

section \<open>Movement\<close>

definition AppendStand :: "StreamBuffer \<Rightarrow> fault + StreamBuffer" where
  "AppendStand out = WriteBits 2 0 out"

definition AppendWalk :: "i32 \<Rightarrow> bool \<Rightarrow> StreamBuffer \<Rightarrow> fault + StreamBuffer" where
  "AppendWalk direction attributesUpdate out =
     foldR (\<lambda>w. w) [WriteBits 2 1, WriteBits 3 direction, WriteBit attributesUpdate] out"

definition AppendRun :: "i32 \<Rightarrow> i32 \<Rightarrow> bool \<Rightarrow> StreamBuffer \<Rightarrow> fault + StreamBuffer" where
  "AppendRun direction direction2 attributesUpdate out =
     foldR (\<lambda>w. w)
       [WriteBits 2 2, WriteBits 3 direction, WriteBits 3 direction2, WriteBit attributesUpdate] out"

definition AppendPlacement ::
  "i32 \<Rightarrow> i32 \<Rightarrow> i32 \<Rightarrow> bool \<Rightarrow> bool \<Rightarrow> StreamBuffer \<Rightarrow> fault + StreamBuffer" where
  "AppendPlacement localX localY z discardMovementQueue attributesUpdate out =
     foldR (\<lambda>w. w)
       [WriteBits 2 3, WriteBits 2 z, WriteBit discardMovementQueue, WriteBit attributesUpdate,
        WriteBits 7 localY, WriteBits 7 localX] out"

definition UpdateOtherPlayerMovement :: "Player \<Rightarrow> StreamBuffer \<Rightarrow> fault + StreamBuffer" where
  "UpdateOtherPlayerMovement pl out =
     (let updateRequired = NeedsUpdate pl;
          pDir = GetPrimaryDirection pl;
          sDir = GetSecondaryDirection pl
      in if pDir \<noteq> -1 then
           bindR (WriteBit True out)
             (if sDir \<noteq> -1 then AppendRun pDir sDir updateRequired else AppendWalk pDir updateRequired)
         else if updateRequired then bindR (WriteBit True out) AppendStand
         else WriteBit False out)"

text \<open>
  The last argument of the call of \<open>AppendPlacement\<close> is \<open>&updateRequired\<close>, a pointer converted to
  \<open>bool\<close>: it is always true.
\<close>

definition UpdateLocalPlayerMovement :: "Player \<Rightarrow> StreamBuffer \<Rightarrow> fault + StreamBuffer" where
  "UpdateLocalPlayerMovement pl out =
     (let updateRequired = NeedsUpdate pl
      in if NeedsUpdate_flag Flag_NeedsPlacement pl then
           bindR (WriteBit True out)
             (let posX = GetLocalX (GetPosition pl) (GetCurrentRegion pl);
                  posY = GetLocalY (GetPosition pl) (GetCurrentRegion pl)
              in AppendPlacement posX posY (GetZ (GetPosition pl)) (NeedsUpdate_flag Flag_ResetMovement pl) True)
         else
           (let pDir = GetPrimaryDirection pl; sDir = GetSecondaryDirection pl
            in if pDir \<noteq> -1 then
                 bindR (WriteBit True out)
                   (if sDir \<noteq> -1 then AppendRun pDir sDir updateRequired else AppendWalk pDir updateRequired)
               else if updateRequired then bindR (WriteBit True out) AppendStand
               else WriteBit False out))"

definition AddPlayer :: "Player \<Rightarrow> Player \<Rightarrow> StreamBuffer \<Rightarrow> fault + StreamBuffer" where
  "AddPlayer pl other out =
     foldR (\<lambda>w. w)
       [WriteBits 11 (GetIndex other), WriteBit True, WriteBit True,
        WriteBits 5 (GetY (GetPosition other) - GetY (GetPosition pl)),
        WriteBits 5 (GetX (GetPosition other) - GetX (GetPosition pl))] out"

section \<open>The attributes block\<close>

text \<open>
  The two alternatives of an equipment slot: the item worn, or else nothing or a part of the body.
\<close>

definition write_item :: "Player \<Rightarrow> nat \<Rightarrow> (StreamBuffer \<Rightarrow> fault + StreamBuffer) \<Rightarrow>
    StreamBuffer \<Rightarrow> fault + StreamBuffer" where
  "write_item pl slot otherwise block =
     (if GetEquipment pl ! slot > 1
      then WriteShort0 (0x200 + GetEquipment pl ! slot) block
      else otherwise block)"

definition write_body :: "Player \<Rightarrow> nat \<Rightarrow> StreamBuffer \<Rightarrow> fault + StreamBuffer" where
  "write_body pl slot = WriteShort0 (0x100 + GetAppearance pl ! slot)"

definition AppendAppearance :: "Player \<Rightarrow> StreamBuffer \<Rightarrow> fault + StreamBuffer" where
  "AppendAppearance pl out =
     (let byte = WriteByte0;
          short = WriteShort0;
          nothing = byte 0
      in bindR (foldR (\<lambda>w. w)
           ([byte 0, byte 0] @
            (if GetNPCCosplayId pl = -1
             then
               [write_item pl EQUIPMENT_SLOT_HEAD nothing,
                write_item pl EQUIPMENT_SLOT_CAPE nothing,
                write_item pl EQUIPMENT_SLOT_AMULET nothing,
                write_item pl EQUIPMENT_SLOT_WEAPON nothing,
                write_item pl EQUIPMENT_SLOT_CHEST (write_body pl APPEARANCE_SLOT_CHEST),
                write_item pl EQUIPMENT_SLOT_SHIELD nothing,
                write_item pl EQUIPMENT_SLOT_CHEST (write_body pl APPEARANCE_SLOT_ARMS),
                write_item pl EQUIPMENT_SLOT_LEGS (write_body pl APPEARANCE_SLOT_LEGS),
                write_body pl APPEARANCE_SLOT_HEAD,
                write_item pl EQUIPMENT_SLOT_HANDS (write_body pl APPEARANCE_SLOT_HANDS),
                write_item pl EQUIPMENT_SLOT_FEET (write_body pl APPEARANCE_SLOT_FEET),
                write_body pl APPEARANCE_SLOT_BEARD]
             else [short (-1), short (GetNPCCosplayId pl)]) @
            [byte (GetColors pl ! 0), byte (GetColors pl ! 1), byte (GetColors pl ! 2),
             byte (GetColors pl ! 3), byte (GetColors pl ! 4),
             short 0x328, short 0x337, short 0x333, short 0x334, short 0x335, short 0x336, short 0x338,
             WriteLong_i32 (ucast (PlayerNameToInt64 (GetUsername pl))), byte 3, short 0])
           (StreamBuffer_sized 128)) (\<lambda>block.
         bindR (WriteByte (word_of_nat (StreamBuffer_Position block)) VT_C out) (WriteBytes block)))"

text \<open>The argument \<open>noChat\<close> is not used by the code.\<close>

definition UpdateState :: "Player \<Rightarrow> bool \<Rightarrow> bool \<Rightarrow> StreamBuffer \<Rightarrow> fault + StreamBuffer" where
  "UpdateState pl forceAppearance noChat block =
     (let mask = (0 :: i32);
          mask = (if NeedsUpdate_flag Flag_Appearance pl \<or> forceAppearance then mask OR 0x10 else mask)
      in bindR
           (if sint mask \<ge> 0x100 then WriteShortO (mask OR 0x40) LITTLE block
            else WriteByte0 mask block)
           (if NeedsUpdate_flag Flag_Appearance pl \<or> forceAppearance then AppendAppearance pl else Inr))"

section \<open>The packet\<close>

text \<open>
  The loop over the local players: \<open>kept\<close> are those before the iterator, the list argument those from
  the iterator on. A player out of sight is erased from the list, which drops the pointer to it.
\<close>

primrec local_loop :: "ref \<Rightarrow> ref list \<Rightarrow> ref list \<Rightarrow> StreamBuffer \<times> StreamBuffer \<times> System \<Rightarrow>
    fault + StreamBuffer \<times> StreamBuffer \<times> System" where
  "local_loop p kept [] st = Inr st"
| "local_loop p kept (q # rest) st =
     (let (out, block, s) = st
      in bindR (deref (players s) p) (\<lambda>pl.
         bindR (deref (players s) q) (\<lambda>other.
           if IsViewableFrom (GetPosition other) (GetPosition pl) \<and>
              \<not> NeedsUpdate_flag Flag_NeedsPlacement other
           then
             bindR (UpdateOtherPlayerMovement other out) (\<lambda>out.
             bindR (if NeedsUpdate other then UpdateState other False False block else Inr block) (\<lambda>block.
             local_loop p (kept @ [q]) rest (out, block, s)))
           else
             bindR (WriteBit True out) (\<lambda>out.
             bindR (WriteBits 2 3 out) (\<lambda>out.
             local_loop p kept rest
               (out, block,
                release_players [q] (put_player p (pl\<lparr>m_LocalPlayers := kept @ rest\<rparr>) s)))))))"

text \<open>The loop over the players of the world.\<close>

primrec add_loop :: "ref \<Rightarrow> (string \<times> ref) list \<Rightarrow> StreamBuffer \<times> StreamBuffer \<times> System \<Rightarrow>
    fault + StreamBuffer \<times> StreamBuffer \<times> System" where
  "add_loop p [] st = Inr st"
| "add_loop p (e # order) st =
     (let (out, block, s) = st; q = snd e
      in bindR (deref (players s) p) (\<lambda>pl.
           if length (GetLocalPlayers pl) \<ge> 255 then Inr st
           else if q = p then add_loop p order st
           else
             bindR (deref (players s) q) (\<lambda>other.
               if q \<notin> set (GetLocalPlayers pl) \<and> IsViewableFrom (GetPosition other) (GetPosition pl)
               then
                 let s = put_player p (pl\<lparr>m_LocalPlayers := GetLocalPlayers pl @ [q]\<rparr>) s
                 in bindR (AddPlayer pl other out) (\<lambda>out.
                    bindR (UpdateState other True False block) (\<lambda>block.
                    add_loop p order (out, block, s)))
               else add_loop p order st)))"

text \<open>What follows the second loop up to the frame: the block is appended to the bits.\<close>

definition append_block :: "StreamBuffer \<Rightarrow> StreamBuffer \<Rightarrow> fault + StreamBuffer" where
  "append_block block out =
     (if StreamBuffer_Position block > 0
      then bindR (WriteBits 11 2047 out) (\<lambda>out. bindR (SetAccessType BYTE_ACCESS out) (WriteBytes block))
      else SetAccessType BYTE_ACCESS out)"

definition UpdatePlayer :: "(string \<times> ref) list \<Rightarrow> ref \<Rightarrow> System \<Rightarrow> fault + System" where
  "UpdatePlayer order p s =
     bindR (deref (players s) p) (\<lambda>pl.
     case GetClient pl s of
       None \<Rightarrow> Inl NullPointer
     | Some c \<Rightarrow>
       bindR (deref (clients s) c) (\<lambda>x.
       bindR (deref_cipher (GetEncryptor x)) (\<lambda>e.
       bindR (WriteHeader 81 e HS_SHORT (StreamBuffer_sized 2048)) (\<lambda>(out, e).
       let s = put_client c (x\<lparr>m_Encryptor := Some e\<rparr>) s
       in bindR (SetAccessType BIT_ACCESS out) (\<lambda>out.
          bindR (UpdateLocalPlayerMovement pl out) (\<lambda>out.
          bindR (if NeedsUpdate pl then UpdateState pl False True (StreamBuffer_sized 1024)
                 else Inr (StreamBuffer_sized 1024)) (\<lambda>block.
          bindR (WriteBits 8 (word_of_nat (length (GetLocalPlayers pl))) out) (\<lambda>out.
          bindR (local_loop p [] (GetLocalPlayers pl) (out, block, s)) (\<lambda>(out, block, s).
          bindR (deref (players s) p) (\<lambda>pl.
          if length (GetLocalPlayers pl) \<ge> 255 then Inr s
          else
            bindR (add_loop p order (out, block, s)) (\<lambda>(out, block, s).
            bindR (append_block block out) (\<lambda>out.
            bindR (FinishVariableHeader out) (\<lambda>out.
            with_client p (\<lambda>c. on_client c (Send out)) s)))))))))))))"

definition Update :: "(string \<times> ref) list \<Rightarrow> ref list \<Rightarrow> System \<Rightarrow> fault + System" where
  "Update order ps s = foldR (UpdatePlayer order) ps s"

end
