(* ===== verification/Update_Packet.thy ===== *)
theory Update_Packet
  imports PlayerUpdating
begin

text \<open>
  The parts of the update packet of \<open>PlayerUpdating\<close>: each function that writes bits is the
  writing of a list of fields, and each function that writes to the attributes block appends a
  list of bytes.
\<close>

section \<open>Bit fields\<close>

definition write_fields :: "(nat \<times> i32) list \<Rightarrow> StreamBuffer \<Rightarrow> fault + StreamBuffer" where
  "write_fields fs = foldR (\<lambda>(n, v). WriteBits n v) fs"

definition fields_ok :: "(nat \<times> i32) list \<Rightarrow> bool" where
  "fields_ok fs \<longleftrightarrow> (\<forall>(n, v)\<in>set fs. 1 \<le> n \<and> n \<le> 32)"

definition flag_field :: "bool \<Rightarrow> nat \<times> i32" where
  "flag_field b = (1, if b then 1 else 0)"

definition movement_fields :: "Player \<Rightarrow> (nat \<times> i32) list" where
  "movement_fields pl =
     (let p = m_PrimaryDirection pl; s = m_SecondaryDirection pl; u = NeedsUpdate pl
      in if p \<noteq> -1
         then (if s \<noteq> -1 then [(1, 1), (2, 2), (3, p), (3, s), flag_field u]
               else [(1, 1), (2, 1), (3, p), flag_field u])
         else if u then [(1, 1), (2, 0)] else [(1, 0)])"

definition placement_fields :: "Player \<Rightarrow> (nat \<times> i32) list" where
  "placement_fields pl =
     [(1, 1), (2, 3), (2, pos_z (m_Position pl)), flag_field (NeedsUpdate_flag Flag_ResetMovement pl),
      (1, 1), (7, GetLocalY (m_Position pl) (m_CurrentRegion pl)),
      (7, GetLocalX (m_Position pl) (m_CurrentRegion pl))]"

definition local_fields :: "Player \<Rightarrow> (nat \<times> i32) list" where
  "local_fields pl =
     (if NeedsUpdate_flag Flag_NeedsPlacement pl then placement_fields pl else movement_fields pl)"

definition removal_fields :: "(nat \<times> i32) list" where
  "removal_fields = [(1, 1), (2, 3)]"

definition add_fields :: "Player \<Rightarrow> Player \<Rightarrow> (nat \<times> i32) list" where
  "add_fields pl other =
     [(11, m_Index other), (1, 1), (1, 1), (5, pos_y (m_Position other) - pos_y (m_Position pl)),
      (5, pos_x (m_Position other) - pos_x (m_Position pl))]"

lemma foldR_fun: "foldR f [] = Inr" "foldR f (x # xs) = (\<lambda>s. bindR (f x s) (foldR f xs))"
  by (simp_all add: fun_eq_iff)

lemmas append_defs = AppendStand_def [abs_def] AppendWalk_def [abs_def] AppendRun_def [abs_def]
  AppendPlacement_def [abs_def] WriteBit_def
  flag_field_def foldR_fun

lemma UpdateOtherPlayerMovement_fields:
  "UpdateOtherPlayerMovement pl out = write_fields (movement_fields pl) out"
  by (simp add: UpdateOtherPlayerMovement_def write_fields_def movement_fields_def append_defs Let_def)

lemma UpdateLocalPlayerMovement_fields:
  "UpdateLocalPlayerMovement pl out = write_fields (local_fields pl) out"
  by (simp add: UpdateLocalPlayerMovement_def write_fields_def local_fields_def placement_fields_def
      movement_fields_def append_defs Let_def)

lemma AddPlayer_fields: "AddPlayer pl other out = write_fields (add_fields pl other) out"
  by (simp add: AddPlayer_def write_fields_def add_fields_def WriteBit_def foldR_fun)

lemma removal_write: "bindR (WriteBit True out) (WriteBits 2 3) = write_fields removal_fields out"
  by (simp add: write_fields_def removal_fields_def WriteBit_def foldR_fun)

lemma fields_ok_simps [simp]:
  "fields_ok []" "fields_ok ((n, v) # fs) \<longleftrightarrow> 1 \<le> n \<and> n \<le> 32 \<and> fields_ok fs"
  "fields_ok (fs @ gs) \<longleftrightarrow> fields_ok fs \<and> fields_ok gs"
  by (auto simp: fields_ok_def)

lemma fields_ok_all [simp]:
  "fields_ok (movement_fields pl)" "fields_ok (local_fields pl)" "fields_ok removal_fields"
  "fields_ok (add_fields pl other)"
  by (simp_all add: movement_fields_def local_fields_def placement_fields_def removal_fields_def
      add_fields_def flag_field_def Let_def)

text \<open>
  A buffer in bit access, at a fixed byte position and with a fixed frame. Writing bits keeps all
  of that, so the contract of a sink of bits holds for it.
\<close>

definition bit_mode :: "nat \<Rightarrow> nat \<Rightarrow> VariableHeaderSize \<Rightarrow> StreamBuffer \<Rightarrow> bool" where
  "bit_mode pos frame hs b \<longleftrightarrow>
     bits_wf b \<and> bits_clean b \<and> m_AccessType b = BIT_ACCESS \<and> m_Pos b = pos \<and> m_FrameSize b = frame \<and>
     m_HeaderSize b = hs"

lemma bit_mode_WriteBits:
  assumes "bit_mode pos frame hs b" "1 \<le> n" "n \<le> 32" "length (written_bits b) + n + 7 < 2 ^ 31"
  shows "\<exists>b'. WriteBits n v b = Inr b' \<and> bit_mode pos frame hs b' \<and>
    written_bits b' = written_bits b @ to_bits n v"
proof -
  from assms(1) have wf: "bits_wf b" "bits_clean b" by (simp_all add: bit_mode_def)
  obtain b' where b': "WriteBits n v b = Inr b'" "bits_wf b'" "written_bits b' = written_bits b @ to_bits n v"
    "m_Pos b' = m_Pos b" "m_AccessType b' = m_AccessType b" "m_FrameSize b' = m_FrameSize b"
    "m_HeaderSize b' = m_HeaderSize b"
    using WriteBits_eq [OF wf(1) assms(2-4) [unfolded length_written_bits], of v] by blast
  with bits_clean_WriteBits [OF wf assms(2,3) b'(1)] assms(1) show ?thesis
    by (auto simp: bit_mode_def)
qed

interpretation packet_bits: bit_sink WriteBits written_bits "bit_mode pos frame hs" for pos frame hs
  by unfold_locales (rule bit_mode_WriteBits)

lemma write_fields_eq:
  assumes "bit_mode pos frame hs b" "fields_ok fs" "length (written_bits b) + length (enc_fields fs) + 7 < 2 ^ 31"
  obtains b' where "write_fields fs b = Inr b'" "bit_mode pos frame hs b'"
    "written_bits b' = written_bits b @ enc_fields fs"
  using packet_bits.wr_fields [OF assms(1), of fs] assms(2,3) unfolding write_fields_def fields_ok_def by blast

section \<open>The attributes block\<close>

definition byte_mode :: "StreamBuffer \<Rightarrow> bool" where
  "byte_mode b \<longleftrightarrow> stream_wf b \<and> m_AccessType b = BYTE_ACCESS"

lemma byte_mode_put [simp]: "byte_mode b \<Longrightarrow> byte_mode (put_bytes xs b)"
  by (simp add: byte_mode_def stream_wf_put_bytes)

lemma byte_mode_pos: "byte_mode b \<Longrightarrow> m_Pos b = length (written b)"
  by (simp add: byte_mode_def stream_wf_def written_def)

text \<open>
  A writer appends given bytes to every buffer in byte access that has room for them; so does a sequence of writers.
\<close>

definition writes :: "(StreamBuffer \<Rightarrow> fault + StreamBuffer) \<Rightarrow> i8 list \<Rightarrow> bool" where
  "writes w xs \<longleftrightarrow>
     (\<forall>b. m_AccessType b = BYTE_ACCESS \<longrightarrow> m_Pos b + length xs < 2 ^ 31 \<longrightarrow> w b = Inr (put_bytes xs b))"

lemma writes_foldR:
  "list_all2 writes ws xss \<Longrightarrow> writes (foldR (\<lambda>w. w) ws) (concat xss)"
proof (induction rule: list_all2_induct)
  case (Cons w ws xs xss)
  show ?case
    unfolding writes_def
  proof (intro allI impI)
    fix b :: StreamBuffer
    assume "m_AccessType b = BYTE_ACCESS" "m_Pos b + length (concat (xs # xss)) < 2 ^ 31"
    then have "m_AccessType b = BYTE_ACCESS" "m_Pos b + length xs < 2 ^ 31"
      "m_Pos (put_bytes xs b) + length (concat xss) < 2 ^ 31" by simp_all
    with Cons show "foldR (\<lambda>w. w) (w # ws) b = Inr (put_bytes (concat (xs # xss)) b)"
      by (simp add: writes_def put_bytes_append)
  qed
qed (simp add: writes_def)

lemma writes_basic:
  "writes (WriteByte v VT_STANDARD) [ucast v]"
  "writes (WriteShort v VT_STANDARD BIG) (enc_short VT_STANDARD BIG v)"
  "writes (WriteLong_i32 v) (enc_long VT_STANDARD BIG (scast v))"
  by (simp_all add: writes_def WriteByte_eq enc_value_standard WriteShort_eq WriteLong_i32_def WriteLong_eq)

definition item_bytes :: "Player \<Rightarrow> nat \<Rightarrow> i8 list \<Rightarrow> i8 list" where
  "item_bytes pl slot otherwise =
     (if m_Equipment pl ! slot > 1 then enc_short VT_STANDARD BIG (0x200 + m_Equipment pl ! slot) else otherwise)"

definition body_bytes :: "Player \<Rightarrow> nat \<Rightarrow> i8 list" where
  "body_bytes pl slot = enc_short VT_STANDARD BIG (0x100 + m_Appearance pl ! slot)"

lemma writes_item:
  "writes w xs \<Longrightarrow> writes (write_item pl slot w) (item_bytes pl slot xs)"
  "writes (write_body pl slot) (body_bytes pl slot)"
  by (simp_all add: writes_def write_item_def item_bytes_def write_body_def body_bytes_def WriteShort_eq)

definition look_bytes :: "Player \<Rightarrow> i8 list list" where
  "look_bytes pl =
     (if m_NPCCosplayId pl = -1
      then
        [item_bytes pl EQUIPMENT_SLOT_HEAD [0], item_bytes pl EQUIPMENT_SLOT_CAPE [0],
         item_bytes pl EQUIPMENT_SLOT_AMULET [0], item_bytes pl EQUIPMENT_SLOT_WEAPON [0],
         item_bytes pl EQUIPMENT_SLOT_CHEST (body_bytes pl APPEARANCE_SLOT_CHEST),
         item_bytes pl EQUIPMENT_SLOT_SHIELD [0],
         item_bytes pl EQUIPMENT_SLOT_CHEST (body_bytes pl APPEARANCE_SLOT_ARMS),
         item_bytes pl EQUIPMENT_SLOT_LEGS (body_bytes pl APPEARANCE_SLOT_LEGS),
         body_bytes pl APPEARANCE_SLOT_HEAD,
         item_bytes pl EQUIPMENT_SLOT_HANDS (body_bytes pl APPEARANCE_SLOT_HANDS),
         item_bytes pl EQUIPMENT_SLOT_FEET (body_bytes pl APPEARANCE_SLOT_FEET),
         body_bytes pl APPEARANCE_SLOT_BEARD]
      else [[-1, -1], enc_short VT_STANDARD BIG (m_NPCCosplayId pl)])"

text \<open>The seven movement animations.\<close>

definition animations :: "i32 list" where
  "animations = [0x328, 0x337, 0x333, 0x334, 0x335, 0x336, 0x338]"

definition appearance_parts :: "Player \<Rightarrow> i8 list list" where
  "appearance_parts pl =
     [[0], [0]] @ look_bytes pl @ map (\<lambda>i. [ucast (m_Colors pl ! i)]) [0, 1, 2, 3, 4] @
     map (enc_short VT_STANDARD BIG) animations @
     [enc_long VT_STANDARD BIG (scast (ucast (PlayerNameToInt64 (m_Username pl)) :: i32)), [3], [0, 0]]"

definition appearance_bytes :: "Player \<Rightarrow> i8 list" where
  "appearance_bytes pl = concat (appearance_parts pl)"

lemma length_appearance: "length (appearance_bytes pl) \<le> 56"
  by (simp add: appearance_bytes_def appearance_parts_def look_bytes_def item_bytes_def body_bytes_def
      animations_def)

lemma enc_short_const: "enc_short VT_STANDARD BIG 0 = [0, 0]" "enc_short VT_STANDARD BIG (-1) = [-1, -1]"
proof -
  have "byte_at 8 (-1 :: i32) = -1" by (rule bit_word_eqI) (simp add: byte_at_def bit_simps)
  moreover have "(ucast (-1 :: i32) :: i8) = -1" by (rule bit_word_eqI) (simp add: bit_simps)
  ultimately show "enc_short VT_STANDARD BIG 0 = [0, 0]" "enc_short VT_STANDARD BIG (-1) = [-1, -1]"
    by (simp_all add: enc_short_def enc_value_def byte_at_def)
qed

lemma sint_of_nat_small: "n < 2 ^ 31 \<Longrightarrow> sint (word_of_nat n :: i32) = int n"
  by (simp add: signed_of_nat signed_take_bit_int_eq_self_iff order_trans [OF _ of_nat_0_le_iff])

lemma ucast8_of_nat: "(ucast (word_of_nat n :: i32) :: i8) = word_of_nat n"
  by (simp add: unsigned_of_nat word_of_nat_eq_iff)

lemma AppendAppearance_eq:
  assumes "byte_mode out" "length (written out) + 57 < 2 ^ 31"
  shows "\<exists>out'. AppendAppearance pl out = Inr out' \<and> byte_mode out' \<and>
    written out' = written out @ (- word_of_nat (length (appearance_bytes pl))) # appearance_bytes pl"
proof -
  let ?byte = "\<lambda>v. WriteByte v VT_STANDARD" and ?short = "\<lambda>v. WriteShort v VT_STANDARD BIG"
  have zero: "writes (?byte 0) [0]" using writes_basic(1) [of 0] by simp
  have look: "list_all2 writes
      (if m_NPCCosplayId pl = -1
       then
         [write_item pl EQUIPMENT_SLOT_HEAD (?byte 0), write_item pl EQUIPMENT_SLOT_CAPE (?byte 0),
          write_item pl EQUIPMENT_SLOT_AMULET (?byte 0), write_item pl EQUIPMENT_SLOT_WEAPON (?byte 0),
          write_item pl EQUIPMENT_SLOT_CHEST (write_body pl APPEARANCE_SLOT_CHEST),
          write_item pl EQUIPMENT_SLOT_SHIELD (?byte 0),
          write_item pl EQUIPMENT_SLOT_CHEST (write_body pl APPEARANCE_SLOT_ARMS),
          write_item pl EQUIPMENT_SLOT_LEGS (write_body pl APPEARANCE_SLOT_LEGS),
          write_body pl APPEARANCE_SLOT_HEAD,
          write_item pl EQUIPMENT_SLOT_HANDS (write_body pl APPEARANCE_SLOT_HANDS),
          write_item pl EQUIPMENT_SLOT_FEET (write_body pl APPEARANCE_SLOT_FEET),
          write_body pl APPEARANCE_SLOT_BEARD]
       else [?short (-1), ?short (m_NPCCosplayId pl)]) (look_bytes pl)"
    using zero writes_basic(2) [of "-1"]
    by (simp add: look_bytes_def writes_item writes_basic enc_short_const)
  have const: "writes (?byte 3) [3]" "writes (?short 0) [0, 0]"
    using writes_basic(1) [of 3] writes_basic(2) [of 0] by (simp_all add: enc_short_const)
  obtain block where block: "block = put_bytes (appearance_bytes pl) (StreamBuffer_sized 128)" by blast
  have "AppendAppearance pl out = bindR (WriteByte (word_of_nat (m_Pos block)) VT_C out) (WriteBytes block)"
  proof -
    have head: "list_all2 writes [?byte 0, ?byte 0] [[0], [0]]" using zero by simp
    have tail: "list_all2 writes
        [?byte (m_Colors pl ! 0), ?byte (m_Colors pl ! 1), ?byte (m_Colors pl ! 2), ?byte (m_Colors pl ! 3),
         ?byte (m_Colors pl ! 4), ?short 0x328, ?short 0x337, ?short 0x333, ?short 0x334, ?short 0x335,
         ?short 0x336, ?short 0x338, WriteLong_i32 (ucast (PlayerNameToInt64 (m_Username pl))), ?byte 3, ?short 0]
        (map (\<lambda>i. [ucast (m_Colors pl ! i)]) [0, 1, 2, 3, 4] @ map (enc_short VT_STANDARD BIG) animations @
         [enc_long VT_STANDARD BIG (scast (ucast (PlayerNameToInt64 (m_Username pl)) :: i32)), [3], [0, 0]])"
      by (simp add: const writes_basic animations_def)
    have small: "length (concat (appearance_parts pl)) < 2 ^ 31"
      using length_appearance [of pl] by (simp add: appearance_bytes_def)
    have "writes (foldR (\<lambda>w. w) ws) (concat xss) \<Longrightarrow> length (concat xss) < 2 ^ 31 \<Longrightarrow>
        foldR (\<lambda>w. w) ws (StreamBuffer_sized 128) = Inr (put_bytes (concat xss) (StreamBuffer_sized 128))" for ws xss
      by (simp add: writes_def)
    note run = this [OF writes_foldR [OF list_all2_appendI [OF head list_all2_appendI [OF look tail]]]
        small [unfolded appearance_parts_def]]
    show ?thesis
      unfolding AppendAppearance_def Let_def block appearance_bytes_def appearance_parts_def run bindR.simps
      by (rule refl)
  qed
  moreover have "stream_wf block" "m_Pos block = length (appearance_bytes pl)" "written block = appearance_bytes pl"
    by (simp_all add: block stream_wf_put_bytes stream_wf_sized written_put_bytes)
  moreover have "byte_mode (put_byte x out)" for x
    using assms byte_mode_put [of out "[x]"] by simp
  moreover have "value_fits VT_C (word_of_nat (length (appearance_bytes pl)))"
    using length_appearance [of pl] by (intro value_fits_small) (simp add: sint_of_nat_small)
  moreover have "m_Pos out + 57 < 2 ^ 31" using assms byte_mode_pos by simp
  ultimately show ?thesis
    using assms(1) length_appearance [of pl]
      WriteBytes_eq [of "put_byte (- word_of_nat (length (appearance_bytes pl))) out" block]
    by (auto simp: byte_mode_def WriteByte_eq enc_value_def written_put_byte ucast8_of_nat)
qed

definition state_bytes :: "bool \<Rightarrow> Player \<Rightarrow> i8 list" where
  "state_bytes force pl =
     (if NeedsUpdate_flag Flag_Appearance pl \<or> force
      then 16 # (- word_of_nat (length (appearance_bytes pl))) # appearance_bytes pl else [0])"

lemma length_state_bytes: "length (state_bytes force pl) \<le> 58" "state_bytes force pl \<noteq> []"
  using length_appearance [of pl] by (simp_all add: state_bytes_def)

lemma UpdateState_eq:
  assumes "byte_mode block" "length (written block) + 58 < 2 ^ 31"
  obtains block' where "UpdateState pl force noChat block = Inr block'" "byte_mode block'"
    "written block' = written block @ state_bytes force pl"
proof -
  have wf: "stream_wf block" "m_AccessType block = BYTE_ACCESS" "m_Pos block + 58 < 2 ^ 31"
    using assms byte_mode_pos [OF assms(1)] by (simp_all add: byte_mode_def)
  have bm: "byte_mode (put_byte x block)" for x using byte_mode_put [OF assms(1), of "[x]"] by simp
  have room: "length (written (put_byte x block)) + 57 < 2 ^ 31" for x
    using assms(2) wf(1) by (simp add: written_put_byte)
  show ?thesis
  proof (cases "NeedsUpdate_flag Flag_Appearance pl \<or> force")
    case True
    from AppendAppearance_eq [OF bm room, of pl 16] obtain out' where
      "AppendAppearance pl (put_byte 16 block) = Inr out'" "byte_mode out'"
      "written out' = written (put_byte 16 block) @ (- word_of_nat (length (appearance_bytes pl))) # appearance_bytes pl"
      by blast
    with True wf show ?thesis
      by (intro that [of out']) (simp_all add: UpdateState_def WriteByte_eq enc_value_def state_bytes_def
          written_put_byte)
  next
    case False
    with wf show ?thesis
      by (intro that [of "put_byte 0 block"]) (simp_all add: UpdateState_def WriteByte_eq enc_value_def
          state_bytes_def written_put_byte bm)
  qed
qed

end
