(* ===== verification/Update_Loops.thy ===== *)
theory Update_Loops
  imports Update_Packet
begin

text \<open>
  The loops of \<open>PlayerUpdating::UpdatePlayer\<close>: what they write and the list of local players they leave,
  in terms of the players kept, dropped and added; and the joining of header, bits and block.
\<close>

section \<open>The loop over the local players\<close>

definition look :: "System \<Rightarrow> ref \<Rightarrow> Player" where
  "look s q = (case heap_at (players s) q of Some x \<Rightarrow> x | None \<Rightarrow> Player_new [] 0)"

definition stays :: "Player \<Rightarrow> Player \<Rightarrow> bool" where
  "stays pl other \<longleftrightarrow>
     IsViewableFrom (m_Position other) (m_Position pl) \<and> \<not> NeedsUpdate_flag Flag_NeedsPlacement other"

definition seen_fields :: "Player \<Rightarrow> Player \<Rightarrow> (nat \<times> i32) list" where
  "seen_fields pl other = (if stays pl other then movement_fields other else removal_fields)"

definition seen_bytes :: "Player \<Rightarrow> Player \<Rightarrow> i8 list" where
  "seen_bytes pl other = (if stays pl other \<and> NeedsUpdate other then state_bytes False other else [])"

text \<open>
  Everything but players: dropping pointers and changing the local list of a player leaves it alone.
\<close>

definition same_rest :: "System \<Rightarrow> System \<Rightarrow> bool" where
  "same_rest s t \<longleftrightarrow>
     clients t = clients s \<and> m_Players t = m_Players s \<and> m_OccupiedIndices t = m_OccupiedIndices s \<and>
     m_Sessions t = m_Sessions s \<and> m_Running t = m_Running s \<and> playerList t = playerList s \<and>
     length (players t) = length (players s)"

lemma same_rest_refl [simp]: "same_rest s s"
  by (simp add: same_rest_def)

lemma same_rest_trans: "same_rest s t \<Longrightarrow> same_rest t u \<Longrightarrow> same_rest s u"
  by (simp add: same_rest_def)

lemma refs_ok_put_local:
  assumes "refs_ok s" "heap_at (players s) p = Some pl"
    and "\<forall>q\<in>set qs. alive q s"
  shows "refs_ok (put_player p (pl\<lparr>m_LocalPlayers := qs\<rparr>) s)"
  using assms unfolding refs_ok_def alive_def by (auto simp: at_put_player)

lemma release_keeps_owned:
  assumes "heap_at (players s) p = Some pl" "rooted p s" "q \<in> set (m_LocalPlayers pl)"
  shows "heap_at (players (release_players ps s)) q = heap_at (players s) q"
  using assms
proof (induction ps s rule: release_players.induct)
  case (2 r ps s)
  have "owned q s" "owned p s" using 2 by (auto simp: owned_iff)
  then have ne: "q \<noteq> r" "p \<noteq> r" if "\<not> owned r s" using that by auto
  show ?case
  proof (cases "heap_at (players s) r = None \<or> owned r s")
    case True
    with 2 show ?thesis by (auto simp: release_players.simps split: option.splits)
  next
    case False
    then obtain x where x: "heap_at (players s) r = Some x" by auto
    let ?s = "s\<lparr>players := (players s)[r := None]\<rparr>"
    have "heap_at (players ?s) p = Some pl" "heap_at (players ?s) q = heap_at (players s) q"
      using ne False 2(4) by (simp_all add: heap_at_update)
    with 2(3) [OF x] 2(5,6) False x show ?thesis by (simp add: release_players.simps)
  qed
qed (simp add: release_players.simps)

text \<open>Erasing a player from the list of a registered player.\<close>

lemma erase_local:
  fixes q :: ref
  assumes "refs_ok s" "heap_at (players s) p = Some pl" "rooted p s"
    and "set qs \<subseteq> set (m_LocalPlayers pl)"
  defines "s' \<equiv> release_players [q] (put_player p (pl\<lparr>m_LocalPlayers := qs\<rparr>) s)"
  shows "refs_ok s'" "same_rest s s'"
    "heap_at (players s') p = Some (pl\<lparr>m_LocalPlayers := qs\<rparr>)"
    "r \<noteq> p \<Longrightarrow> r \<in> set qs \<or> rooted r s \<Longrightarrow> heap_at (players s') r = heap_at (players s) r"
    "r \<noteq> p \<Longrightarrow> heap_at (players s') r = Some x \<Longrightarrow> heap_at (players s) r = Some x"
proof -
  let ?t = "put_player p (pl\<lparr>m_LocalPlayers := qs\<rparr>) s"
  have at: "heap_at (players ?t) r = (if r = p then Some (pl\<lparr>m_LocalPlayers := qs\<rparr>) else heap_at (players s) r)"
    for r using assms(2) by (simp add: at_put_player)
  have "\<forall>q\<in>set qs. alive q s" using assms(1,2,4) by (force simp: refs_ok_def)
  then have "refs_ok ?t" by (rule refs_ok_put_local [OF assms(1,2)])
  then show "refs_ok s'" unfolding s'_def by (rule refs_ok_release)
  show "same_rest s s'"
    using release_players_frame [of "[q]" ?t] by (simp add: same_rest_def s'_def)
  have p: "rooted p ?t" using assms(3) by simp
  show "heap_at (players s') p = Some (pl\<lparr>m_LocalPlayers := qs\<rparr>)"
    unfolding s'_def using release_players_keeps [OF p] by (simp add: at)
  show "heap_at (players s') r = heap_at (players s) r"
    if "r \<noteq> p" "r \<in> set qs \<or> rooted r s"
    using that release_players_keeps [of r ?t "[q]"] release_keeps_owned [of ?t p _ r "[q]"] p
    unfolding s'_def by (auto simp: at)
  show "heap_at (players s) r = Some x" if "r \<noteq> p" "heap_at (players s') r = Some x"
    using release_players_at [of "[q]" ?t r x] that by (simp add: s'_def at)
qed

lemma stays_local [simp]:
  "stays (pl\<lparr>m_LocalPlayers := qs\<rparr>) other = stays pl other"
  "seen_fields (pl\<lparr>m_LocalPlayers := qs\<rparr>) other = seen_fields pl other"
  "seen_bytes (pl\<lparr>m_LocalPlayers := qs\<rparr>) other = seen_bytes pl other"
  by (simp_all add: stays_def seen_fields_def seen_bytes_def)

lemma look_at [simp]: "heap_at (players s) q = Some x \<Longrightarrow> look s q = x"
  by (simp add: look_def)

text \<open>
  What a loop of \<open>UpdatePlayer\<close> leaves behind: the bits and bytes it wrote, the new list of local
  players, and no change to any other player that the world or this player refers to.
\<close>

definition loop_result :: "ref \<Rightarrow> Player \<Rightarrow> (nat \<times> i32) list \<Rightarrow> i8 list \<Rightarrow> ref list \<Rightarrow>
    StreamBuffer \<times> StreamBuffer \<times> System \<Rightarrow> StreamBuffer \<times> StreamBuffer \<times> System \<Rightarrow> bool" where
  "loop_result p pl fs bs locals st st' \<longleftrightarrow>
     (let (out, block, s) = st; (out', block', s') = st'
      in (\<forall>pos frame hs. bit_mode pos frame hs out \<longrightarrow> bit_mode pos frame hs out') \<and>
         byte_mode block' \<and> written_bits out' = written_bits out @ enc_fields fs \<and>
         written block' = written block @ bs \<and> refs_ok s' \<and> same_rest s s' \<and>
         heap_at (players s') p = Some (pl\<lparr>m_LocalPlayers := locals\<rparr>) \<and>
         (\<forall>r. r \<noteq> p \<longrightarrow> r \<in> set locals \<or> rooted r s \<longrightarrow>
            heap_at (players s') r = heap_at (players s) r) \<and>
         (\<forall>r x. r \<noteq> p \<longrightarrow> heap_at (players s') r = Some x \<longrightarrow> heap_at (players s) r = Some x))"

lemma length_fields:
  "length (enc_fields (movement_fields pl)) \<le> 10" "length (enc_fields (local_fields pl)) \<le> 21"
  "length (enc_fields (seen_fields pl other)) \<le> 10" "length (enc_fields (add_fields pl other)) = 23"
  by (simp_all add: movement_fields_def local_fields_def placement_fields_def seen_fields_def
      removal_fields_def add_fields_def flag_field_def Let_def)

lemma length_removal: "length (enc_fields removal_fields) = 3"
  by (simp add: removal_fields_def)

lemma write_fields_mode:
  assumes "bit_mode pos frame hs b" "fields_ok fs" "length (written_bits b) + length (enc_fields fs) + 7 < 2 ^ 31"
  obtains b' where "write_fields fs b = Inr b'" "\<forall>pos frame hs. bit_mode pos frame hs b \<longrightarrow> bit_mode pos frame hs b'"
    "bit_mode pos frame hs b'" "written_bits b' = written_bits b @ enc_fields fs"
proof -
  obtain b' where b': "write_fields fs b = Inr b'" "bit_mode pos frame hs b'"
    "written_bits b' = written_bits b @ enc_fields fs"
    using write_fields_eq [OF assms] .
  moreover have "\<forall>pos frame hs. bit_mode pos frame hs b \<longrightarrow> bit_mode pos frame hs b'"
    using assms(1) b'(2) by (simp add: bit_mode_def)
  ultimately show ?thesis using that by blast
qed

lemma loop_result_refl:
  assumes "refs_ok s" "heap_at (players s) p = Some pl" "m_LocalPlayers pl = locals" "byte_mode block"
  shows "loop_result p pl [] [] locals (out, block, s) (out, block, s)"
proof -
  have "pl\<lparr>m_LocalPlayers := locals\<rparr> = pl" using assms(3) by simp
  with assms show ?thesis by (simp add: loop_result_def)
qed

lemma loop_result_step:
  assumes "loop_result p (pl\<lparr>m_LocalPlayers := mid\<rparr>) fs bs locals (out1, block1, s1) st'"
    and "\<forall>pos frame hs. bit_mode pos frame hs out \<longrightarrow> bit_mode pos frame hs out1"
    and "written_bits out1 = written_bits out @ enc_fields f" "written block1 = written block @ b"
    and "same_rest s s1"
    and "\<forall>r. r \<noteq> p \<longrightarrow> r \<in> set locals \<or> rooted r s \<longrightarrow>
      heap_at (players s1) r = heap_at (players s) r"
    and "\<forall>r x. r \<noteq> p \<longrightarrow> heap_at (players s1) r = Some x \<longrightarrow> heap_at (players s) r = Some x"
  shows "loop_result p pl (f @ fs) (b @ bs) locals (out, block, s) st'"
proof -
  obtain out' block' s' where st': "st' = (out', block', s')" by (cases st')
  have pls: "rooted r s1 = rooted r s" for r using assms(5) by (simp add: same_rest_def rooted_def)
  note r = assms(1) [unfolded loop_result_def st' Let_def prod.case pls]
  from r have r1: "same_rest s1 s'" "\<forall>r. r \<noteq> p \<longrightarrow> r \<in> set locals \<or> rooted r s \<longrightarrow>
      heap_at (players s') r = heap_at (players s1) r"
    "\<forall>r x. r \<noteq> p \<longrightarrow> heap_at (players s') r = Some x \<longrightarrow> heap_at (players s1) r = Some x"
    by - (elim conjE, assumption)+
  from r have r2: "\<forall>pos frame hs. bit_mode pos frame hs out1 \<longrightarrow> bit_mode pos frame hs out'" "byte_mode block'"
    "written_bits out' = written_bits out1 @ enc_fields fs" "written block' = written block1 @ bs" "refs_ok s'"
    "heap_at (players s') p = Some (pl\<lparr>m_LocalPlayers := mid, m_LocalPlayers := locals\<rparr>)"
    by - (elim conjE, assumption)+
  show ?thesis
    unfolding loop_result_def st' Let_def prod.case
  proof (intro conjI allI impI)
    show "same_rest s s'" by (rule same_rest_trans [OF assms(5) r1(1)])
    show "bit_mode pos frame hs out'" if "bit_mode pos frame hs out" for pos frame hs
      using r2(1) assms(2) that by blast
    show "heap_at (players s') r = heap_at (players s) r"
      if "r \<noteq> p" "r \<in> set locals \<or> rooted r s" for r
      using r1(2) [rule_format, OF that] assms(6) [rule_format, OF that] by simp
    show "heap_at (players s) r = Some x" if "r \<noteq> p" "heap_at (players s') r = Some x" for r x
      using r1(3) assms(7) that by blast
  qed (use r2 assms(3,4) in simp_all)
qed

lemma local_loop_eq:
  assumes "refs_ok s" "heap_at (players s) p = Some pl" "rooted p s"
    and "m_LocalPlayers pl = kept @ rest" "p \<notin> set rest" "bit_mode pos frame hs out" "byte_mode block"
    and "length (written_bits out) + 10 * length rest + 7 < 2 ^ 31" "length (written block) + 58 * length rest < 2 ^ 31"
  shows "\<exists>st'. local_loop p kept rest (out, block, s) = Inr st' \<and>
    loop_result p pl (concat (map (\<lambda>q. seen_fields pl (look s q)) rest))
      (concat (map (\<lambda>q. seen_bytes pl (look s q)) rest))
      (kept @ filter (\<lambda>q. stays pl (look s q)) rest) (out, block, s) st'"
  using assms
proof (induction rest arbitrary: kept out block s pl)
  case Nil
  then show ?case using loop_result_refl by simp
next
  case (Cons q rest)
  have "alive q s" using Cons.prems(1,2,4) by (force simp: refs_ok_def)
  then obtain other where other: "heap_at (players s) q = Some other" by (auto simp: alive_def)
  have dp: "deref (players s) p = Inr pl" "deref (players s) q = Inr other"
    using Cons.prems(2) other by simp_all
  have ne: "p \<noteq> q" "p \<notin> set rest" using Cons.prems(5) by auto
  have room: "length (written_bits out) + length (enc_fields (movement_fields other)) + 7 < 2 ^ 31"
    "length (written_bits out) + length (enc_fields removal_fields) + 7 < 2 ^ 31" "length (written block) + 58 < 2 ^ 31"
    using Cons.prems(8,9) length_fields(1) [of other] length_removal by simp_all
  show ?case
  proof (cases "stays pl other")
    case True
    obtain out1 where out1: "UpdateOtherPlayerMovement other out = Inr out1"
      "\<forall>pos frame hs. bit_mode pos frame hs out \<longrightarrow> bit_mode pos frame hs out1" "bit_mode pos frame hs out1"
      "written_bits out1 = written_bits out @ enc_fields (movement_fields other)"
      using write_fields_mode [OF Cons.prems(6) fields_ok_all(1) room(1)] UpdateOtherPlayerMovement_fields by metis
    obtain block1 where block1: "(if NeedsUpdate other then UpdateState other False False block else Inr block) = Inr block1"
      "byte_mode block1" "written block1 = written block @ seen_bytes pl other"
    proof (cases "NeedsUpdate other")
      case need: True
      obtain block1 where "UpdateState other False False block = Inr block1" "byte_mode block1"
        "written block1 = written block @ state_bytes False other"
        using UpdateState_eq [OF Cons.prems(7) room(3)] .
      with need True show ?thesis by (intro that [of block1]) (simp_all add: seen_bytes_def)
    next
      case False
      with Cons.prems(7) show ?thesis by (intro that [of block]) (simp_all add: seen_bytes_def)
    qed
    have "m_LocalPlayers pl = (kept @ [q]) @ rest" using Cons.prems(4) by simp
    moreover have "length (written_bits out1) + 10 * length rest + 7 < 2 ^ 31" "length (written block1) + 58 * length rest < 2 ^ 31"
      using Cons.prems(8,9) length_fields(1) [of other] length_state_bytes(1) [of False other]
      unfolding out1(4) block1(3) by (simp_all add: seen_bytes_def)
    ultimately obtain st' where
      st': "local_loop p (kept @ [q]) rest (out1, block1, s) = Inr st'"
      "loop_result p pl (concat (map (\<lambda>q. seen_fields pl (look s q)) rest))
        (concat (map (\<lambda>q. seen_bytes pl (look s q)) rest))
        ((kept @ [q]) @ filter (\<lambda>q. stays pl (look s q)) rest) (out1, block1, s) st'"
      using Cons.IH [OF Cons.prems(1-3) _ ne(2) out1(3) block1(2)] by blast
    have "pl\<lparr>m_LocalPlayers := m_LocalPlayers pl\<rparr> = pl" by simp
    with st'(2) have "loop_result p (pl\<lparr>m_LocalPlayers := m_LocalPlayers pl\<rparr>)
        (concat (map (\<lambda>q. seen_fields pl (look s q)) rest))
        (concat (map (\<lambda>q. seen_bytes pl (look s q)) rest))
        ((kept @ [q]) @ filter (\<lambda>q. stays pl (look s q)) rest) (out1, block1, s) st'"
      by simp
    note res = loop_result_step [OF this out1(2) out1(4) block1(3) same_rest_refl]
    have "local_loop p kept (q # rest) (out, block, s) = Inr st'"
      using True st'(1) by (simp add: dp out1(1) block1(1) stays_def del: deref_eq)
    with res True other show ?thesis by (auto simp: seen_fields_def)
  next
    case False
    let ?s = "release_players [q] (put_player p (pl\<lparr>m_LocalPlayers := kept @ rest\<rparr>) s)"
    obtain out1 where out1: "write_fields removal_fields out = Inr out1"
      "\<forall>pos frame hs. bit_mode pos frame hs out \<longrightarrow> bit_mode pos frame hs out1" "bit_mode pos frame hs out1"
      "written_bits out1 = written_bits out @ enc_fields removal_fields"
      using write_fields_mode [OF Cons.prems(6) fields_ok_all(3) room(2)] by metis
    have room1: "length (written_bits out1) + 10 * length rest + 7 < 2 ^ 31" "length (written block) + 58 * length rest < 2 ^ 31"
      using Cons.prems(8,9) unfolding out1(4) by (simp_all add: length_removal)
    have "set (kept @ rest) \<subseteq> set (m_LocalPlayers pl)" using Cons.prems(4) by auto
    note er = erase_local [OF Cons.prems(1-3) this, where q = q]
    have reg: "rooted p ?s" using Cons.prems(3) er(2) by (simp add: same_rest_def rooted_def)
    have looks: "look ?s r = look s r" if "r \<in> set rest" for r
    proof -
      have "r \<noteq> p" using that ne(2) by auto
      with er(4) [of r] that show ?thesis by (simp add: look_def)
    qed
    have maps: "map (\<lambda>q. f (look ?s q)) rest = map (\<lambda>q. f (look s q)) rest"
      "filter (\<lambda>q. g (look ?s q)) rest = filter (\<lambda>q. g (look s q)) rest" for f g
      using looks by (auto intro: filter_cong)
    have "m_LocalPlayers (pl\<lparr>m_LocalPlayers := kept @ rest\<rparr>) = kept @ rest" by simp
    from Cons.IH [OF er(1,3) reg this ne(2) out1(3) Cons.prems(7) room1] obtain st' where
      st': "local_loop p kept rest (out1, block, ?s) = Inr st'"
      "loop_result p (pl\<lparr>m_LocalPlayers := kept @ rest\<rparr>) (concat (map (\<lambda>q. seen_fields pl (look s q)) rest))
        (concat (map (\<lambda>q. seen_bytes pl (look s q)) rest))
        (kept @ filter (\<lambda>q. stays pl (look s q)) rest) (out1, block, ?s) st'"
      unfolding stays_local maps by blast
    have bits: "bindR (WriteBit True out) (\<lambda>out. bindR (WriteBits 2 3 out) k) = k out1" for k
      using out1(1) by (simp add: removal_write [symmetric] bindR_assoc [symmetric] fault_simps)
        (metis bindR.simps(2) bindR_assoc)
    have "local_loop p kept (q # rest) (out, block, s) = Inr st'"
      using False st'(1) by (auto simp: dp bits stays_def simp del: deref_eq)
    moreover have "loop_result p pl (removal_fields @ concat (map (\<lambda>q. seen_fields pl (look s q)) rest))
        ([] @ concat (map (\<lambda>q. seen_bytes pl (look s q)) rest))
        (kept @ filter (\<lambda>q. stays pl (look s q)) rest) (out, block, s) st'"
    proof (rule loop_result_step [OF st'(2) out1(2,4) _ er(2)])
      show "\<forall>r. r \<noteq> p \<longrightarrow> r \<in> set (kept @ filter (\<lambda>q. stays pl (look s q)) rest) \<or> rooted r s \<longrightarrow>
          heap_at (players ?s) r = heap_at (players s) r"
      proof (intro allI impI)
        fix r assume "r \<noteq> p" "r \<in> set (kept @ filter (\<lambda>q. stays pl (look s q)) rest) \<or> rooted r s"
        then show "heap_at (players ?s) r = heap_at (players s) r" by (intro er(4)) auto
      qed
      show "\<forall>r x. r \<noteq> p \<longrightarrow> heap_at (players ?s) r = Some x \<longrightarrow> heap_at (players s) r = Some x"
        using er(5) by blast
    qed simp
    ultimately show ?thesis
      using False other by (auto simp: seen_fields_def seen_bytes_def)
  qed
qed

section \<open>The loop over the players of the world\<close>

definition in_view :: "Player \<Rightarrow> Player \<Rightarrow> bool" where
  "in_view pl other \<longleftrightarrow> IsViewableFrom (m_Position other) (m_Position pl)"

text \<open>
  The players that come into view: those of the world that are not yet in the list, in the order
  of the iteration, as long as there are fewer than 255 in the list.
\<close>

definition newcomers :: "ref \<Rightarrow> Player \<Rightarrow> System \<Rightarrow> ref list \<Rightarrow> ref list" where
  "newcomers p pl s qs =
     take (255 - length (m_LocalPlayers pl))
       (filter (\<lambda>q. q \<noteq> p \<and> q \<notin> set (m_LocalPlayers pl) \<and> in_view pl (look s q)) qs)"

lemma in_view_local [simp]:
  "in_view (pl\<lparr>m_LocalPlayers := qs\<rparr>) other = in_view pl other"
  "add_fields (pl\<lparr>m_LocalPlayers := qs\<rparr>) other = add_fields pl other"
  by (simp_all add: in_view_def add_fields_def)

lemma newcomers_skip:
  "q = p \<or> q \<in> set (m_LocalPlayers pl) \<or> \<not> in_view pl (look s q) \<Longrightarrow>
   newcomers p pl s (q # qs) = newcomers p pl s qs"
  by (auto simp: newcomers_def)

lemma newcomers_add:
  assumes "q \<noteq> p" "q \<notin> set (m_LocalPlayers pl)" "in_view pl (look s q)" "q \<notin> set qs"
    and "length (m_LocalPlayers pl) < 255" "\<And>r. r \<noteq> p \<Longrightarrow> look s1 r = look s r"
  shows "newcomers p pl s (q # qs) = q # newcomers p (pl\<lparr>m_LocalPlayers := m_LocalPlayers pl @ [q]\<rparr>) s1 qs"
proof -
  have "filter (\<lambda>r. r \<noteq> p \<and> r \<notin> set (m_LocalPlayers pl @ [q]) \<and> in_view pl (look s1 r)) qs =
      filter (\<lambda>r. r \<noteq> p \<and> r \<notin> set (m_LocalPlayers pl) \<and> in_view pl (look s r)) qs"
    using assms(4,6) by (intro filter_cong) auto
  moreover have "255 - length (m_LocalPlayers pl) = Suc (255 - length (m_LocalPlayers pl @ [q]))"
    using assms(5) by simp
  ultimately show ?thesis
    using assms(1-3) by (simp add: newcomers_def del: length_append)
qed

lemma newcomers_subset: "r \<in> set (newcomers p pl s qs) \<Longrightarrow> r \<in> set qs \<and> r \<noteq> p"
  by (auto simp: newcomers_def dest: in_set_takeD)

lemma add_loop_eq:
  assumes "refs_ok s" "heap_at (players s) p = Some pl" "\<forall>q\<in>snd ` set order. alive q s"
    and "distinct (map snd order)" "bit_mode pos frame hs out" "byte_mode block"
    and "length (written_bits out) + 23 * (255 - length (m_LocalPlayers pl)) + 7 < 2 ^ 31"
    and "length (written block) + 58 * (255 - length (m_LocalPlayers pl)) < 2 ^ 31"
  shows "\<exists>st'. add_loop p order (out, block, s) = Inr st' \<and>
    loop_result p pl (concat (map (\<lambda>q. add_fields pl (look s q)) (newcomers p pl s (map snd order))))
      (concat (map (\<lambda>q. state_bytes True (look s q)) (newcomers p pl s (map snd order))))
      (m_LocalPlayers pl @ newcomers p pl s (map snd order)) (out, block, s) st'"
  using assms
proof (induction order arbitrary: out block s pl)
  case Nil
  then show ?case using loop_result_refl by (simp add: newcomers_def)
next
  case (Cons e order)
  let ?q = "snd e"
  have dp: "deref (players s) p = Inr pl" using Cons.prems(2) by simp
  obtain other where other: "heap_at (players s) ?q = Some other" "deref (players s) ?q = Inr other"
    using Cons.prems(3) by (auto simp: alive_def)
  have rest: "\<forall>q\<in>snd ` set order. alive q s" "distinct (map snd order)" "?q \<notin> set (map snd order)"
    using Cons.prems(3,4) by auto
  consider (full) "length (m_LocalPlayers pl) \<ge> 255"
    | (skip) "length (m_LocalPlayers pl) < 255"
        "?q = p \<or> ?q \<in> set (m_LocalPlayers pl) \<or> \<not> in_view pl (look s ?q)"
    | (new) "length (m_LocalPlayers pl) < 255" "?q \<noteq> p" "?q \<notin> set (m_LocalPlayers pl)" "in_view pl (look s ?q)"
    by linarith
  then show ?case
  proof cases
    case full
    then have "newcomers p pl s (map snd (e # order)) = []" by (simp add: newcomers_def)
    with full Cons.prems loop_result_refl show ?thesis by (auto simp: dp Let_def simp del: deref_eq)
  next
    case skip
    from Cons.IH [OF Cons.prems(1,2) rest(1,2) Cons.prems(5-8)] obtain st' where
      "add_loop p order (out, block, s) = Inr st'"
      "loop_result p pl (concat (map (\<lambda>q. add_fields pl (look s q)) (newcomers p pl s (map snd order))))
        (concat (map (\<lambda>q. state_bytes True (look s q)) (newcomers p pl s (map snd order))))
        (m_LocalPlayers pl @ newcomers p pl s (map snd order)) (out, block, s) st'"
      by blast
    moreover have "add_loop p (e # order) (out, block, s) = add_loop p order (out, block, s)"
      using skip other by (auto simp: dp Let_def in_view_def simp del: deref_eq)
    ultimately show ?thesis using newcomers_skip [OF skip(2)] by simp
  next
    case new
    let ?pl = "pl\<lparr>m_LocalPlayers := m_LocalPlayers pl @ [?q]\<rparr>"
    let ?s = "put_player p ?pl s"
    have at: "heap_at (players ?s) r = (if r = p then Some ?pl else heap_at (players s) r)" for r
      using Cons.prems(2) by (simp add: at_put_player)
    have looks: "look ?s r = look s r" if "r \<noteq> p" for r using that by (simp add: look_def at)
    have "alive ?q s" using Cons.prems(3) by simp
    with Cons.prems(1,2) have refs: "refs_ok ?s"
      by (intro refs_ok_put_local) (auto simp: refs_ok_def)
    have live: "\<forall>q\<in>snd ` set order. alive q ?s"
      using rest(1) by (auto simp: alive_def at)
    have room: "length (written_bits out) + length (enc_fields (add_fields pl other)) + 7 < 2 ^ 31"
      "length (written block) + 58 < 2 ^ 31"
      using Cons.prems(7,8) new(1) by (simp_all add: length_fields(4))
    obtain out1 where out1: "AddPlayer pl other out = Inr out1"
      "\<forall>pos frame hs. bit_mode pos frame hs out \<longrightarrow> bit_mode pos frame hs out1" "bit_mode pos frame hs out1"
      "written_bits out1 = written_bits out @ enc_fields (add_fields pl other)"
      using write_fields_mode [OF Cons.prems(5) fields_ok_all(4) room(1)] AddPlayer_fields by metis
    obtain block1 where block1: "UpdateState other True False block = Inr block1" "byte_mode block1"
      "written block1 = written block @ state_bytes True other"
      using UpdateState_eq [OF Cons.prems(6) room(2)] .
    have room1: "length (written_bits out1) + 23 * (255 - length (m_LocalPlayers ?pl)) + 7 < 2 ^ 31"
      "length (written block1) + 58 * (255 - length (m_LocalPlayers ?pl)) < 2 ^ 31"
      using Cons.prems(7,8) new(1) length_state_bytes(1) [of True other]
      unfolding out1(4) block1(3) by (simp_all add: length_fields(4))
    have at_p: "heap_at (players ?s) p = Some ?pl" by (simp add: at)
    obtain st' where st': "add_loop p order (out1, block1, ?s) = Inr st'"
      "loop_result p ?pl (concat (map (\<lambda>q. add_fields ?pl (look ?s q)) (newcomers p ?pl ?s (map snd order))))
        (concat (map (\<lambda>q. state_bytes True (look ?s q)) (newcomers p ?pl ?s (map snd order))))
        (m_LocalPlayers ?pl @ newcomers p ?pl ?s (map snd order)) (out1, block1, ?s) st'"
      using Cons.IH [OF refs at_p live rest(2) out1(3) block1(2) room1] by blast
    have nc: "newcomers p pl s (map snd (e # order)) = ?q # newcomers p ?pl ?s (map snd order)"
      using newcomers_add [OF new(2-4) rest(3) new(1) looks] by simp
    have "map (\<lambda>q. f (look ?s q)) (newcomers p ?pl ?s (map snd order)) =
        map (\<lambda>q. f (look s q)) (newcomers p ?pl ?s (map snd order))" for f :: "Player \<Rightarrow> 'z list"
      using looks newcomers_subset by (auto intro!: map_cong)
    note maps = this [of "add_fields pl"] this [of "state_bytes True"]
    have "loop_result p pl (add_fields pl other @ concat (map (\<lambda>q. add_fields pl (look s q)) (newcomers p ?pl ?s (map snd order))))
        (state_bytes True other @ concat (map (\<lambda>q. state_bytes True (look s q)) (newcomers p ?pl ?s (map snd order))))
        (m_LocalPlayers ?pl @ newcomers p ?pl ?s (map snd order)) (out, block, s) st'"
      by (rule loop_result_step [OF st'(2) [unfolded in_view_local maps] out1(2,4) block1(3)])
        (auto simp: same_rest_def at)
    moreover have "add_loop p (e # order) (out, block, s) = Inr st'"
      using new other st'(1) by (simp add: dp Let_def in_view_def out1(1) block1(1) del: deref_eq)
    ultimately show ?thesis using other(1) unfolding nc by simp
  qed
qed

section \<open>Header, bits and block\<close>

definition clean_tail :: "StreamBuffer \<Rightarrow> bool" where
  "clean_tail b \<longleftrightarrow> (\<forall>i. m_Pos b \<le> i \<and> i < length (m_Buffer b) \<longrightarrow> m_Buffer b ! i = 0)"

lemma clean_tail_put: "stream_wf b \<Longrightarrow> clean_tail b \<Longrightarrow> clean_tail (put_byte x b)"
  by (auto simp: clean_tail_def put_byte_def stream_wf_def nth_list_update nth_resize)

lemma clean_tail_upd [simp]:
  "clean_tail (b\<lparr>m_HeaderSize := h\<rparr>) = clean_tail b" "clean_tail (b\<lparr>m_FrameSize := f\<rparr>) = clean_tail b"
  by (simp_all add: clean_tail_def)

lemma clean_tail_sized: "clean_tail (StreamBuffer_sized n)"
  by (simp add: clean_tail_def StreamBuffer_sized_def StreamBuffer_data_def)

lemma header_clean:
  assumes "WriteHeader v e HS_SHORT (StreamBuffer_sized n) = Inr (b, e')"
  shows "clean_tail b"
proof -
  let ?b = "(StreamBuffer_sized n)\<lparr>m_HeaderSize := HS_SHORT\<rparr>"
  have b: "b = put_byte 0 (put_byte 0 ((put_byte k ?b)\<lparr>m_FrameSize := Suc 0\<rparr>)) \<Longrightarrow> clean_tail b" for k
    by (simp add: clean_tail_put clean_tail_sized stream_wf_put_byte stream_wf_sized)
  show ?thesis
    using assms
    by (intro b [of "ucast (v + fst (GetNextKey e))"])
      (simp add: WriteHeader_def Let_def WriteByte_eq WriteShort_eq enc_value_def enc_short_const
        split: prod.splits)
qed

lemma bits_clean_tail: "clean_tail b \<Longrightarrow> bits_clean (as_bits b)"
proof -
  assume clean: "clean_tail b"
  have "\<not> buf_bit (m_Buffer b) i" if "8 * m_Pos b \<le> i" "i < 8 * length (m_Buffer b)" for i
  proof -
    have "m_Pos b \<le> i div 8" "i div 8 < length (m_Buffer b)" using that by linarith+
    with clean have "m_Buffer b ! (i div 8) = 0" by (simp add: clean_tail_def)
    then show ?thesis by (simp add: buf_bit_def)
  qed
  then show ?thesis by (simp add: bits_clean_def as_bits_def mult.commute)
qed

lemma packet_start:
  fixes e
  defines "h \<equiv> [ucast (81 + fst (GetNextKey e)), 0, 0] :: i8 list"
  obtains out where "WriteHeader 81 e HS_SHORT (StreamBuffer_sized 2048) = Inr (out, snd (GetNextKey e))"
    "SetAccessType BIT_ACCESS out = Inr (as_bits out)" "bit_mode 3 1 HS_SHORT (as_bits out)"
    "written_bits (as_bits out) = map (buf_bit h) [0..<8 * length h]"
proof -
  have two: "replicate 2 (0 :: i8) = [0, 0]" by (simp add: numeral_2_eq_2)
  from WriteHeader_eq [OF stream_wf_sized [of 2048], of HS_SHORT 81 e] obtain out where
    out: "WriteHeader 81 e HS_SHORT (StreamBuffer_sized 2048) = Inr (out, snd (GetNextKey e))" "stream_wf out"
    "written out = h" "m_HeaderSize out = HS_SHORT" "m_FrameSize out = 1" "m_Pos out = 3"
    by (auto simp: h_def two)
  have "bit_mode 3 1 HS_SHORT (as_bits out)"
    using out to_bit_access(1) [OF out(2)] bits_clean_tail [OF header_clean [OF out(1)]]
    by (simp add: bit_mode_def as_bits_def)
  moreover have "written_bits (as_bits out) = map (buf_bit h) [0..<8 * length h]"
    using to_bit_access(2) [OF out(2)] out(3,6) by (simp add: h_def)
  moreover have "SetAccessType BIT_ACCESS out = Inr (as_bits out)" using out(6) by (simp add: SetAccessType_eq)
  ultimately show ?thesis using that out(1) by blast
qed

lemma packed_split:
  assumes "packed (map (buf_bit xs) [0..<8 * length xs] @ bs) ys"
  obtains zs where "ys = xs @ zs" "packed bs zs"
proof -
  let ?n = "length xs"
  have len: "length ys = ?n + (length bs + 7) div 8"
    using assms by (simp add: packed_def)
  have bit: "buf_bit ys i = (if i < 8 * ?n then buf_bit xs i else i - 8 * ?n < length bs \<and> bs ! (i - 8 * ?n))"
    if "i < 8 * length ys" for i
    using assms that by (auto simp: packed_def nth_append)
  have "take ?n ys = xs"
  proof (rule nth_equalityI)
    fix k assume k: "k < length (take ?n ys)"
    show "take ?n ys ! k = xs ! k"
    proof (rule buf_bit_byte_eqI)
      fix i assume "8 * k \<le> i" "i < 8 * k + 8"
      with k len bit [of i] show "buf_bit (take ?n ys) i = buf_bit xs i"
        by (simp add: buf_bit_take)
    qed
  qed (use len in simp)
  then have ys: "ys = xs @ drop ?n ys" by (metis append_take_drop_id)
  have "buf_bit (drop ?n ys) i = buf_bit ys (8 * ?n + i)" if "i < 8 * length (drop ?n ys)" for i
  proof -
    have "(8 * ?n + i) div 8 = ?n + i div 8" "(8 * ?n + i) mod 8 = i mod 8" by simp_all
    then show ?thesis using len by (simp add: buf_bit_def nth_drop)
  qed
  with bit len have "packed bs (drop ?n ys)" by (simp add: packed_def)
  with ys that show ?thesis by blast
qed

text \<open>The attributes block follows the bits, behind a marker, unless it is empty.\<close>

definition body_of :: "(nat \<times> i32) list \<Rightarrow> i8 list \<Rightarrow> i8 list \<Rightarrow> bool" where
  "body_of fs block body \<longleftrightarrow>
     (\<exists>zs. packed (enc_fields (fs @ (if block = [] then [] else [(11, 2047)]))) zs \<and> body = zs @ block)"

lemma bit_mode_to_byte:
  assumes "bit_mode pos frame hs out"
  shows "stream_wf (as_bytes out)" "packed (written_bits out) (written (as_bytes out))"
    "m_FrameSize (as_bytes out) = frame" "m_HeaderSize (as_bytes out) = hs"
    "SetAccessType BYTE_ACCESS out = Inr (as_bytes out)" "m_Pos (as_bytes out) \<le> length (written_bits out) + 7"
  using assms to_byte_access [of out] SetAccessType_eq(2) [of out] by (simp_all add: bit_mode_def as_bytes_def)

lemma append_block_eq:
  assumes "bit_mode pos frame hs out" "byte_mode block"
    and "written_bits out = map (buf_bit h) [0..<8 * length h] @ enc_fields fs"
    and "length (written_bits out) + length (written block) + 18 < 2 ^ 31"
  obtains out' body where "append_block block out = Inr out'" "stream_wf out'" "m_FrameSize out' = frame"
    "m_HeaderSize out' = hs" "written out' = h @ body" "body_of fs (written block) body"
proof (cases "written block = []")
  case True
  then have "m_Pos block = 0" using assms(2) by (auto simp: byte_mode_def stream_wf_def written_def)
  then have "append_block block out = Inr (as_bytes out)"
    using bit_mode_to_byte(5) [OF assms(1)] by (simp add: append_block_def)
  moreover obtain zs where "written (as_bytes out) = h @ zs" "packed (enc_fields fs) zs"
    using bit_mode_to_byte(2) [OF assms(1)] assms(3) packed_split by metis
  ultimately show ?thesis
    using bit_mode_to_byte [OF assms(1)] True that by (simp add: body_of_def)
next
  case False
  then have pos: "m_Pos block > 0" by (auto simp: written_def)
  obtain out1 where out1: "WriteBits 11 2047 out = Inr out1" "bit_mode pos frame hs out1"
    "written_bits out1 = written_bits out @ to_bits 11 2047"
    using bit_mode_WriteBits [OF assms(1), of 11 2047] assms(4) by auto
  let ?out = "as_bytes out1"
  have bits: "written_bits out1 = map (buf_bit h) [0..<8 * length h] @ enc_fields (fs @ [(11, 2047)])"
    using out1(3) assms(3) by simp
  from bit_mode_to_byte(2) [OF out1(2), unfolded bits]
  obtain zs where zs: "written ?out = h @ zs" "packed (enc_fields (fs @ [(11, 2047)])) zs"
    using packed_split by metis
  have "stream_wf block" using assms(2) by (simp add: byte_mode_def)
  moreover have "m_Pos ?out + m_Pos block < 2 ^ 31"
    using assms(4) bit_mode_to_byte(6) [OF out1(2)] byte_mode_pos [OF assms(2)] out1(3) by simp
  ultimately obtain out' where
    "WriteBytes block ?out = Inr out'" "written out' = written ?out @ written block" "stream_wf out'"
    "m_FrameSize out' = m_FrameSize ?out" "m_HeaderSize out' = m_HeaderSize ?out"
    using WriteBytes_eq [OF bit_mode_to_byte(1) [OF out1(2)]] by blast
  with zs out1(1) pos False bit_mode_to_byte(3-5) [OF out1(2)] show ?thesis
    by (intro that [of out' "zs @ written block"]) (auto simp: append_block_def body_of_def)
qed

section \<open>Sizes\<close>

lemma length_enc_concat:
  assumes "\<And>q. length (enc_fields (f q)) \<le> k"
  shows "length (enc_fields (concat (map f qs))) \<le> k * length qs"
proof (induction qs)
  case (Cons q qs)
  with assms [of q] show ?case by simp
qed simp

lemma length_concat_le:
  assumes "\<And>q. length (f q) \<le> k"
  shows "length (concat (map f qs)) \<le> k * length qs"
proof (induction qs)
  case (Cons q qs)
  with assms [of q] show ?case by simp
qed simp

lemma length_seen_bytes: "length (seen_bytes pl other) \<le> 58"
  using length_state_bytes(1) [of False other] by (simp add: seen_bytes_def)

section \<open>The packet\<close>

text \<open>
  The parts of the packet of a player, from the state before the update: \<open>seen\<close> are the local players
  before it, \<open>new\<close> those that come into view.
\<close>

definition update_fields :: "Player \<Rightarrow> System \<Rightarrow> ref list \<Rightarrow> (nat \<times> i32) list" where
  "update_fields pl s new =
     local_fields pl @ (8, word_of_nat (length (m_LocalPlayers pl))) #
     concat (map (\<lambda>q. seen_fields pl (look s q)) (m_LocalPlayers pl)) @
     concat (map (\<lambda>q. add_fields pl (look s q)) new)"

definition update_block :: "Player \<Rightarrow> System \<Rightarrow> ref list \<Rightarrow> i8 list" where
  "update_block pl s new =
     (if NeedsUpdate pl then state_bytes False pl else []) @
     concat (map (\<lambda>q. seen_bytes pl (look s q)) (m_LocalPlayers pl)) @
     concat (map (\<lambda>q. state_bytes True (look s q)) new)"

definition kept_locals :: "Player \<Rightarrow> System \<Rightarrow> ref list" where
  "kept_locals pl s = filter (\<lambda>q. stays pl (look s q)) (m_LocalPlayers pl)"

definition added_locals :: "ref \<Rightarrow> Player \<Rightarrow> System \<Rightarrow> (string \<times> ref) list \<Rightarrow> ref list" where
  "added_locals p pl s order = newcomers p (pl\<lparr>m_LocalPlayers := kept_locals pl s\<rparr>) s (map snd order)"

lemma length_added: "length (kept_locals pl s @ added_locals p pl s order) \<le> max 255 (length (m_LocalPlayers pl))"
proof -
  have "length (kept_locals pl s) \<le> length (m_LocalPlayers pl)" by (simp add: kept_locals_def)
  then show ?thesis by (simp add: added_locals_def newcomers_def)
qed

lemma length_update:
  "length (enc_fields (update_fields pl s new)) \<le> 29 + 10 * length (m_LocalPlayers pl) + 23 * length new"
  "length (update_block pl s new) \<le> 58 + 58 * length (m_LocalPlayers pl) + 58 * length new"
proof -
  show "length (enc_fields (update_fields pl s new)) \<le> 29 + 10 * length (m_LocalPlayers pl) + 23 * length new"
    using length_fields(2) [of pl] length_enc_concat [of "\<lambda>q. seen_fields pl (look s q)" 10 "m_LocalPlayers pl"]
      length_enc_concat [of "\<lambda>q. add_fields pl (look s q)" 23 new] length_fields(3,4)
    by (simp add: update_fields_def)
  have "length (concat (map (\<lambda>q. seen_bytes pl (look s q)) (m_LocalPlayers pl))) \<le> 58 * length (m_LocalPlayers pl)"
    by (rule length_concat_le) (rule length_seen_bytes)
  moreover have "length (concat (map (\<lambda>q. state_bytes True (look s q)) new)) \<le> 58 * length new"
    by (rule length_concat_le) (rule length_state_bytes(1))
  moreover have "length (if NeedsUpdate pl then state_bytes False pl else []) \<le> 58"
    using length_state_bytes(1) [of False pl] by simp
  ultimately show "length (update_block pl s new) \<le> 58 + 58 * length (m_LocalPlayers pl) + 58 * length new"
    unfolding update_block_def length_append by linarith
qed

lemma body_small:
  assumes "length (m_LocalPlayers pl) \<le> 255" "length new \<le> 255"
    and "body_of (update_fields pl s new) (update_block pl s new) body"
  shows "length body < 65536"
proof -
  let ?l = "length (m_LocalPlayers pl)" and ?n = "length new"
  let ?fs = "update_fields pl s new @ (if update_block pl s new = [] then [] else [(11, 2047)])"
  have bits: "length (enc_fields ?fs) \<le> 29 + 10 * ?l + 23 * ?n + 11" using length_update(1) [of pl s new] by simp
  note block = length_update(2) [of pl s new]
  from assms(3) obtain zs where "packed (enc_fields ?fs) zs" "body = zs @ update_block pl s new"
    by (auto simp: body_of_def)
  then have "length body = (length (enc_fields ?fs) + 7) div 8 + length (update_block pl s new)"
    by (simp add: packed_def)
  with bits block assms(1,2) show ?thesis by linarith
qed

text \<open>
  The effect of \<open>UpdatePlayer\<close> on the state: the client \<open>c\<close> of player \<open>p\<close> becomes \<open>x'\<close>, the player gets
  the list \<open>locals\<close>, the other registered players are as before, and no player appears.
\<close>

definition updated :: "ref \<Rightarrow> Player \<Rightarrow> Client \<Rightarrow> ref list \<Rightarrow> System \<Rightarrow> System \<Rightarrow> bool" where
  "updated p pl x' locals s s' \<longleftrightarrow>
     refs_ok s' \<and> same_rest (put_client (m_Client pl) x' s) s' \<and>
     heap_at (players s') p = Some (pl\<lparr>m_LocalPlayers := locals\<rparr>) \<and>
     (\<forall>r. r \<noteq> p \<longrightarrow> r \<in> set locals \<or> rooted r s \<longrightarrow>
        heap_at (players s') r = heap_at (players s) r) \<and>
     (\<forall>r x. r \<noteq> p \<longrightarrow> heap_at (players s') r = Some x \<longrightarrow> heap_at (players s) r = Some x)"

lemma refs_ok_put_client [simp]: "refs_ok (put_client c x s) = refs_ok s"
  by (simp add: refs_ok_def alive_def)

lemma look_put_client [simp]: "look (put_client c x s) q = look s q"
  by (simp add: look_def)

text \<open>The first part of \<open>UpdatePlayer\<close>, up to the end of the loop over the local players.\<close>

lemma first_part:
  assumes "refs_ok s" "heap_at (players s) p = Some pl" "rooted p s"
    and "p \<notin> set (m_LocalPlayers pl)" "bit_mode pos frame hs out" "length (m_LocalPlayers pl) \<le> 255"
    and "length (written_bits out) \<le> 24"
  shows "\<exists>out1 block1 out2 st'. UpdateLocalPlayerMovement pl out = Inr out1 \<and>
    (if NeedsUpdate pl then UpdateState pl False True (StreamBuffer_sized 1024)
     else Inr (StreamBuffer_sized 1024)) = Inr block1 \<and>
    WriteBits 8 (word_of_nat (length (m_LocalPlayers pl))) out1 = Inr out2 \<and>
    local_loop p [] (m_LocalPlayers pl) (out2, block1, s) = Inr st' \<and>
    loop_result p pl (update_fields pl s []) (update_block pl s []) (kept_locals pl s)
      (out, StreamBuffer_sized 1024, s) st'"
proof -
  let ?block = "StreamBuffer_sized 1024"
  have bm: "byte_mode ?block" by (simp add: byte_mode_def stream_wf_sized)
  have room: "length (written_bits out) + length (enc_fields (local_fields pl)) + 7 < 2 ^ 31" "length (written ?block) + 58 < 2 ^ 31"
    using assms(7) length_fields(2) [of pl] by simp_all
  obtain out1 where out1: "UpdateLocalPlayerMovement pl out = Inr out1"
    "\<forall>pos frame hs. bit_mode pos frame hs out \<longrightarrow> bit_mode pos frame hs out1" "bit_mode pos frame hs out1"
    "written_bits out1 = written_bits out @ enc_fields (local_fields pl)"
    using write_fields_mode [OF assms(5) fields_ok_all(2) room(1)] UpdateLocalPlayerMovement_fields by metis
  have room1: "length (written_bits out1) + 8 + 7 < 2 ^ 31" using assms(7) length_fields(2) [of pl] unfolding out1(4) by simp
  let ?n = "word_of_nat (length (m_LocalPlayers pl))"
  obtain out2 where out2: "WriteBits 8 ?n out1 = Inr out2" "bit_mode pos frame hs out2"
    "written_bits out2 = written_bits out1 @ to_bits 8 ?n"
    using bit_mode_WriteBits [OF out1(3) _ _ room1, of ?n] by auto
  have mode: "\<forall>pos frame hs. bit_mode pos frame hs out \<longrightarrow> bit_mode pos frame hs out2"
    using assms(5) out2(2) by (simp add: bit_mode_def)
  obtain block1 where block1: "(if NeedsUpdate pl then UpdateState pl False True ?block else Inr ?block) = Inr block1"
    "byte_mode block1" "written block1 = written ?block @ (if NeedsUpdate pl then state_bytes False pl else [])"
  proof (cases "NeedsUpdate pl")
    case True
    obtain block1 where "UpdateState pl False True ?block = Inr block1" "byte_mode block1"
      "written block1 = written ?block @ state_bytes False pl"
      using UpdateState_eq [OF bm room(2)] .
    with True show ?thesis by (intro that [of block1]) simp_all
  next
    case False
    with bm show ?thesis by (intro that [of ?block]) simp_all
  qed
  have "m_LocalPlayers pl = [] @ m_LocalPlayers pl" by simp
  moreover have "length (written_bits out2) + 10 * length (m_LocalPlayers pl) + 7 < 2 ^ 31"
    "length (written block1) + 58 * length (m_LocalPlayers pl) < 2 ^ 31"
    using assms(6,7) length_fields(2) [of pl] length_state_bytes(1) [of False pl]
    unfolding out2(3) out1(4) block1(3) by simp_all
  ultimately obtain st' where
    st': "local_loop p [] (m_LocalPlayers pl) (out2, block1, s) = Inr st'"
    "loop_result p pl (concat (map (\<lambda>q. seen_fields pl (look s q)) (m_LocalPlayers pl)))
      (concat (map (\<lambda>q. seen_bytes pl (look s q)) (m_LocalPlayers pl))) (kept_locals pl s) (out2, block1, s) st'"
    using local_loop_eq [OF assms(1-3) _ assms(4) out2(2) block1(2), of "[]"] by (auto simp: kept_locals_def)
  have pl: "pl\<lparr>m_LocalPlayers := m_LocalPlayers pl\<rparr> = pl" by simp
  have "written_bits out2 = written_bits out @ enc_fields (local_fields pl @ [(8, ?n)])"
    using out1(4) out2(3) by simp
  from loop_result_step [where mid = "m_LocalPlayers pl" and pl = pl, unfolded pl,
      OF st'(2) mode this block1(3) same_rest_refl]
  have "loop_result p pl (update_fields pl s []) (update_block pl s []) (kept_locals pl s)
      (out, StreamBuffer_sized 1024, s) st'"
    by (simp add: update_fields_def update_block_def)
  with out1(1) out2(1) block1(1) st'(1) show ?thesis by blast
qed

end
