(* ===== verification/Update_Player.thy ===== *)
theory Update_Player
  imports Update_Loops
begin

text \<open>
  The whole of \<open>PlayerUpdating::UpdatePlayer\<close>: for a player of the world with a live client it never
  faults, and the packet it sends and the new list of local players are given explicitly.
\<close>

section \<open>The whole update of a player\<close>

lemma second_part:
  assumes "loop_result p pl fs bs locals (out, block, s) (out2, block2, s2)"
    and "rooted p s" "length locals < 255" "set order = set (m_Players s)"
    and "distinct (map snd order)" "bit_mode pos frame hs out" "refs_ok s"
    and "length (written_bits out) + length (enc_fields fs) + 23 * 255 + 7 < 2 ^ 31"
    and "length (written block) + length bs + 58 * 255 < 2 ^ 31"
  shows "\<exists>st'. add_loop p order (out2, block2, s2) = Inr st' \<and>
    (let new = newcomers p (pl\<lparr>m_LocalPlayers := locals\<rparr>) s (map snd order)
     in loop_result p pl (fs @ concat (map (\<lambda>q. add_fields pl (look s q)) new))
       (bs @ concat (map (\<lambda>q. state_bytes True (look s q)) new)) (locals @ new) (out, block, s) st')"
proof -
  let ?pl = "pl\<lparr>m_LocalPlayers := locals\<rparr>"
  note r = assms(1) [unfolded loop_result_def Let_def prod.case]
  from r have r1: "\<forall>pos frame hs. bit_mode pos frame hs out \<longrightarrow> bit_mode pos frame hs out2" "byte_mode block2"
    "written_bits out2 = written_bits out @ enc_fields fs" "written block2 = written block @ bs"
    "refs_ok s2" "same_rest s s2" "heap_at (players s2) p = Some ?pl"
    "\<forall>r. r \<noteq> p \<longrightarrow> r \<in> set locals \<or> rooted r s \<longrightarrow>
        heap_at (players s2) r = heap_at (players s) r"
    "\<forall>r x. r \<noteq> p \<longrightarrow> heap_at (players s2) r = Some x \<longrightarrow> heap_at (players s) r = Some x"
    by - (elim conjE, assumption)+
  have live: "\<forall>q\<in>snd ` set order. alive q s2"
    using r1(5,6) assms(4) by (auto simp: refs_ok_def same_rest_def rooted_def)
  have looks: "look s2 q = look s q" if "q \<in> snd ` set order" "q \<noteq> p" for q
    using r1(8) that assms(4) by (simp add: look_def rooted_def)
  let ?new = "newcomers p ?pl s (map snd order)"
  have new: "newcomers p ?pl s2 (map snd order) = ?new"
    unfolding newcomers_def
  proof (rule arg_cong [where f = "take _"], rule filter_cong [OF refl])
    fix q assume "q \<in> set (map snd order)"
    then show "(q \<noteq> p \<and> q \<notin> set (m_LocalPlayers ?pl) \<and> in_view ?pl (look s2 q)) =
        (q \<noteq> p \<and> q \<notin> set (m_LocalPlayers ?pl) \<and> in_view ?pl (look s q))"
      using looks [of q] by (cases "q = p") simp_all
  qed
  have maps: "map (\<lambda>q. f (look s2 q)) ?new = map (\<lambda>q. f (look s q)) ?new" for f :: "Player \<Rightarrow> 'z list"
  proof (rule map_cong [OF refl])
    fix q assume "q \<in> set ?new"
    with newcomers_subset [of q p ?pl s "map snd order"] show "f (look s2 q) = f (look s q)"
      using looks by simp
  qed
  have room: "length (written_bits out2) + 23 * (255 - length (m_LocalPlayers ?pl)) + 7 < 2 ^ 31"
    "length (written block2) + 58 * (255 - length (m_LocalPlayers ?pl)) < 2 ^ 31"
    using assms(8,9) unfolding r1(3,4) by simp_all
  from add_loop_eq [OF r1(5,7) live assms(5) r1(1) [rule_format, OF assms(6)] r1(2) room] obtain st' where
    st': "add_loop p order (out2, block2, s2) = Inr st'"
    "loop_result p ?pl (concat (map (\<lambda>q. add_fields pl (look s q)) ?new))
      (concat (map (\<lambda>q. state_bytes True (look s q)) ?new)) (locals @ ?new) (out2, block2, s2) st'"
    unfolding new in_view_local maps by auto
  have sub: "\<forall>r. r \<noteq> p \<longrightarrow> r \<in> set (locals @ ?new) \<or> rooted r s \<longrightarrow>
      heap_at (players s2) r = heap_at (players s) r"
    using r1(8) assms(4) newcomers_subset [of _ p ?pl s "map snd order"] by (fastforce simp: rooted_def)
  from loop_result_step [OF st'(2) r1(1,3,4,6) sub r1(9)] st'(1) show ?thesis
    by (simp add: Let_def)
qed

lemma update_parts_nil:
  "update_fields pl s [] @ concat (map (\<lambda>q. add_fields pl (look s q)) new) = update_fields pl s new"
  "update_block pl s [] @ concat (map (\<lambda>q. state_bytes True (look s q)) new) = update_block pl s new"
  by (simp_all add: update_fields_def update_block_def)

lemma loop_updated:
  "loop_result p pl fs bs locals (out, block, put_client (m_Client pl) x s) (out', block', s') \<Longrightarrow>
   updated p pl x locals s s'"
  unfolding loop_result_def updated_def Let_def prod.case put_fields rooted_put
  by (elim conjE, intro conjI) assumption+

lemma loop_result_out:
  assumes "loop_result p pl fs bs locals (out, StreamBuffer_sized n, s) (out', block', s')" "bit_mode pos frame hs out"
  shows "bit_mode pos frame hs out'" "byte_mode block'" "written_bits out' = written_bits out @ enc_fields fs"
    "written block' = bs"
proof -
  from assms(1) [unfolded loop_result_def Let_def prod.case]
  have r: "\<forall>pos frame hs. bit_mode pos frame hs out \<longrightarrow> bit_mode pos frame hs out'" "byte_mode block'"
    "written_bits out' = written_bits out @ enc_fields fs" "written block' = written (StreamBuffer_sized n) @ bs"
    by - (elim conjE, assumption)+
  from r(1) assms(2) show "bit_mode pos frame hs out'" by blast
  from r(2-4) show "byte_mode block'" "written_bits out' = written_bits out @ enc_fields fs" "written block' = bs"
    by simp_all
qed

lemma updated_put:
  assumes "updated p pl x locals s s'"
  shows "updated p pl y locals s (put_client (m_Client pl) y s')"
proof -
  have "same_rest (put_client (m_Client pl) x s) s'" using assms by (simp add: updated_def)
  then have "same_rest (put_client (m_Client pl) y s) (put_client (m_Client pl) y s')"
    by (simp add: same_rest_def put_client_def)
  with assms show ?thesis
    unfolding updated_def put_fields rooted_put refs_ok_put_client by (elim conjE, intro conjI) assumption+
qed

lemma UpdatePlayer_eq:
  assumes ok: "player_ok p pl x s" and e: "m_Encryptor x = Some e" and refs: "refs_ok s"
    and reg: "rooted p s" and self: "p \<notin> set (m_LocalPlayers pl)"
    and small: "length (m_LocalPlayers pl) \<le> 255"
    and order: "set order = set (m_Players s)" "distinct (map snd order)"
  shows "\<exists>s'. UpdatePlayer order p s = Inr s' \<and>
    (if length (kept_locals pl s) \<ge> 255
     then updated p pl (x\<lparr>m_Encryptor := Some (snd (GetNextKey e))\<rparr>) (kept_locals pl s) s s'
     else \<exists>body. body_of (update_fields pl s (added_locals p pl s order))
         (update_block pl s (added_locals p pl s order)) body \<and>
       updated p pl (emit 81 (frame_size_bytes HS_SHORT (length body) @ body) x)
         (kept_locals pl s @ added_locals p pl s order) s s')"
proof -
  let ?c = "m_Client pl" and ?k = "GetNextKey e"
  let ?x = "x\<lparr>m_Encryptor := Some (snd ?k)\<rparr>"
  let ?s = "put_client ?c ?x s"
  let ?h = "[ucast (81 + fst ?k), 0, 0] :: i8 list"
  have p: "heap_at (players s) p = Some pl" and c: "heap_at (clients s) ?c = Some x"
    and xp: "m_Player x = Some p" using ok by (simp_all add: player_ok_def)
  have cl: "GetClient pl s = Some ?c" using c by (simp add: GetClient_def)
  obtain out where out: "WriteHeader 81 e HS_SHORT (StreamBuffer_sized 2048) = Inr (out, snd ?k)"
    "SetAccessType BIT_ACCESS out = Inr (as_bits out)" "bit_mode 3 1 HS_SHORT (as_bits out)"
    "written_bits (as_bits out) = map (buf_bit ?h) [0..<8 * length ?h]"
    using packet_start [of e] by blast
  let ?out = "as_bits out"
  have head: "length (written_bits ?out) \<le> 24" unfolding out(4) by simp
  have s: "refs_ok ?s" "heap_at (players ?s) p = Some pl" "rooted p ?s"
    using refs p reg by simp_all
  from first_part [OF s self out(3) small head] obtain out1 block1 out2 st2 where
    f: "UpdateLocalPlayerMovement pl ?out = Inr out1"
      "(if NeedsUpdate pl then UpdateState pl False True (StreamBuffer_sized 1024)
        else Inr (StreamBuffer_sized 1024)) = Inr block1"
      "WriteBits 8 (word_of_nat (length (m_LocalPlayers pl))) out1 = Inr out2"
      "local_loop p [] (m_LocalPlayers pl) (out2, block1, ?s) = Inr st2"
      "loop_result p pl (update_fields pl ?s []) (update_block pl ?s []) (kept_locals pl ?s)
        (?out, StreamBuffer_sized 1024, ?s) st2"
    by blast
  obtain out3 block3 s3 where st2: "st2 = (out3, block3, s3)" by (cases st2)
  note res = f(5) [unfolded st2]
  have s3: "heap_at (players s3) p = Some (pl\<lparr>m_LocalPlayers := kept_locals pl s\<rparr>)"
    using res by (simp add: loop_result_def kept_locals_def)
  have run: "UpdatePlayer order p s =
      (if length (kept_locals pl s) \<ge> 255 then Inr s3
       else bindR (add_loop p order (out3, block3, s3)) (\<lambda>(out, block, s).
            bindR (append_block block out) (\<lambda>out.
            bindR (FinishVariableHeader out) (\<lambda>out.
            with_client p (\<lambda>c. on_client c (Send out)) s))))"
    using f(1-4) p c cl e out(1,2) s3
    by (simp add: UpdatePlayer_def deref_def deref_cipher_def Let_def st2)
  show ?thesis
  proof (cases "length (kept_locals pl s) \<ge> 255")
    case True
    then have "updated p pl ?x (kept_locals pl s) s s3"
      using loop_updated [OF res] by (simp add: kept_locals_def)
    with run True show ?thesis by simp
  next
    case False
    have ord: "set order = set (m_Players ?s)" using order(1) by simp
    have kept: "kept_locals pl ?s = kept_locals pl s" by (simp add: kept_locals_def)
    let ?new = "added_locals p pl s order" and ?locals = "kept_locals pl s @ added_locals p pl s order"
    have less: "length (kept_locals pl ?s) < 255" using False kept by simp
    have room: "length (written_bits ?out) + length (enc_fields (update_fields pl ?s [])) + 23 * 255 + 7 < 2 ^ 31"
      "length (written (StreamBuffer_sized 1024)) + length (update_block pl ?s []) + 58 * 255 < 2 ^ 31"
      using head small length_update [of pl ?s "[]"] by simp_all
    from second_part [OF res s(3) less ord order(2) out(3) s(1) room] obtain st4 where
      st4: "add_loop p order (out3, block3, s3) = Inr st4"
      "loop_result p pl (update_fields pl s ?new) (update_block pl s ?new) ?locals
        (?out, StreamBuffer_sized 1024, ?s) st4"
      unfolding Let_def update_parts_nil kept
      by (auto simp: added_locals_def newcomers_def update_fields_def update_block_def kept)
    obtain out4 block4 s4 where st4_eq: "st4 = (out4, block4, s4)" by (cases st4)
    note upd = loop_updated [OF st4(2) [unfolded st4_eq]]
    from loop_result_out [OF st4(2) [unfolded st4_eq] out(3)]
    have m4: "bit_mode 3 1 HS_SHORT out4" "byte_mode block4"
      "written_bits out4 = map (buf_bit ?h) [0..<8 * length ?h] @ enc_fields (update_fields pl s ?new)"
      "written block4 = update_block pl s ?new"
      unfolding out(4) by simp_all
    have new_small: "length ?new \<le> 255" by (simp add: added_locals_def newcomers_def)
    have all: "length (written_bits out4) + length (written block4) + 18 < 2 ^ 31"
      using small new_small length_update [of pl s ?new] unfolding m4(3,4) by simp
    obtain out5 body where out5: "append_block block4 out4 = Inr out5" "stream_wf out5" "m_FrameSize out5 = 1"
      "m_HeaderSize out5 = HS_SHORT" "written out5 = ?h @ body"
      "body_of (update_fields pl s ?new) (update_block pl s ?new) body"
      using append_block_eq [OF m4(1-3) all] unfolding m4(4) by blast
    have body_len: "length body < 65536" by (rule body_small [OF small new_small out5(6)])
    have pos: "m_Pos out5 < 2 ^ 31"
    proof -
      have "m_Pos out5 = length (written out5)" using out5(2) by (simp add: written_def stream_wf_def)
      then show ?thesis using out5(5) body_len by simp
    qed
    have "written out5 = [ucast (81 + fst ?k)] @ replicate (header_len HS_SHORT) 0 @ body"
      using out5(5) by (simp add: numeral_2_eq_2)
    from FinishVariableHeader_eq [OF out5(2) this out5(4)] out5(3) pos obtain out6 where
      out6: "FinishVariableHeader out5 = Inr out6" "stream_wf out6"
      "written out6 = [ucast (81 + fst ?k)] @ frame_size_bytes HS_SHORT (length body) @ body"
      by auto
    let ?y = "emit 81 (frame_size_bytes HS_SHORT (length body) @ body) x"
    have send: "Send out6 ?x = Inr ?y"
      using e out6(3) by (simp add: Send_eq [OF out6(2)] emit_def)
    have ok4: "player_ok p (pl\<lparr>m_LocalPlayers := ?locals\<rparr>) ?x s4"
      using upd xp c by (auto simp: player_ok_def updated_def same_rest_def at_put_client)
    have "with_client p (\<lambda>c. on_client c (Send out6)) s4 = Inr (put_client ?c ?y s4)"
      using with_client_eq [OF ok4] ok4 send by (simp add: on_client_eq player_ok_def)
    then have "UpdatePlayer order p s = Inr (put_client ?c ?y s4)"
      unfolding run using False st4(1) out5(1) out6(1) by (simp add: st4_eq)
    moreover have "updated p pl ?y ?locals s (put_client ?c ?y s4)"
      by (rule updated_put [OF upd])
    ultimately show ?thesis using False out5(6) by auto
  qed
qed

end
