(* ===== verification/World_Tick.thy ===== *)
theory World_Tick
  imports Update_Player
begin

text \<open>
  \<open>World::Process\<close>, one cycle of the game: every player is processed, then every player gets its update
  packet, then every player is reset. \<open>order\<close> is the order in which \<open>std::unordered_map\<close> enumerates the
  players; all results hold for every order.

  \<open>world_ok\<close> is the invariant of the world between cycles. It ensures that a cycle never faults.
\<close>

section \<open>Definitions\<close>

definition World_Process :: "(string \<times> ref) list \<Rightarrow> System \<Rightarrow> fault + System" where
  "World_Process order s =
     (let playerList = map snd order
      in bindR (foldR Player_Process playerList s) (\<lambda>s.
         let s = s\<lparr>playerList := playerList\<rparr>
         in bindR (Update order playerList s) (\<lambda>s.
            bindR (foldR (\<lambda>p. on_player p (\<lambda>pl. Inr (Player_Reset pl))) playerList s) (\<lambda>s.
            Inr (release_players playerList (s\<lparr>playerList := []\<rparr>))))))"

section \<open>Repeating operations that keep an invariant\<close>

text \<open>
  A family of operations, each of which succeeds and keeps the invariant \<open>inv\<close> for the arguments in \<open>dom\<close>,
  establishes \<open>post\<close> for its own argument and keeps it for all others: then so does any sequence.
\<close>

locale steps =
  fixes step :: "'a \<Rightarrow> 's \<Rightarrow> fault + 's"
    and inv :: "'s \<Rightarrow> bool"
    and valid :: "'a \<Rightarrow> 's \<Rightarrow> bool"
    and post :: "'a \<Rightarrow> 's \<Rightarrow> bool"
  assumes step_ok: "inv s \<Longrightarrow> valid a s \<Longrightarrow> \<exists>t. step a s = Inr t \<and> inv t \<and> post a t"
    and step_valid: "inv s \<Longrightarrow> valid a s \<Longrightarrow> step a s = Inr t \<Longrightarrow> valid b s \<Longrightarrow> valid b t"
    and step_post: "inv s \<Longrightarrow> valid a s \<Longrightarrow> step a s = Inr t \<Longrightarrow> valid b s \<Longrightarrow> b \<noteq> a \<Longrightarrow> post b s \<Longrightarrow> post b t"
begin

lemma run:
  assumes "inv s" "\<forall>a\<in>set as. valid a s" "\<forall>b\<in>B. valid b s \<and> post b s"
  shows "\<exists>t. foldR step as s = Inr t \<and> inv t \<and> (\<forall>b\<in>B \<union> set as. post b t) \<and> (\<forall>b. valid b s \<longrightarrow> valid b t)"
  using assms
proof (induction as arbitrary: s B)
  case Nil
  then show ?case by simp
next
  case (Cons a as)
  from Cons.prems(2) have a: "valid a s" by simp
  from step_ok [OF Cons.prems(1) a] obtain u where u: "step a s = Inr u" "inv u" "post a u" by blast
  have valid: "\<forall>b. valid b s \<longrightarrow> valid b u" using step_valid [OF Cons.prems(1) a u(1)] by blast
  then have "\<forall>b\<in>set as. valid b u" using Cons.prems(2) by simp
  moreover have "\<forall>b\<in>insert a B. valid b u \<and> post b u"
    using Cons.prems(3) valid a u(3) step_post [OF Cons.prems(1) a u(1)] by blast
  ultimately obtain t where "foldR step as u = Inr t" "inv t" "\<forall>b\<in>insert a B \<union> set as. post b t"
    "\<forall>b. valid b u \<longrightarrow> valid b t"
    using Cons.IH [OF u(2)] by blast
  with u(1) valid show ?case by auto
qed

end

section \<open>The invariant of the world\<close>

definition member_ok :: "ref \<Rightarrow> Player \<Rightarrow> bool" where
  "member_ok p pl \<longleftrightarrow> settled pl \<and> p \<notin> set (m_LocalPlayers pl) \<and> length (m_LocalPlayers pl) \<le> 255"

definition registered :: "ref \<Rightarrow> System \<Rightarrow> bool" where
  "registered p s \<longleftrightarrow> p \<in> snd ` set (m_Players s)"

lemma registered_rooted [simp]: "registered p s \<Longrightarrow> rooted p s"
  by (simp add: registered_def rooted_def)

text \<open>
  A player of \<open>playerList\<close> may have left the world since the cycle began: then its client may be gone, but a client
  that is still there is its own and has its cipher.
\<close>

definition listed_ok :: "ref \<Rightarrow> System \<Rightarrow> bool" where
  "listed_ok p s \<longleftrightarrow> (\<exists>pl. heap_at (players s) p = Some pl \<and> member_ok p pl \<and> m_Client pl < length (clients s) \<and>
     (\<forall>x. heap_at (clients s) (m_Client pl) = Some x \<longrightarrow> player_ok p pl x s))"

definition world_ok :: "System \<Rightarrow> bool" where
  "world_ok s \<longleftrightarrow>
     registry_wf s \<and> refs_ok s \<and>
     (\<forall>p. registered p s \<longrightarrow> (\<exists>pl x. player_ok p pl x s \<and> member_ok p pl)) \<and>
     (\<forall>p\<in>set (playerList s). listed_ok p s)"

lemma world_ok_member:
  assumes "world_ok s" "registered p s"
  obtains pl x e where "player_ok p pl x s" "member_ok p pl" "m_Encryptor x = Some e"
  using assms by (fastforce simp: world_ok_def player_ok_def)

lemma listed_okE:
  assumes "listed_ok p s"
  obtains pl where "heap_at (players s) p = Some pl" "member_ok p pl" "m_Client pl < length (clients s)"
    "\<And>x. heap_at (clients s) (m_Client pl) = Some x \<Longrightarrow> player_ok p pl x s"
  using assms by (auto simp: listed_ok_def)

lemma listed_okI:
  "heap_at (players s) p = Some pl \<Longrightarrow> member_ok p pl \<Longrightarrow> m_Client pl < length (clients s) \<Longrightarrow>
   (\<And>x. heap_at (clients s) (m_Client pl) = Some x \<Longrightarrow> player_ok p pl x s) \<Longrightarrow> listed_ok p s"
  by (simp add: listed_ok_def)

text \<open>An operation that changes one registered player and its client.\<close>

definition changes :: "ref \<Rightarrow> Player \<Rightarrow> Player \<Rightarrow> Client \<Rightarrow> Client \<Rightarrow> System \<Rightarrow> System \<Rightarrow> bool" where
  "changes p pl pl' x x' s s' \<longleftrightarrow>
     m_Players s' = m_Players s \<and> m_OccupiedIndices s' = m_OccupiedIndices s \<and> m_Sessions s' = m_Sessions s \<and>
     m_Running s' = m_Running s \<and> playerList s' = playerList s \<and> length (players s') = length (players s) \<and>
     length (clients s') = length (clients s) \<and> sends x x' \<and>
     (\<forall>r y. heap_at (players s') r = Some y \<longrightarrow> r = p \<or> heap_at (players s) r = Some y) \<and>
     (\<forall>r. r \<noteq> p \<longrightarrow> rooted r s \<longrightarrow> heap_at (players s') r = heap_at (players s) r) \<and>
     (\<forall>c. c \<noteq> m_Client pl \<longrightarrow> heap_at (clients s') c = heap_at (clients s) c) \<and>
     m_Username pl' = m_Username pl \<and> m_Index pl' = m_Index pl \<and> m_Client pl' = m_Client pl \<and>
     heap_at (players s') p = Some pl' \<and> heap_at (clients s') (m_Client pl) = Some x'"

lemma other_client:
  assumes "player_ok p pl x s" "player_ok r plr xr s" "r \<noteq> p"
  shows "m_Client plr \<noteq> m_Client pl"
  using assms by (auto simp: player_ok_def)

lemma changes_others:
  assumes "changes p pl pl' x x' s s'" "player_ok p pl x s" "player_ok r plr xr s" "r \<noteq> p" "rooted r s"
  shows "player_ok r plr xr s'"
  using other_client [OF assms(2-4)] assms by (auto simp: changes_def player_ok_def)

lemma world_ok_changes:
  assumes "world_ok s" "player_ok p pl x s" "changes p pl pl' x x' s s'" "refs_ok s'"
    and "member_ok p pl'"
  shows "world_ok s'"
proof -
  have x': "m_Player x' = m_Player x" "m_Encryptor x' \<noteq> None"
    using assms(2,3) by (auto simp: changes_def sends_def player_ok_def)
  have "registry_wf s'"
  proof (rule registry_wf_cong [of s' s])
    show "registry_wf s" using assms(1) by (simp add: world_ok_def)
    fix r plr assume r: "r \<in> snd ` set (m_Players s)" "heap_at (players s) r = Some plr"
    show "\<exists>pl'. heap_at (players s') r = Some pl' \<and> m_Username pl' = m_Username plr \<and> m_Index pl' = m_Index plr"
    proof (cases "r = p")
      case True
      with r assms(2,3) show ?thesis by (auto simp: changes_def player_ok_def)
    next
      case False
      with r assms(3) show ?thesis by (auto simp: changes_def rooted_def)
    qed
  qed (use assms(3) in \<open>simp_all add: changes_def\<close>)
  moreover have "\<exists>plr xr. player_ok r plr xr s' \<and> member_ok r plr" if "registered r s'" for r
  proof (cases "r = p")
    case True
    then have "player_ok r pl' x' s'"
      using assms(2,3) x' by (auto simp: changes_def player_ok_def)
    with True assms(5) show ?thesis by blast
  next
    case False
    have reg: "registered r s" using that assms(3) by (simp add: changes_def registered_def)
    then obtain plr xr where "player_ok r plr xr s" "member_ok r plr" using assms(1) by (auto simp: world_ok_def)
    with changes_others [OF assms(3,2) _ False registered_rooted [OF reg]] show ?thesis by blast
  qed
  moreover have "listed_ok r s'" if "r \<in> set (playerList s')" for r
  proof (cases "r = p")
    case True
    with assms(2,3,5) x' show ?thesis by (auto simp: listed_ok_def changes_def player_ok_def dest: heap_at_length)
  next
    case False
    have r: "r \<in> set (playerList s)" "rooted r s" using that assms(3) by (simp_all add: changes_def rooted_def)
    then obtain plr where plr: "heap_at (players s) r = Some plr" "member_ok r plr" "m_Client plr < length (clients s)"
      "\<And>x. heap_at (clients s) (m_Client plr) = Some x \<Longrightarrow> player_ok r plr x s"
      using assms(1) by (auto simp: world_ok_def listed_ok_def)
    have other: "m_Client plr \<noteq> m_Client pl" using plr(4) assms(2) False by (auto simp: player_ok_def)
    with plr assms(3) False r(2) show ?thesis by (auto simp: listed_ok_def changes_def player_ok_def)
  qed
  ultimately show ?thesis using assms(4) by (simp add: world_ok_def)
qed

section \<open>The three passes\<close>

lemma Process_move_frame:
  assumes "settled pl"
  obtains pl1 where "Process_move pl = Inr pl1" "settled pl1" "m_Client pl1 = m_Client pl"
    "m_Username pl1 = m_Username pl" "m_Index pl1 = m_Index pl" "m_LocalPlayers pl1 = m_LocalPlayers pl"
proof -
  note eq = Process_move_eq [OF assms]
  show ?thesis
    by (rule that [OF eq settled_Process_move [OF assms eq]]) (simp_all add: set_waypoints_def)
qed

lemma put_id: "heap_at (clients s) c = Some x \<Longrightarrow> put_client c x s = s"
  by (auto simp: put_client_def heap_at_def list_update_same_conv split: if_splits)

lemma refs_ok_put_player:
  assumes "refs_ok s" "heap_at (players s) p = Some pl" "m_LocalPlayers pl' = m_LocalPlayers pl"
  shows "refs_ok (put_player p pl' s)"
proof -
  have at: "heap_at (players (put_player p pl' s)) r = (if r = p then Some pl' else heap_at (players s) r)" for r
    using assms(2) by (simp add: at_put_player)
  have alive: "alive r (put_player p pl' s) = alive r s" for r
    using assms(2) by (simp add: alive_def at)
  show ?thesis
    using assms unfolding refs_ok_def alive put_fields at by (auto split: if_splits)
qed

lemma process_member:
  assumes "world_ok s" "registered p s"
  obtains t pl pl' x x' pl1 where "Player_Process p s = Inr t" "player_ok p pl x s" "changes p pl pl' x x' s t"
    "world_ok t" "in_region pl'" "settled pl" "Process_move pl = Inr pl1"
    "pl' = (if in_region pl1 then pl1
       else pl1\<lparr>m_CurrentRegion := m_Position pl1, m_UpdateFlags := flag_or (m_UpdateFlags pl1) Flag_NeedsPlacement\<rparr>)"
    "x' = (if in_region pl1 then x else emit 73 (region_body (m_Position pl1)) x)"
proof -
  obtain pl x e where m: "player_ok p pl x s" "member_ok p pl" "m_Encryptor x = Some e"
    using world_ok_member [OF assms] .
  then have p: "heap_at (players s) p = Some pl" "heap_at (clients s) (m_Client pl) = Some x"
    by (simp_all add: player_ok_def)
  obtain pl1 where pl1: "Process_move pl = Inr pl1" "settled pl1" "m_Client pl1 = m_Client pl"
    "m_Username pl1 = m_Username pl" "m_Index pl1 = m_Index pl" "m_LocalPlayers pl1 = m_LocalPlayers pl"
    using m(2) Process_move_frame by (auto simp: member_ok_def)
  let ?pl2 = "pl1\<lparr>m_CurrentRegion := m_Position pl1, m_UpdateFlags := flag_or (m_UpdateFlags pl1) Flag_NeedsPlacement\<rparr>"
  define pl' where "pl' = (if in_region pl1 then pl1 else ?pl2)"
  define x' where "x' = (if in_region pl1 then x else emit 73 (region_body (m_Position pl1)) x)"
  let ?t = "put_client (m_Client pl) x' (put_player p pl' s)"
  have run: "Player_Process p s = Inr ?t"
    using MovementHandler_Process_eq [OF m(1) pl1(1,3)] p(2)
    by (simp add: Player_Process_def pl'_def x'_def put_id)
  have ch: "changes p pl pl' x x' s ?t"
    using p pl1 by (simp add: changes_def at_put_client [of _ _ x] at_put_player pl'_def x'_def sends_emit)
  have "settled ?pl2" using pl1(2) by (simp add: settled_def movement_wf_def waypoints_def)
  then have mem: "member_ok p pl'" using pl1(2,6) m(2) by (simp add: member_ok_def pl'_def)
  have refs: "refs_ok ?t"
  proof -
    have "refs_ok s" using assms(1) by (simp add: world_ok_def)
    then have "refs_ok (put_player p pl' s)"
      by (rule refs_ok_put_player [OF _ p(1)]) (simp add: pl'_def pl1(6))
    then show ?thesis by simp
  qed
  have "world_ok ?t" by (rule world_ok_changes [OF assms(1) m(1) ch refs mem])
  moreover have "in_region pl'" using in_region_own [of ?pl2] by (simp add: pl'_def)
  moreover have "settled pl" using m(2) by (simp add: member_ok_def)
  ultimately show ?thesis using that run m(1) ch pl1(1) pl'_def x'_def by blast
qed

text \<open>All registered players are within their map regions.\<close>

definition all_in_region :: "System \<Rightarrow> bool" where
  "all_in_region s \<longleftrightarrow> (\<forall>p pl. registered p s \<longrightarrow> heap_at (players s) p = Some pl \<longrightarrow> in_region pl)"

definition player_in_region :: "ref \<Rightarrow> System \<Rightarrow> bool" where
  "player_in_region p s \<longleftrightarrow> (\<exists>pl. heap_at (players s) p = Some pl \<and> in_region pl)"

definition player_clear :: "ref \<Rightarrow> System \<Rightarrow> bool" where
  "player_clear p s \<longleftrightarrow> (\<exists>pl. heap_at (players s) p = Some pl \<and> m_PrimaryDirection pl = -1 \<and>
     m_SecondaryDirection pl = -1 \<and> \<not> NeedsUpdate pl)"

lemma changes_registered: "changes p pl pl' x x' s t \<Longrightarrow> registered r t = registered r s"
  by (simp add: changes_def registered_def)

text \<open>
  What a cycle leaves alone: the registry and the sessions, the names and clients of players, the set of
  clients, and all of each client but what sending changes.
\<close>

definition same_registry :: "System \<Rightarrow> System \<Rightarrow> bool" where
  "same_registry s t \<longleftrightarrow> m_Players t = m_Players s \<and> m_OccupiedIndices t = m_OccupiedIndices s \<and>
     m_Sessions t = m_Sessions s \<and> m_Running t = m_Running s \<and> length (players t) = length (players s) \<and> length (clients t) = length (clients s) \<and>
     (\<forall>r y. heap_at (players t) r = Some y \<longrightarrow>
        (\<exists>y0. heap_at (players s) r = Some y0 \<and> m_Username y = m_Username y0 \<and> m_Client y = m_Client y0 \<and>
           (registered r s \<or> y = y0))) \<and>
     (\<forall>c. rel_option sends (heap_at (clients s) c) (heap_at (clients t) c))"

lemma same_registry_refl [simp]: "same_registry s s"
  by (auto simp: same_registry_def option.rel_refl)

lemma rel_sends_trans: "rel_option sends a b \<Longrightarrow> rel_option sends b c \<Longrightarrow> rel_option sends a c"
  by (auto simp: option_rel_Some1 option_rel_Some2 elim!: option.rel_cases intro: sends_trans)

lemma same_registry_trans:
  assumes "same_registry s t" "same_registry t u"
  shows "same_registry s u"
proof -
  have "registered r t = registered r s" for r using assms(1) by (simp add: same_registry_def registered_def)
  then have "\<exists>y0. heap_at (players s) r = Some y0 \<and> m_Username y = m_Username y0 \<and> m_Client y = m_Client y0 \<and>
      (registered r s \<or> y = y0)" if "heap_at (players u) r = Some y" for r y
    using that assms unfolding same_registry_def by metis
  moreover have "rel_option sends (heap_at (clients s) c) (heap_at (clients u) c)" for c
    using assms rel_sends_trans unfolding same_registry_def by blast
  ultimately show ?thesis using assms by (simp add: same_registry_def)
qed

lemma same_registry_changes:
  assumes "same_registry s0 s" "changes p pl pl' x x' s t" "player_ok p pl x s" "registered p s"
  shows "same_registry s0 t"
proof -
  have "\<exists>y0. heap_at (players s) r = Some y0 \<and> m_Username y = m_Username y0 \<and> m_Client y = m_Client y0 \<and>
      (registered r s \<or> y = y0)" if "heap_at (players t) r = Some y" for r y
    using that assms(2-4) by (cases "r = p") (auto simp: changes_def player_ok_def)
  moreover have "rel_option sends (heap_at (clients s) c) (heap_at (clients t) c)" for c
    using assms(2,3) by (cases "c = m_Client pl") (auto simp: changes_def player_ok_def option.rel_refl)
  ultimately have "same_registry s t"
    using assms(2) by (simp add: same_registry_def changes_def)
  with assms(1) show ?thesis by (rule same_registry_trans)
qed

interpretation process_pass: steps Player_Process "\<lambda>s. world_ok s \<and> same_registry s0 s" registered player_in_region
  for s0
proof
  fix s t :: System and p q :: ref
  assume inv: "world_ok s \<and> same_registry s0 s" and reg: "registered p s"
  then have w: "world_ok s" by simp
  obtain u pl pl' x x' where u: "Player_Process p s = Inr u" "player_ok p pl x s" "changes p pl pl' x x' s u"
    "world_ok u" "in_region pl'"
    using process_member [OF w reg] by metis
  from u show "\<exists>t. Player_Process p s = Inr t \<and> (world_ok t \<and> same_registry s0 t) \<and> player_in_region p t"
    using inv same_registry_changes [OF _ u(3,2) reg] by (auto simp: changes_def player_in_region_def)
  assume t: "Player_Process p s = Inr t"
  with u show "registered q s \<Longrightarrow> registered q t" by (simp add: changes_registered)
  assume "registered q s" "q \<noteq> p" "player_in_region q s"
  with t u show "player_in_region q t" by (auto simp: changes_def player_in_region_def)
qed

lemma all_in_region_changes:
  assumes "all_in_region s" "changes p pl pl' x x' s t" "in_region pl'"
  shows "all_in_region t"
proof -
  have "in_region plr" if "registered r s" "heap_at (players t) r = Some plr" for r plr
  proof (cases "r = p")
    case True
    with that assms(2,3) show ?thesis by (simp add: changes_def)
  next
    case False
    with that assms(1,2) show ?thesis by (simp add: changes_def all_in_region_def)
  qed
  with changes_registered [OF assms(2)] show ?thesis by (simp add: all_in_region_def)
qed

lemma updated_world_ok:
  assumes "world_ok s" "player_ok p pl x s" "member_ok p pl" "updated p pl x' locals s t"
    and "sends x x'" "p \<notin> set locals" "length locals \<le> 255"
  shows "changes p pl (pl\<lparr>m_LocalPlayers := locals\<rparr>) x x' s t" "world_ok t"
proof -
  from assms(4) have u: "refs_ok t" "same_rest (put_client (m_Client pl) x' s) t"
    "heap_at (players t) p = Some (pl\<lparr>m_LocalPlayers := locals\<rparr>)"
    "\<forall>r. r \<noteq> p \<longrightarrow> r \<in> set locals \<or> rooted r s \<longrightarrow>
        heap_at (players t) r = heap_at (players s) r"
    "\<forall>r x. r \<noteq> p \<longrightarrow> heap_at (players t) r = Some x \<longrightarrow> heap_at (players s) r = Some x"
    unfolding updated_def by - (elim conjE, assumption)+
  have c: "heap_at (clients s) (m_Client pl) = Some x" using assms(2) by (simp add: player_ok_def)
  have cl: "clients t = clients (put_client (m_Client pl) x' s)" using u(2) by (simp add: same_rest_def)
  have old: "\<forall>r y. heap_at (players t) r = Some y \<longrightarrow> r = p \<or> heap_at (players s) r = Some y"
    using u(5) by blast
  show ch: "changes p pl (pl\<lparr>m_LocalPlayers := locals\<rparr>) x x' s t"
    unfolding changes_def cl at_put_client [OF c]
    using u(2-4) assms(5) old by (simp add: same_rest_def registered_def)
  have "settled (pl\<lparr>m_LocalPlayers := locals\<rparr>)"
    using assms(3) by (simp add: member_ok_def settled_def movement_wf_def waypoints_def)
  then have "member_ok p (pl\<lparr>m_LocalPlayers := locals\<rparr>)" using assms(6,7) by (simp add: member_ok_def)
  then show "world_ok t" by (rule world_ok_changes [OF assms(1,2) ch u(1)])
qed

lemma in_region_local [simp]: "in_region (pl\<lparr>m_LocalPlayers := locals\<rparr>) = in_region pl"
  by (simp add: in_region_def)

lemma update_rooted:
  assumes "world_ok s" "player_ok p pl x s" "member_ok p pl" "rooted p s"
    and "set order = set (m_Players s)" "distinct (map snd order)"
  obtains t x' locals where "UpdatePlayer order p s = Inr t"
    "changes p pl (pl\<lparr>m_LocalPlayers := locals\<rparr>) x x' s t" "world_ok t"
    "length (kept_locals pl s) < 255 \<longrightarrow> locals = kept_locals pl s @ added_locals p pl s order \<and>
      (\<exists>body. body_of (update_fields pl s (added_locals p pl s order)) (update_block pl s (added_locals p pl s order)) body \<and>
         x' = emit 81 (frame_size_bytes HS_SHORT (length body) @ body) x)"
proof -
  obtain e where m: "player_ok p pl x s" "member_ok p pl" "m_Encryptor x = Some e"
    using assms(2,3) by (auto simp: player_ok_def)
  have refs: "refs_ok s" using assms(1) by (simp add: world_ok_def)
  note reg = assms(4)
  have self: "p \<notin> set (m_LocalPlayers pl)" "length (m_LocalPlayers pl) \<le> 255"
    using m(2) by (simp_all add: member_ok_def)
  let ?kept = "kept_locals pl s" and ?new = "added_locals p pl s order"
  have kept: "p \<notin> set ?kept" "length ?kept \<le> 255"
    using self by (auto simp: kept_locals_def intro: order.trans [OF length_filter_le])
  have both: "p \<notin> set (?kept @ ?new)" "length (?kept @ ?new) \<le> 255"
    using kept(1) length_added [of pl s p order] self(2) newcomers_subset [of p p]
    by (auto simp: added_locals_def)
  obtain t where t: "UpdatePlayer order p s = Inr t"
    "(if length ?kept \<ge> 255 then updated p pl (x\<lparr>m_Encryptor := Some (snd (GetNextKey e))\<rparr>) ?kept s t
     else \<exists>body. body_of (update_fields pl s ?new) (update_block pl s ?new) body \<and>
       updated p pl (emit 81 (frame_size_bytes HS_SHORT (length body) @ body) x) (?kept @ ?new) s t)"
    using UpdatePlayer_eq [OF m(1,3) refs reg self assms(5,6)] by blast
  show ?thesis
  proof (cases "length ?kept \<ge> 255")
    case True
    with t have "updated p pl (x\<lparr>m_Encryptor := Some (snd (GetNextKey e))\<rparr>) ?kept s t" by simp
    from updated_world_ok [OF assms(1) m(1,2) this sends_key kept] t(1) m(1,3) True that [of t] show ?thesis by simp
  next
    case False
    with t obtain body where "body_of (update_fields pl s ?new) (update_block pl s ?new) body"
      "updated p pl (emit 81 (frame_size_bytes HS_SHORT (length body) @ body) x) (?kept @ ?new) s t" by auto
    note u = updated_world_ok [OF assms(1) m(1,2) this(2) sends_emit both]
    show ?thesis by (rule that [OF t(1) u]) (use \<open>body_of _ _ body\<close> in blast)
  qed
qed

lemma update_member:
  assumes "world_ok s" "registered p s" "set order = set (m_Players s)" "distinct (map snd order)"
  obtains t pl x x' locals where "UpdatePlayer order p s = Inr t" "player_ok p pl x s"
    "changes p pl (pl\<lparr>m_LocalPlayers := locals\<rparr>) x x' s t" "world_ok t"
    "length (kept_locals pl s) < 255 \<longrightarrow> locals = kept_locals pl s @ added_locals p pl s order \<and>
      (\<exists>body. body_of (update_fields pl s (added_locals p pl s order)) (update_block pl s (added_locals p pl s order)) body \<and>
         x' = emit 81 (frame_size_bytes HS_SHORT (length body) @ body) x)"
proof -
  obtain pl x where m: "player_ok p pl x s" "member_ok p pl" using world_ok_member [OF assms(1,2)] .
  show ?thesis
    by (rule update_rooted [OF assms(1) m registered_rooted [OF assms(2)] assms(3,4)]) (erule that [OF _ m(1)])
qed

definition cycle_inv :: "System \<Rightarrow> System \<Rightarrow> bool" where
  "cycle_inv s0 s \<longleftrightarrow> world_ok s \<and> same_registry s0 s \<and> all_in_region s"

definition enumerates :: "(string \<times> ref) list \<Rightarrow> System \<Rightarrow> bool" where
  "enumerates order s \<longleftrightarrow> set order = set (m_Players s) \<and> distinct (map snd order)"

interpretation update_pass: steps "UpdatePlayer order" "\<lambda>s. cycle_inv s0 s \<and> enumerates order s" registered
  "\<lambda>p s. True" for s0 order
proof
  fix s t :: System and p q :: ref
  assume inv: "cycle_inv s0 s \<and> enumerates order s" and reg: "registered p s"
  then have w: "world_ok s" "set order = set (m_Players s)" "distinct (map snd order)"
    by (simp_all add: cycle_inv_def enumerates_def)
  obtain u pl x x' locals where u: "UpdatePlayer order p s = Inr u" "player_ok p pl x s"
    "changes p pl (pl\<lparr>m_LocalPlayers := locals\<rparr>) x x' s u" "world_ok u"
    using update_member [OF w(1) reg w(2,3)] by metis
  have "in_region pl" using inv reg u(2) by (auto simp: cycle_inv_def all_in_region_def player_ok_def)
  with inv u(3,4) have "cycle_inv s0 u"
    using all_in_region_changes [OF _ u(3)] same_registry_changes [OF _ u(3,2) reg] by (simp add: cycle_inv_def)
  moreover have "enumerates order u" using inv u(3) by (simp add: enumerates_def changes_def)
  ultimately show "\<exists>t. UpdatePlayer order p s = Inr t \<and> (cycle_inv s0 t \<and> enumerates order t) \<and> True"
    using u(1) by blast
  assume "UpdatePlayer order p s = Inr t" "registered q s"
  with u show "registered q t" by (simp add: changes_registered)
qed simp

text \<open>A player of \<open>playerList\<close> can be reset, also when its client is gone.\<close>

lemma reset_listed:
  assumes "world_ok s" "p \<in> set (playerList s)"
  obtains pl where "heap_at (players s) p = Some pl"
    "on_player p (\<lambda>pl. Inr (Player_Reset pl)) s = Inr (put_player p (Player_Reset pl) s)"
    "world_ok (put_player p (Player_Reset pl) s)"
proof -
  obtain pl where pl: "heap_at (players s) p = Some pl" "member_ok p pl" "m_Client pl < length (clients s)"
    "\<And>x. heap_at (clients s) (m_Client pl) = Some x \<Longrightarrow> player_ok p pl x s"
    using assms by (auto simp: world_ok_def listed_ok_def)
  let ?t = "put_player p (Player_Reset pl) s"
  note reset = Player_Reset_def ClearUpdateFlags_def SetSecondaryDirection_def SetPrimaryDirection_def
  have fields: "m_Client (Player_Reset pl) = m_Client pl" "m_Username (Player_Reset pl) = m_Username pl"
    "m_Index (Player_Reset pl) = m_Index pl" "m_LocalPlayers (Player_Reset pl) = m_LocalPlayers pl"
    by (simp_all add: reset)
  have mem: "member_ok p (Player_Reset pl)"
    using pl(2) by (simp add: member_ok_def settled_def movement_wf_def waypoints_def reset)
  have at: "heap_at (players ?t) r = (if r = p then Some (Player_Reset pl) else heap_at (players s) r)" for r
    using pl(1) by (simp add: at_put_player)
  have ok: "\<exists>pl'. player_ok r pl' x ?t \<and> member_ok r pl'" if "player_ok r plr x s" "member_ok r plr" for r plr x
  proof (cases "r = p")
    case True
    with that(1) pl(1) have "plr = pl" by (simp add: player_ok_def)
    with True that mem show ?thesis by (intro exI [of _ "Player_Reset pl"]) (simp add: player_ok_def at fields)
  qed (use that in \<open>simp add: player_ok_def at\<close>)
  have "registry_wf ?t"
    by (rule registry_wf_cong [of ?t s])
      (use assms(1) pl(1) in \<open>auto simp: world_ok_def at fields\<close>)
  moreover have "refs_ok ?t"
    by (rule refs_ok_put_player [OF _ pl(1)]) (use assms(1) in \<open>simp_all add: world_ok_def fields\<close>)
  moreover have "\<exists>pl x. player_ok r pl x ?t \<and> member_ok r pl" if "registered r ?t" for r
    using that ok assms(1) by (fastforce simp: world_ok_def registered_def)
  moreover have "listed_ok r ?t" if "r \<in> set (playerList ?t)" for r
    using that mem pl(1,3,4) assms(1)
    by (cases "r = p") (auto simp: world_ok_def listed_ok_def player_ok_def at fields)
  ultimately have "world_ok ?t" by (simp add: world_ok_def)
  moreover have "on_player p (\<lambda>pl. Inr (Player_Reset pl)) s = Inr ?t" using pl(1) by (simp add: on_player_eq)
  ultimately show ?thesis using that pl(1) by blast
qed

lemma reset_member:
  assumes "world_ok s" "registered p s"
  obtains t pl x where "on_player p (\<lambda>pl. Inr (Player_Reset pl)) s = Inr t" "player_ok p pl x s"
    "changes p pl (Player_Reset pl) x x s t" "world_ok t"
proof -
  obtain pl x e where m: "player_ok p pl x s" "member_ok p pl" "m_Encryptor x = Some e"
    using world_ok_member [OF assms] .
  then have p: "heap_at (players s) p = Some pl" "heap_at (clients s) (m_Client pl) = Some x"
    by (simp_all add: player_ok_def)
  let ?t = "put_player p (Player_Reset pl) s"
  note reset = Player_Reset_def ClearUpdateFlags_def SetSecondaryDirection_def SetPrimaryDirection_def
  have ch: "changes p pl (Player_Reset pl) x x s ?t"
    using p by (simp add: changes_def at_put_player reset)
  have refs: "refs_ok ?t"
    by (rule refs_ok_put_player [OF _ p(1)]) (use assms(1) in \<open>simp_all add: world_ok_def reset\<close>)
  have "member_ok p (Player_Reset pl)"
    using m(2) by (simp add: member_ok_def settled_def movement_wf_def waypoints_def reset)
  then have "world_ok ?t" by (rule world_ok_changes [OF assms(1) m(1) ch refs])
  moreover have "on_player p (\<lambda>pl. Inr (Player_Reset pl)) s = Inr ?t" using p(1) by (simp add: on_player_eq)
  ultimately show ?thesis using that m(1) ch by blast
qed

interpretation reset_pass: steps "\<lambda>p. on_player p (\<lambda>pl. Inr (Player_Reset pl))" "cycle_inv s0" registered
  player_clear for s0
proof
  fix s t :: System and p q :: ref
  assume inv: "cycle_inv s0 s" and reg: "registered p s"
  then have w: "world_ok s" by (simp add: cycle_inv_def)
  obtain u pl x where u: "on_player p (\<lambda>pl. Inr (Player_Reset pl)) s = Inr u" "player_ok p pl x s"
    "changes p pl (Player_Reset pl) x x s u" "world_ok u"
    using reset_member [OF w reg] .
  note reset = Player_Reset_def ClearUpdateFlags_def SetSecondaryDirection_def SetPrimaryDirection_def
  have "in_region pl" using inv reg u(2) by (auto simp: cycle_inv_def all_in_region_def player_ok_def)
  then have "in_region (Player_Reset pl)" by (simp add: in_region_def reset)
  with inv u(3,4) have "cycle_inv s0 u"
    using all_in_region_changes [OF _ u(3)] same_registry_changes [OF _ u(3,2) reg] by (simp add: cycle_inv_def)
  moreover have "player_clear p u"
    using u(3) by (simp add: player_clear_def changes_def reset NeedsUpdate_def Flag_None_def)
  ultimately show "\<exists>t. on_player p (\<lambda>pl. Inr (Player_Reset pl)) s = Inr t \<and> cycle_inv s0 t \<and> player_clear p t"
    using u(1) by blast
  assume t: "on_player p (\<lambda>pl. Inr (Player_Reset pl)) s = Inr t" and q: "registered q s"
  then show "registered q t" using u by (simp add: changes_registered)
  assume "q \<noteq> p" "player_clear q s"
  with t q u show "player_clear q t" by (auto simp: changes_def player_clear_def)
qed

section \<open>A whole cycle\<close>

text \<open>Listing players of the world, and giving them up again.\<close>

lemma playerList_fields [simp]:
  "registered p (s\<lparr>playerList := ps\<rparr>) = registered p s" "player_ok p pl x (s\<lparr>playerList := ps\<rparr>) = player_ok p pl x s"
  "registry_wf (s\<lparr>playerList := ps\<rparr>) = registry_wf s" "listed_ok p (s\<lparr>playerList := ps\<rparr>) = listed_ok p s"
  "all_in_region (s\<lparr>playerList := ps\<rparr>) = all_in_region s" "enumerates order (s\<lparr>playerList := ps\<rparr>) = enumerates order s"
  "same_registry s0 (s\<lparr>playerList := ps\<rparr>) = same_registry s0 s" "player_clear p (s\<lparr>playerList := ps\<rparr>) = player_clear p s"
  by (simp_all add: registered_def player_ok_def registry_wf_def index_of_def [abs_def] listed_ok_def all_in_region_def
      enumerates_def same_registry_def player_clear_def)

lemma listed_registered: "world_ok s \<Longrightarrow> registered p s \<Longrightarrow> listed_ok p s"
  by (fastforce simp: world_ok_def listed_ok_def player_ok_def dest: heap_at_length)

lemma world_ok_list:
  assumes "world_ok s" "\<forall>p\<in>set ps. registered p s"
  shows "world_ok (s\<lparr>playerList := ps\<rparr>)"
proof -
  have "rooted p (s\<lparr>playerList := ps\<rparr>) \<Longrightarrow> rooted p s" for p
    using assms(2) by (auto simp: rooted_def registered_def)
  then have "refs_ok (s\<lparr>playerList := ps\<rparr>)"
    using assms(1) by (simp add: world_ok_def refs_ok_def alive_def)
  with assms listed_registered [OF assms(1)] show ?thesis by (simp add: world_ok_def)
qed

lemma cycle_inv_list:
  "cycle_inv s0 s \<Longrightarrow> \<forall>p\<in>set ps. registered p s \<Longrightarrow> cycle_inv s0 (s\<lparr>playerList := ps\<rparr>)"
  by (simp add: cycle_inv_def world_ok_list)

lemma release_registered: "\<forall>p\<in>set ps. registered p s \<Longrightarrow> release_players ps s = s"
  by (induction ps) (simp_all add: release_players.simps owned_def split: option.split)

lemma World_Process_passes:
  assumes "foldR Player_Process (map snd order) s = Inr s1"
    and "foldR (UpdatePlayer order) (map snd order) (s1\<lparr>playerList := map snd order\<rparr>) = Inr s2"
    and "foldR (\<lambda>p. on_player p (\<lambda>pl. Inr (Player_Reset pl))) (map snd order) s2 = Inr s3"
    and "\<forall>p\<in>set (map snd order). registered p s3"
  shows "World_Process order s = Inr (s3\<lparr>playerList := []\<rparr>)"
proof -
  have "release_players (map snd order) (s3\<lparr>playerList := []\<rparr>) = s3\<lparr>playerList := []\<rparr>"
    using assms(4) by (intro release_registered) simp
  with assms(1-3) show ?thesis by (simp add: World_Process_def Update_def Let_def)
qed

lemma World_Process_ok:
  assumes "world_ok s" "enumerates order s"
  shows "\<exists>t. World_Process order s = Inr t \<and> cycle_inv s t \<and> (\<forall>p. registered p s \<longrightarrow> player_clear p t)"
proof -
  let ?ps = "map snd order"
  have reg: "\<forall>p\<in>set ?ps. registered p s" and all: "registered p s \<Longrightarrow> p \<in> set ?ps" for p
    using assms(2) by (auto simp: enumerates_def registered_def)
  from process_pass.run [of s s ?ps "{}"] assms(1) reg obtain s1 where s1:
    "foldR Player_Process ?ps s = Inr s1" "world_ok s1" "same_registry s s1" "\<forall>p\<in>set ?ps. player_in_region p s1"
    by auto
  have eq: "m_Players s1 = m_Players s" using s1(3) by (simp add: same_registry_def)
  have "all_in_region s1"
    using s1(4) all unfolding all_in_region_def player_in_region_def registered_def eq by force
  then have "cycle_inv s s1" using s1(2,3) by (simp add: cycle_inv_def)
  moreover have reg1: "\<forall>p\<in>set ?ps. registered p s1" using reg eq by (simp add: registered_def)
  ultimately have inv1: "cycle_inv s (s1\<lparr>playerList := ?ps\<rparr>) \<and> enumerates order (s1\<lparr>playerList := ?ps\<rparr>)"
    using assms(2) eq cycle_inv_list by (simp add: enumerates_def)
  have "\<forall>p\<in>set ?ps. registered p (s1\<lparr>playerList := ?ps\<rparr>)" using reg1 by simp
  from update_pass.run [OF inv1 this, of "{}"] obtain s2 where s2:
    "foldR (UpdatePlayer order) ?ps (s1\<lparr>playerList := ?ps\<rparr>) = Inr s2" "cycle_inv s s2"
    by auto
  have "\<forall>p\<in>set ?ps. registered p s2"
    using reg s2(2) by (simp add: cycle_inv_def same_registry_def registered_def)
  from reset_pass.run [OF s2(2) this, of "{}"] obtain s3 where s3:
    "foldR (\<lambda>p. on_player p (\<lambda>pl. Inr (Player_Reset pl))) ?ps s2 = Inr s3" "cycle_inv s s3"
    "\<forall>p\<in>set ?ps. player_clear p s3"
    by auto
  have "\<forall>p\<in>set ?ps. registered p s3"
    using reg s3(2) by (simp add: cycle_inv_def same_registry_def registered_def)
  from World_Process_passes [OF s1(1) s2(1) s3(1) this] have "World_Process order s = Inr (s3\<lparr>playerList := []\<rparr>)" .
  moreover have "cycle_inv s (s3\<lparr>playerList := []\<rparr>)" using s3(2) by (intro cycle_inv_list) simp_all
  moreover have "\<forall>p. registered p s \<longrightarrow> player_clear p (s3\<lparr>playerList := []\<rparr>)" using s3(3) all by auto
  ultimately show ?thesis by (intro exI [of _ "s3\<lparr>playerList := []\<rparr>"]) simp
qed

section \<open>Properties\<close>

text \<open>
  C17: a cycle of the world never faults. From any state in which the registry is consistent, every
  registered player has a live client with a cipher, and the waypoint queues and local lists are
  well formed, \<open>World::Process\<close> runs to its end, whatever the order of iteration; the registry is
  unchanged, the invariant holds again, and every registered player is within its map region, with
  its directions and update flags cleared.
\<close>

theorem cycle_never_faults:
  assumes "world_ok s" "enumerates order s"
  shows "\<exists>t. World_Process order s = Inr t \<and> world_ok t \<and>
    m_Players t = m_Players s \<and> m_OccupiedIndices t = m_OccupiedIndices s \<and>
    (\<forall>p. registered p s \<longrightarrow> (\<exists>pl. heap_at (players t) p = Some pl \<and> in_region pl \<and>
       m_PrimaryDirection pl = -1 \<and> m_SecondaryDirection pl = -1 \<and> m_UpdateFlags pl = 0))"
proof -
  obtain t where t: "World_Process order s = Inr t" "cycle_inv s t" "\<forall>p. registered p s \<longrightarrow> player_clear p t"
    using World_Process_ok [OF assms] by blast
  have "registered p t = registered p s" for p
    using t(2) by (simp add: cycle_inv_def same_registry_def registered_def)
  with t show ?thesis
    unfolding player_clear_def NeedsUpdate_def
    by (intro exI [of _ t]) (fastforce simp: cycle_inv_def same_registry_def all_in_region_def)
qed

text \<open>The server of \<open>one_player\<close> with its player registered.\<close>

definition one_registered :: System where
  "one_registered = enter_player 0 walker 0 one_player"

lemma one_registered_players: "m_Players one_registered = [(''bob'', 0)]"
  by (simp add: one_registered_def enter_player_def one_player_def walker_def set_waypoints_def Player_new_def)

lemma one_registered_ok: "world_ok one_registered" "enumerates [(''bob'', 0)] one_registered"
proof -
  have name: "m_Username walker = ''bob''" "m_LocalPlayers walker = []"
    by (simp_all add: walker_def set_waypoints_def Player_new_def)
  have at: "heap_at (players one_player) 0 = Some walker" using one_player_ok by (simp add: player_ok_def)
  note pls = one_registered_players
  have list: "playerList one_registered = []" by (simp add: one_registered_def enter_player_def one_player_def)
  show "enumerates [(''bob'', 0)] one_registered" by (simp add: enumerates_def pls)
  have none: "\<not> (\<forall>j<MAX_PLAYERS. replicate 2048 False ! j)"
    by (rule notI, drule spec [of _ 0]) (simp add: MAX_PLAYERS_def)
  have "(LEAST k. k < MAX_PLAYERS \<and> \<not> replicate 2048 False ! k) = 0"
    by (rule Least_equality) (simp_all add: MAX_PLAYERS_def)
  with none have "free_slot (m_OccupiedIndices one_player) = (Some 0, (m_OccupiedIndices one_player)[0 := True])"
    by (simp add: free_slot_spec one_player_def)
  then have reg: "registry_wf one_registered"
    unfolding one_registered_def
    by (intro registry_wf_enter [OF registry_one_player at]) (simp_all add: name one_player_def MAX_PLAYERS_def)
  let ?w = "walker\<lparr>m_Index := 0\<rparr>"
  have ok: "player_ok 0 ?w one_client one_registered"
    using player_ok_enter [OF one_player_ok, of 0] by (simp add: one_registered_def)
  have only: "heap_at (players one_registered) q = Some y \<Longrightarrow> q = 0 \<and> y = ?w" for q y
    using ok by (auto simp: player_ok_def one_registered_def enter_player_def put_player_def one_player_def
        heap_at_def split: if_splits)
  have "refs_ok one_registered"
    using ok by (auto simp: refs_ok_def alive_def rooted_def list pls player_ok_def name dest: only)
  moreover have "member_ok 0 ?w"
    using walker_settled by (simp add: member_ok_def settled_def movement_wf_def waypoints_def name)
  ultimately show "world_ok one_registered"
    using reg ok by (auto simp: world_ok_def registered_def pls list)
qed

theorem cycle_never_faults_witness:
  "\<exists>t pl. World_Process [(''bob'', 0)] one_registered = Inr t \<and> world_ok t \<and>
    heap_at (players t) 0 = Some pl \<and> in_region pl"
proof -
  have "registered 0 one_registered"
    by (simp add: registered_def one_registered_players)
  with cycle_never_faults [OF one_registered_ok] show ?thesis by blast
qed

text \<open>
  C13: the update packet of a player of the world. \<open>UpdatePlayer\<close> never faults. If fewer than 255 of the
  local players stay in view, exactly one packet is posted, with opcode 81 and a payload shorter than 65536
  bytes, so that the two bytes of its length field are exact. The payload is the bit fields of the
  player's movement, of the number of local players, of the movement or removal of each of them and of
  each newcomer, then, if any attributes are sent, the marker 2047 in eleven bits and the block of
  attributes. The new list of local players is those that stayed and the newcomers. Otherwise a key of the
  cipher is used up, and nothing is posted.
\<close>

theorem update_packet:
  assumes "world_ok s" "enumerates order s" "registered p s" "player_ok p pl x s" "m_Encryptor x = Some e"
  defines "kept \<equiv> filter (\<lambda>q. stays pl (look s q)) (m_LocalPlayers pl)"
  defines "new \<equiv> take (255 - length kept)
    (filter (\<lambda>q. q \<noteq> p \<and> q \<notin> set kept \<and> in_view pl (look s q)) (map snd order))"
  defines "flds \<equiv> local_fields pl @ (8, word_of_nat (length (m_LocalPlayers pl))) #
    concat (map (\<lambda>q. if stays pl (look s q) then movement_fields (look s q) else [(1, 1), (2, 3)]) (m_LocalPlayers pl)) @
    concat (map (\<lambda>q. add_fields pl (look s q)) new)"
  defines "block \<equiv> (if NeedsUpdate pl then state_bytes False pl else []) @
    concat (map (\<lambda>q. if stays pl (look s q) \<and> NeedsUpdate (look s q) then state_bytes False (look s q) else [])
      (m_LocalPlayers pl)) @
    concat (map (\<lambda>q. state_bytes True (look s q)) new)"
  shows "\<exists>t. UpdatePlayer order p s = Inr t \<and>
    (if length kept \<ge> 255
     then heap_at (clients t) (m_Client pl) = Some (x\<lparr>m_Encryptor := Some (snd (GetNextKey e))\<rparr>) \<and>
       heap_at (players t) p = Some (pl\<lparr>m_LocalPlayers := kept\<rparr>)
     else \<exists>bits. packed (enc_fields (flds @ (if block = [] then [] else [(11, 2047)]))) bits \<and>
       length (bits @ block) < 65536 \<and>
       heap_at (clients t) (m_Client pl) =
         Some (emit 81 (word_of_nat (length (bits @ block) div 256) # word_of_nat (length (bits @ block)) #
           bits @ block) x) \<and>
       heap_at (players t) p = Some (pl\<lparr>m_LocalPlayers := kept @ new\<rparr>))"
proof -
  obtain pl' x1 where "player_ok p pl' x1 s" "member_ok p pl'" using assms(1,3) by (auto simp: world_ok_def)
  with assms(4) have mem: "member_ok p pl" by (simp add: player_ok_def)
  have refs: "refs_ok s" and reg: "rooted p s"
    and self: "p \<notin> set (m_LocalPlayers pl)" "length (m_LocalPlayers pl) \<le> 255"
    and ord: "set order = set (m_Players s)" "distinct (map snd order)"
    using assms(1-3) mem by (simp_all add: world_ok_def registered_def member_ok_def enumerates_def)
  have c: "heap_at (clients s) (m_Client pl) = Some x" using assms(4) by (simp add: player_ok_def)
  have eqs: "kept_locals pl s = kept" "added_locals p pl s order = new"
    "update_fields pl s new = flds" "update_block pl s new = block"
    unfolding kept_locals_def kept_def added_locals_def newcomers_def new_def update_fields_def
      flds_def update_block_def block_def seen_fields_def seen_bytes_def removal_fields_def
    by simp_all
  have upd: "heap_at (clients t) (m_Client pl) = Some y \<and> heap_at (players t) p = Some (pl\<lparr>m_LocalPlayers := locals\<rparr>)"
    if "updated p pl y locals s t" for y locals t
    using that c by (simp add: updated_def same_rest_def at_put_client)
  have new: "length new \<le> 255" by (simp add: new_def)
  note small = body_small [OF self(2) new, of s]
  show ?thesis
    using UpdatePlayer_eq [OF assms(4,5) refs reg self ord] unfolding eqs
    using small upd by (fastforce simp: body_of_def eqs split: if_splits)
qed

theorem update_packet_witness:
  "\<exists>t bits. UpdatePlayer [(''bob'', 0)] 0 one_registered = Inr t \<and> packed (enc_fields [(1, 0), (8, 0)]) bits \<and>
    heap_at (clients t) 0 = Some (emit 81 (word_of_nat (length bits div 256) # word_of_nat (length bits) # bits) one_client)"
proof -
  let ?w = "walker\<lparr>m_Index := 0\<rparr>"
  have reg: "registered 0 one_registered" by (simp add: registered_def one_registered_players)
  have ok: "player_ok 0 ?w one_client one_registered"
    using player_ok_enter [OF one_player_ok, of 0] by (simp add: one_registered_def)
  have e: "m_Encryptor one_client = Some (ISAACCipher_new 1 2 3 4)" by (simp add: one_client_def)
  have w: "m_LocalPlayers ?w = []" "NeedsUpdate ?w = False" "local_fields ?w = [(1, 0)]" "m_Client ?w = 0"
    by (simp_all add: walker_def set_waypoints_def Player_new_def NeedsUpdate_def Flag_None_def local_fields_def
        NeedsUpdate_flag_def movement_fields_def hasFlag_def flag_and_def)
  from update_packet [OF one_registered_ok reg ok e] show ?thesis
    unfolding w by (auto simp del: enc_fields_simps)
qed

end
