(* ===== verification/Client_IO.thy ===== *)
theory Client_IO
  imports World_Tick
begin

text \<open>
  The life of a connection in \<open>src/src/Client.cpp\<close>: starting reads and writes, the functions that are
  posted to the strand, the completion of a write, and \<open>Disconnect\<close>. (What a completed read does is in the
  theories \<open>LoginHandler\<close> and \<open>Client_Input\<close>.)

  \<open>write_wf\<close> is the invariant of the write queue: at most one write is outstanding, it is of the front of
  the queue, and \<open>m_Writing\<close> says whether there is one. \<open>posted\<close> is all data ever handed to \<open>Send\<close>; every
  handler keeps it, so data is sent completely and in order.
\<close>

section \<open>Definitions\<close>

definition SetNetworkStage :: "NetworkStage \<Rightarrow> Client \<Rightarrow> Client" where
  "SetNetworkStage stage x = x\<lparr>m_Stage := stage\<rparr>"

definition SetUsername :: "string \<Rightarrow> Client \<Rightarrow> Client" where
  "SetUsername name x = x\<lparr>m_ClientUsername := name\<rparr>"

definition SetPlayer :: "ref \<Rightarrow> Client \<Rightarrow> Client" where
  "SetPlayer p x = x\<lparr>m_Player := Some p\<rparr>"

definition SetDecryptor :: "ISAACCipher \<Rightarrow> Client \<Rightarrow> Client" where
  "SetDecryptor d x = x\<lparr>m_Decryptor := Some d\<rparr>"

definition SetEncryptor :: "ISAACCipher \<Rightarrow> Client \<Rightarrow> Client" where
  "SetEncryptor e x = x\<lparr>m_Encryptor := Some e\<rparr>"

definition ReadIncomingData :: "Client \<Rightarrow> fault + Client" where
  "ReadIncomingData x = (if reading x then Inl OverlappingOperation else Inr (x\<lparr>reading := True\<rparr>))"

definition Client_Start :: "Client \<Rightarrow> fault + Client" where
  "Client_Start x = ReadIncomingData x"

definition RequestDisconnect :: "Client \<Rightarrow> Client" where
  "RequestDisconnect x = x\<lparr>m_Strand := m_Strand x @ [RequestDisconnectTask]\<rparr>"

definition DoWrite :: "Client \<Rightarrow> fault + Client" where
  "DoWrite x =
     (let x = x\<lparr>m_Writing := True\<rparr>
      in case m_WriteQueue x of
           [] \<Rightarrow> Inl OutOfBounds
         | front # _ \<Rightarrow>
             if write_op x \<noteq> None then Inl OverlappingOperation
             else Inr (x\<lparr>write_op := Some front\<rparr>))"

text \<open>The function posted by \<open>Send\<close>.\<close>

definition send_task :: "i8 list \<Rightarrow> Client \<Rightarrow> fault + Client" where
  "send_task data x =
     (let x = x\<lparr>m_WriteQueue := m_WriteQueue x @ [data]\<rparr>
      in if \<not> m_Writing x then DoWrite x else Inr x)"

text \<open>
  The callback \<open>m_OnDisconnect\<close> that \<open>Server::AcceptClients\<close> installs, with the \<open>weak_ptr\<close> it captured.
\<close>

definition OnDisconnect :: "ref \<Rightarrow> System \<Rightarrow> System" where
  "OnDisconnect weak_client s =
     (case heap_at (clients s) weak_client of
        None \<Rightarrow> s
      | Some _ \<Rightarrow> s\<lparr>m_Sessions := removeAll weak_client (m_Sessions s)\<rparr>)"

definition Disconnect :: "ref \<Rightarrow> System \<Rightarrow> fault + System" where
  "Disconnect c s =
     bindR (deref (clients s) c) (\<lambda>x.
       if m_Disconnected x then Inr s
       else
         let x = x\<lparr>m_Disconnected := True\<rparr>;
             x = (if socket_open x then x\<lparr>socket_open := False\<rparr> else x);
             s = put_client c x s
         in bindR (case GetPlayer x s of
                     Some _ \<Rightarrow> RemovePlayer (m_ClientUsername x) s
                   | None \<Rightarrow> Inr s) (\<lambda>s.
            bindR (on_client c (\<lambda>x. Inr (SetNetworkStage LOGGED_OUT x)) s) (\<lambda>s.
            bindR (deref (clients s) c) (\<lambda>x.
              Inr (case m_OnDisconnect x of
                     None \<Rightarrow> s
                   | Some weak_client \<Rightarrow> OnDisconnect weak_client s)))))"

text \<open>The function posted by \<open>RequestDisconnect\<close>.\<close>

definition disconnect_task :: "ref \<Rightarrow> System \<Rightarrow> fault + System" where
  "disconnect_task c s =
     bindR (on_client c (\<lambda>x. Inr (x\<lparr>m_PendingDisconnect := True\<rparr>)) s) (\<lambda>s.
     bindR (deref (clients s) c) (\<lambda>x.
       if \<not> m_Writing x \<and> m_WriteQueue x = [] then Disconnect c s else Inr s))"

text \<open>The completion handler of the write that \<open>DoWrite\<close> starts; \<open>ok\<close> is \<open>!ec\<close>.\<close>

definition write_done :: "bool \<Rightarrow> ref \<Rightarrow> System \<Rightarrow> fault + System" where
  "write_done ok c s =
     (if ok
      then
        bindR (deref (clients s) c) (\<lambda>x.
          case m_WriteQueue x of
            [] \<Rightarrow> Inl OutOfBounds
          | _ # queue \<Rightarrow>
              let x = x\<lparr>m_WriteQueue := queue\<rparr>
              in if queue \<noteq> []
                 then bindR (DoWrite x) (\<lambda>x. Inr (put_client c x s))
                 else
                   let x = x\<lparr>m_Writing := False\<rparr>; s = put_client c x s
                   in if m_PendingDisconnect x
                      then bindR (Disconnect c s)
                             (on_client c (\<lambda>x. Inr (x\<lparr>m_PendingDisconnect := False\<rparr>)))
                      else Inr s)
      else Disconnect c s)"

section \<open>The effect of a disconnect on the client\<close>

definition closed :: "Client \<Rightarrow> Client" where
  "closed x = (if m_Disconnected x then x
     else x\<lparr>m_Disconnected := True, socket_open := False, m_Stage := LOGGED_OUT\<rparr>)"

lemma RemovePlayer_clients: "RemovePlayer name s = Inr t \<Longrightarrow> clients t = clients s \<and> m_Sessions t = m_Sessions s"
  by (auto simp: RemovePlayer_def Logout_def Let_def fault_simps release_players_frame split: option.splits if_splits)

lemma Disconnect_clients:
  assumes "heap_at (clients s) c = Some x" "Disconnect c s = Inr t"
  shows "clients t = clients (put_client c (closed x) s)"
proof (cases "m_Disconnected x")
  case True
  with assms show ?thesis by (simp add: Disconnect_def deref_def closed_def put_id)
next
  case False
  let ?x = "x\<lparr>m_Disconnected := True, socket_open := False\<rparr>"
  have x: "(if socket_open x then x\<lparr>m_Disconnected := True, socket_open := False\<rparr>
      else x\<lparr>m_Disconnected := True\<rparr>) = ?x"
    by (cases "socket_open x") (cases x; simp)+
  from False assms obtain u where u: "clients u = clients (put_client c ?x s)"
    and t: "bindR (on_client c (\<lambda>x. Inr (SetNetworkStage LOGGED_OUT x)) u) (\<lambda>s. bindR (deref (clients s) c)
      (\<lambda>x. Inr (case m_OnDisconnect x of None \<Rightarrow> s | Some weak_client \<Rightarrow> OnDisconnect weak_client s))) = Inr t"
    by (auto simp: Disconnect_def deref_def Let_def x fault_simps dest!: RemovePlayer_clients split: option.splits)
  have "heap_at (clients u) c = Some ?x" using assms(1) by (simp add: u at_put_client)
  with t have "clients t = clients (put_client c (SetNetworkStage LOGGED_OUT ?x) u)"
    by (auto simp: on_client_def deref_def OnDisconnect_def split: option.splits)
  also have "\<dots> = clients (put_client c (closed x) s)"
    using False by (simp add: put_client_def u SetNetworkStage_def closed_def)
  finally show ?thesis .
qed

lemma closed_fields [simp]:
  "m_Strand (closed x) = m_Strand x" "reading (closed x) = reading x" "write_op (closed x) = write_op x"
  "sent (closed x) = sent x" "m_WriteQueue (closed x) = m_WriteQueue x" "m_Writing (closed x) = m_Writing x"
  "m_Player (closed x) = m_Player x" "m_Encryptor (closed x) = m_Encryptor x" "m_Disconnected (closed x)"
  "m_Decryptor (closed x) = m_Decryptor x" "m_ClientUsername (closed x) = m_ClientUsername x"
  "m_OnDisconnect (closed x) = m_OnDisconnect x" "m_PendingDisconnect (closed x) = m_PendingDisconnect x"
  by (simp_all add: closed_def)

lemma put_client_players [simp]:
  "put_client c x (s\<lparr>players := h\<rparr>) = (put_client c x s)\<lparr>players := h\<rparr>"
  "put_client c x (s\<lparr>m_Sessions := ss\<rparr>) = (put_client c x s)\<lparr>m_Sessions := ss\<rparr>"
  by (simp_all add: put_client_def)

lemma owned_put_client [simp]: "owned p (put_client c x s) = owned p s"
  by (simp add: owned_def)

lemma release_players_put_client:
  "release_players ps (put_client c x s) = put_client c x (release_players ps s)"
  by (induction ps s rule: release_players.induct)
    (simp_all add: release_players.simps(1) release_players.simps(2) [of _ _ "put_client c x _"]
      release_players.simps(2) split: option.splits)

lemma RemovePlayer_put_client:
  assumes "RemovePlayer name s = Inr t"
  shows "RemovePlayer name (put_client c x s) = Inr (put_client c x t)"
  using assms
  by (auto simp: RemovePlayer_def World_GetPlayer_def Logout_def Let_def deref_def fault_simps
      release_players_put_client put_player_upd [symmetric] simp del: put_player_upd split: option.splits if_splits)

lemma RemovePlayer_ok:
  assumes "registry_wf s"
  obtains t where "RemovePlayer name s = Inr t"
proof (cases "World_GetPlayer name s")
  case None
  then show ?thesis by (intro that [of s]) (simp add: RemovePlayer_def)
next
  case (Some p)
  then have "(name, p) \<in> set (m_Players s)" by (simp add: World_GetPlayer_def map_of_SomeD)
  from RemovePlayer_eq [OF assms this] show ?thesis by (rule that)
qed

text \<open>The first disconnect of a client, in a consistent world.\<close>

lemma Disconnect_eq:
  assumes x: "heap_at (clients s) c = Some x" "\<not> m_Disconnected x" "m_OnDisconnect x = Some c" "registry_wf s"
  obtains u where "(if GetPlayer x s = None then Inr s else RemovePlayer (m_ClientUsername x) s) = Inr u"
    "Disconnect c s = Inr ((put_client c (closed x) u)\<lparr>m_Sessions := removeAll c (m_Sessions s)\<rparr>)"
    "clients u = clients s"
proof -
  let ?x = "x\<lparr>m_Disconnected := True, socket_open := False\<rparr>"
  obtain u where u: "(if GetPlayer x s = None then Inr s else RemovePlayer (m_ClientUsername x) s) = Inr u"
    using RemovePlayer_ok [OF x(4)] by metis
  then have cl: "clients u = clients s" "m_Sessions u = m_Sessions s"
    by (auto dest: RemovePlayer_clients split: if_splits)
  then have at: "heap_at (clients (put_client c y u)) c = Some y" for y
    using x(1) by (simp add: at_put_client)
  have same: "?x = x\<lparr>m_Disconnected := True\<rparr>" if "\<not> socket_open x" using that by (cases x) simp
  have "GetPlayer ?x (put_client c ?x s) = GetPlayer x s" by (simp add: GetPlayer_def split: option.split)
  then have rem: "(case GetPlayer ?x (put_client c ?x s) of None \<Rightarrow> Inr (put_client c ?x s)
      | Some _ \<Rightarrow> RemovePlayer (m_ClientUsername ?x) (put_client c ?x s)) = Inr (put_client c ?x u)"
    using u by (auto simp: RemovePlayer_put_client split: option.splits)
  have "deref (clients s) c = Inr x" using x(1) by simp
  then have "Disconnect c s = bindR (on_client c (\<lambda>x. Inr (SetNetworkStage LOGGED_OUT x)) (put_client c ?x u))
      (\<lambda>s. bindR (deref (clients s) c) (\<lambda>x.
        Inr (case m_OnDisconnect x of None \<Rightarrow> s | Some weak_client \<Rightarrow> OnDisconnect weak_client s)))"
    using x(2) rem by (cases "socket_open x") (simp_all add: Disconnect_def Let_def same del: deref_eq cong: option.case_cong)
  also have "\<dots> = Inr ((put_client c (closed x) u)\<lparr>m_Sessions := removeAll c (m_Sessions s)\<rparr>)"
    using x(2,3) by (simp add: on_client_def deref_def at SetNetworkStage_def OnDisconnect_def closed_def cl)
  finally have "Disconnect c s = Inr ((put_client c (closed x) u)\<lparr>m_Sessions := removeAll c (m_Sessions s)\<rparr>)" .
  with u cl(1) show ?thesis by (intro that)
qed

section \<open>The write queue\<close>

text \<open>What waits on a strand: the results of writes and of reads, and the data to be sent.\<close>

fun write_results :: "handler list \<Rightarrow> bool list" where
  "write_results [] = []"
| "write_results (WriteDone ok # hs) = ok # write_results hs"
| "write_results (_ # hs) = write_results hs"

fun send_tasks :: "handler list \<Rightarrow> i8 list list" where
  "send_tasks [] = []"
| "send_tasks (SendTask data # hs) = data # send_tasks hs"
| "send_tasks (_ # hs) = send_tasks hs"

lemma strand_append [simp]:
  "write_results (gs @ hs) = write_results gs @ write_results hs"
  "send_tasks (gs @ hs) = send_tasks gs @ send_tasks hs"
  by (induction gs rule: write_results.induct) simp_all

lemma send_tasks_map [simp]: "send_tasks (map SendTask ds) = ds" "write_results (map SendTask ds) = []"
  by (induction ds) simp_all

definition write_wf :: "Client \<Rightarrow> bool" where
  "write_wf x \<longleftrightarrow>
     (if m_Writing x
      then m_WriteQueue x \<noteq> [] \<and>
        (case write_op x of
           Some data \<Rightarrow> data = hd (m_WriteQueue x) \<and> write_results (m_Strand x) = []
         | None \<Rightarrow> (\<exists>ok. write_results (m_Strand x) = [ok]) \<or> m_Disconnected x \<and> write_results (m_Strand x) = [])
      else m_WriteQueue x = [] \<and> write_op x = None \<and> write_results (m_Strand x) = [])"

text \<open>All data handed to \<open>Send\<close>: completely sent, queued, or waiting on the strand.\<close>

definition posted :: "Client \<Rightarrow> i8 list list" where
  "posted x = sent x @ (if write_results (m_Strand x) = [True] then tl (m_WriteQueue x) else m_WriteQueue x) @
     send_tasks (m_Strand x)"

text \<open>The completion of an outstanding write puts its handler on the strand.\<close>

definition complete_write :: "bool \<Rightarrow> Client \<Rightarrow> Client" where
  "complete_write ok x =
     (case write_op x of
        None \<Rightarrow> x
      | Some data \<Rightarrow> x\<lparr>write_op := None, sent := (if ok then sent x @ [data] else sent x),
          m_Strand := m_Strand x @ [WriteDone ok]\<rparr>)"

lemma complete_write_ok:
  assumes "write_wf x"
  shows "write_wf (complete_write ok x)" "posted (complete_write ok x) = posted x"
  using assms by (auto simp: write_wf_def posted_def complete_write_def split: option.splits if_splits)

lemma Send_ok:
  assumes "write_wf x"
  shows "write_wf (x\<lparr>m_Strand := m_Strand x @ [SendTask data]\<rparr>)"
    "posted (x\<lparr>m_Strand := m_Strand x @ [SendTask data]\<rparr>) = posted x @ [data]"
  using assms by (auto simp: write_wf_def posted_def split: option.splits)

lemma send_task_ok:
  assumes "write_wf x" "m_Strand x = SendTask data # hs"
  shows "\<exists>y. send_task data (x\<lparr>m_Strand := hs\<rparr>) = Inr y \<and> write_wf y \<and> posted y = posted x \<and> m_Strand y = hs"
  using assms
  by (auto simp: send_task_def DoWrite_def Let_def write_wf_def posted_def split: option.splits list.splits if_splits)

lemma closed_ok: "write_wf x \<Longrightarrow> write_wf (closed x)" "posted (closed x) = posted x"
  by (auto simp: write_wf_def posted_def split: option.splits if_splits)

end
