(* ===== verification/Session.thy ===== *)
theory Session
  imports Client_IO
begin

text \<open>
  The invariant of the whole server, \<open>sys_inv\<close>, and the operations shown so far to keep it:
  changes of the I/O state of one client, \<open>Disconnect\<close>, and a cycle of the world. It connects the state
  of each client (its stage, its outstanding operations, its player) with the registry of the world and the
  table of sessions.
\<close>

section \<open>The strand of a client\<close>

fun read_results :: "handler list \<Rightarrow> i8 list option list" where
  "read_results [] = []"
| "read_results (ReadDone r # hs) = r # read_results hs"
| "read_results (_ # hs) = read_results hs"

lemma read_results_append [simp]: "read_results (gs @ hs) = read_results gs @ read_results hs"
  by (induction gs rule: read_results.induct) simp_all

lemma read_results_map [simp]: "read_results (map SendTask ds) = []"
  by (induction ds) simp_all

text \<open>A requested disconnect is run before the result of a read that was started after it.\<close>

fun requests_first :: "handler list \<Rightarrow> bool" where
  "requests_first [] \<longleftrightarrow> True"
| "requests_first (ReadDone r # hs) \<longleftrightarrow> RequestDisconnectTask \<notin> set hs"
| "requests_first (_ # hs) \<longleftrightarrow> requests_first hs"

lemma requests_first_append:
  "requests_first (gs @ hs) \<longleftrightarrow>
   (if read_results gs = [] then requests_first hs else requests_first gs \<and> RequestDisconnectTask \<notin> set hs)"
  by (induction gs rule: requests_first.induct) auto

lemma requests_first_none: "RequestDisconnectTask \<notin> set hs \<Longrightarrow> requests_first hs"
  by (induction hs rule: requests_first.induct) simp_all

definition BUFFER_SIZE :: nat where
  "BUFFER_SIZE = 512"

definition read_fits :: "i8 list option \<Rightarrow> bool" where
  "read_fits r \<longleftrightarrow> (case r of None \<Rightarrow> True | Some bytes \<Rightarrow> bytes \<noteq> [] \<and> length bytes \<le> BUFFER_SIZE)"

text \<open>
  Until the connection has ended, exactly one read is outstanding or waits to be handled, and it keeps the
  client alive for the requested disconnects on the strand, which do not.
\<close>

definition strand_ok :: "Client \<Rightarrow> bool" where
  "strand_ok x \<longleftrightarrow>
     (if reading x then read_results (m_Strand x) = []
      else if read_results (m_Strand x) = [] then m_Disconnected x \<and> RequestDisconnectTask \<notin> set (m_Strand x)
      else length (read_results (m_Strand x)) = 1 \<and> requests_first (m_Strand x)) \<and>
     list_all read_fits (read_results (m_Strand x))"

text \<open>Some operation or handler holds a \<open>shared_ptr\<close> to the client.\<close>

definition held :: "Client \<Rightarrow> bool" where
  "held x \<longleftrightarrow> reading x \<or> write_op x \<noteq> None \<or> list_ex (\<lambda>h. h \<noteq> RequestDisconnectTask) (m_Strand x)"

lemma read_results_nil: "list_all (\<lambda>h. h = RequestDisconnectTask) hs \<Longrightarrow> read_results hs = []"
  by (induction hs) auto

lemma not_held:
  assumes "strand_ok x" "\<not> held x"
  shows "m_Strand x = []" "m_Disconnected x"
proof -
  have all: "list_all (\<lambda>h. h = RequestDisconnectTask) (m_Strand x)"
    using assms(2) by (simp add: held_def list_all_iff list_ex_iff)
  with assms have "m_Disconnected x \<and> RequestDisconnectTask \<notin> set (m_Strand x)"
    by (simp add: strand_ok_def held_def read_results_nil)
  with all show "m_Strand x = []" "m_Disconnected x" by (cases "m_Strand x"; simp)+
qed

section \<open>The invariant\<close>

text \<open>
  \<open>h\<close> is the client, if any, whose read handler is running: its read is over and the next one has not been
  started, so it counts as reading.
\<close>

definition io_ok :: "ref option \<Rightarrow> ref \<Rightarrow> Client \<Rightarrow> bool" where
  "io_ok h c x \<longleftrightarrow>
     write_wf x \<and> (if h = Some c then \<not> reading x \<and> strand_ok (x\<lparr>reading := True\<rparr>) else strand_ok x)"

definition session_ok :: "ref \<Rightarrow> Client \<Rightarrow> System \<Rightarrow> bool" where
  "session_ok c x s \<longleftrightarrow>
     m_OnDisconnect x = Some c \<and>
     (m_Disconnected x \<longleftrightarrow> m_Stage x = LOGGED_OUT) \<and> (socket_open x \<longleftrightarrow> \<not> m_Disconnected x) \<and>
     (m_Stage x = LOGGED_IN \<longrightarrow> m_Encryptor x \<noteq> None \<and> m_Decryptor x \<noteq> None) \<and>
     (case m_Player x of
        None \<Rightarrow> m_Stage x \<noteq> LOGGED_IN
      | Some p \<Rightarrow> m_Stage x \<in> {LOGGED_IN, LOGGED_OUT} \<and> p < length (players s) \<and>
          (\<forall>pl. heap_at (players s) p = Some pl \<longrightarrow>
             m_Client pl = c \<and>
             (m_Stage x = LOGGED_IN \<longrightarrow> registered p s \<and> m_Username pl = m_ClientUsername x)))"

definition sessions_ok :: "System \<Rightarrow> bool" where
  "sessions_ok s \<longleftrightarrow>
     distinct (m_Sessions s) \<and>
     (\<forall>c. c \<in> set (m_Sessions s) \<longleftrightarrow> (\<exists>x. heap_at (clients s) c = Some x \<and> \<not> m_Disconnected x))"

definition inv_during :: "ref option \<Rightarrow> System \<Rightarrow> bool" where
  "inv_during h s \<longleftrightarrow>
     world_ok s \<and> sessions_ok s \<and> (\<forall>c. h = Some c \<longrightarrow> heap_at (clients s) c \<noteq> None) \<and>
     (\<forall>c x. heap_at (clients s) c = Some x \<longrightarrow> io_ok h c x \<and> session_ok c x s) \<and>
     (\<forall>p pl x. registered p s \<longrightarrow> player_ok p pl x s \<longrightarrow> m_Stage x = LOGGED_IN)"

abbreviation sys_inv :: "System \<Rightarrow> bool" where
  "sys_inv \<equiv> inv_during None"

lemma sys_invD:
  assumes "inv_during h s"
  shows "world_ok s" "sessions_ok s" "registry_wf s" "refs_ok s"
    and "heap_at (clients s) c = Some x \<Longrightarrow> io_ok h c x"
    and "heap_at (clients s) c = Some x \<Longrightarrow> session_ok c x s"
    and "registered p s \<Longrightarrow> player_ok p pl x s \<Longrightarrow> m_Stage x = LOGGED_IN"
    and "h = Some c \<Longrightarrow> heap_at (clients s) c \<noteq> None"
  using assms by (simp_all add: inv_during_def world_ok_def)

section \<open>Changing one client\<close>

text \<open>The client keeps its place in the server: only its I/O state and its ciphers change.\<close>

definition same_session :: "Client \<Rightarrow> Client \<Rightarrow> bool" where
  "same_session x y \<longleftrightarrow>
     m_OnDisconnect y = m_OnDisconnect x \<and> m_Disconnected y = m_Disconnected x \<and> m_Stage y = m_Stage x \<and>
     socket_open y = socket_open x \<and> m_Player y = m_Player x \<and> m_ClientUsername y = m_ClientUsername x \<and>
     (m_Encryptor x \<noteq> None \<longrightarrow> m_Encryptor y \<noteq> None) \<and> (m_Decryptor x \<noteq> None \<longrightarrow> m_Decryptor y \<noteq> None)"

lemma same_session_refl [simp]: "same_session x x"
  by (simp add: same_session_def)

lemma session_ok_same:
  "same_session x y \<Longrightarrow> session_ok c x s \<Longrightarrow> session_ok c y s"
  by (auto simp: same_session_def session_ok_def split: option.splits)

lemma session_ok_put_client [simp]: "session_ok c x (put_client d y s) = session_ok c x s"
  by (simp add: session_ok_def registered_def split: option.split)

lemma registered_put_client [simp]: "registered p (put_client c x s) = registered p s"
  by (simp add: registered_def)

lemma registry_wf_put_client [simp]: "registry_wf (put_client c x s) = registry_wf s"
  by (simp add: registry_wf_def index_of_def [abs_def])

text \<open>
  Replacing a client keeps the world well formed if the new one still has its player and cipher, or
  if its player is not registered.
\<close>

lemma world_ok_put_client:
  assumes "world_ok s" "heap_at (clients s) c = Some x"
    and "m_Player y = m_Player x \<and> (m_Encryptor x \<noteq> None \<longrightarrow> m_Encryptor y \<noteq> None) \<or>
      (\<forall>p. rooted p s \<longrightarrow> m_Player x \<noteq> Some p)"
  shows "world_ok (put_client c y s)"
proof -
  have "\<exists>pl z. player_ok p pl z (put_client c y s) \<and> member_ok p pl" if reg: "registered p s" for p
  proof -
    from assms(1) reg obtain pl z where "player_ok p pl z s" "member_ok p pl" by (auto simp: world_ok_def)
    then have "player_ok p pl (if m_Client pl = c then y else z) (put_client c y s)"
      using assms(2,3) reg by (auto simp: player_ok_def at_put_client)
    with \<open>member_ok p pl\<close> show ?thesis by blast
  qed
  moreover have "listed_ok p (put_client c y s)" if "p \<in> set (playerList s)" for p
  proof -
    have "listed_ok p s" "rooted p s" using assms(1) that by (simp_all add: world_ok_def rooted_def)
    from this(1) obtain pl where pl: "heap_at (players s) p = Some pl" "member_ok p pl" "m_Client pl < length (clients s)"
      "\<And>x. heap_at (clients s) (m_Client pl) = Some x \<Longrightarrow> player_ok p pl x s" by (rule listed_okE) blast
    show ?thesis
      by (rule listed_okI [of _ _ pl])
        (use pl assms(2,3) \<open>rooted p s\<close> in \<open>auto simp: player_ok_def at_put_client split: if_splits\<close>)
  qed
  ultimately show ?thesis using assms(1) by (simp add: world_ok_def)
qed

lemma sessions_ok_put_client:
  "sessions_ok s \<Longrightarrow> heap_at (clients s) c = Some x \<Longrightarrow> m_Disconnected y = m_Disconnected x \<Longrightarrow>
   sessions_ok (put_client c y s)"
  by (auto simp: sessions_ok_def at_put_client)

lemma inv_replace_client:
  assumes "inv_during h s" "heap_at (clients s) c = Some x" "io_ok h' c y" "session_ok c y s"
    and "m_Disconnected y = m_Disconnected x"
    and "m_Player y = m_Player x \<and> m_Stage y = m_Stage x \<and> (m_Encryptor x \<noteq> None \<longrightarrow> m_Encryptor y \<noteq> None) \<or>
      (\<forall>p. rooted p s \<longrightarrow> m_Player x \<noteq> Some p)"
    and "h' = h \<or> h \<in> {None, Some c} \<and> h' \<in> {None, Some c}"
  shows "inv_during h' (put_client c y s)"
proof -
  note inv = sys_invD [OF assms(1)]
  have "m_Stage z = LOGGED_IN" if reg: "registered p s" and ok: "player_ok p pl z (put_client c y s)" for p pl z
  proof -
    obtain pl0 z0 where z0: "player_ok p pl0 z0 s" using world_ok_member [OF inv(1) reg] .
    then have "m_Stage z0 = LOGGED_IN" using inv(7) [OF reg] by blast
    moreover have "z = (if m_Client pl = c then y else z0)" "pl0 = pl"
      using ok z0 assms(2) by (auto simp: player_ok_def at_put_client split: if_splits)
    moreover have "m_Client pl = c \<Longrightarrow> z0 = x \<and> m_Player x = Some p"
      using z0 assms(2) \<open>pl0 = pl\<close> by (auto simp: player_ok_def)
    ultimately show ?thesis using assms(6) reg by auto
  qed
  moreover have "io_ok h' d z \<and> session_ok d z s" if "heap_at (clients (put_client c y s)) d = Some z" for d z
    using that assms(2-4,7) inv(5,6) [of d z] by (auto simp: at_put_client io_ok_def split: if_splits)
  moreover have "heap_at (clients (put_client c y s)) d \<noteq> None" if "h' = Some d" for d
    using that assms(7) inv(8) [of d] by (auto simp: at_put_client [OF assms(2)])
  ultimately show ?thesis
    using world_ok_put_client [OF inv(1) assms(2), of y] assms(6)
      sessions_ok_put_client [OF inv(2) assms(2,5)]
    by (auto simp: inv_during_def)
qed

lemmas inv_put_client = inv_replace_client [where h' = h and h = h for h, OF _ _ _ _ _ _ disjI1 [OF refl]]

lemma sys_inv_client:
  assumes "inv_during h s" "heap_at (clients s) c = Some x" "same_session x y" "io_ok h c y"
  shows "inv_during h (put_client c y s)"
  using assms session_ok_same [OF assms(3) sys_invD(6) [OF assms(1,2)]]
  by (intro inv_put_client) (auto simp: same_session_def)

text \<open>The read handler of a client starts or ends.\<close>

lemma inv_switch:
  assumes "inv_during h s" "heap_at (clients s) c = Some x" "same_session x y" "io_ok h' c y"
    and "h \<in> {None, Some c}" "h' \<in> {None, Some c}"
  shows "inv_during h' (put_client c y s)"
  using assms session_ok_same [OF assms(3) sys_invD(6) [OF assms(1,2)]]
  by (intro inv_replace_client [OF assms(1,2)]) (auto simp: same_session_def)

section \<open>Disconnecting\<close>

lemma RemovePlayer_world:
  assumes "registry_wf s" "refs_ok s" "World_GetPlayer name s = Some p" "RemovePlayer name s = Inr t"
  shows "registered r t \<longleftrightarrow> registered r s \<and> r \<noteq> p" "refs_ok t"
    "rooted r t \<Longrightarrow> heap_at (players t) r = heap_at (players s) r"
    "heap_at (players t) r = Some pl \<Longrightarrow> heap_at (players s) r = Some pl"
    "length (players t) = length (players s)" "m_Running t = m_Running s" "playerList t = playerList s"
proof -
  have p: "(name, p) \<in> set (m_Players s)" using assms(3) by (simp add: World_GetPlayer_def map_of_SomeD)
  let ?s = "s\<lparr>m_OccupiedIndices := (m_OccupiedIndices s)[index_of s p := False],
     m_Players := AList.delete name (m_Players s)\<rparr>"
  have t: "t = release_players [p] ?s" using assms(4) RemovePlayer_eq [OF assms(1) p] by simp
  note frame = release_players_frame [of "[p]" ?s] and refs = delete_refs [OF assms(1) p]
  show "registered r t \<longleftrightarrow> registered r s \<and> r \<noteq> p"
    using frame refs by (simp add: t registered_def)
  show "length (players t) = length (players s)" "m_Running t = m_Running s" "playerList t = playerList s"
    using frame by (simp_all add: t)
  show "rooted r t \<Longrightarrow> heap_at (players t) r = heap_at (players s) r"
    using release_players_keeps [of r ?s "[p]"] frame by (simp add: t rooted_def)
  show "heap_at (players t) r = Some pl \<Longrightarrow> heap_at (players s) r = Some pl"
    using release_players_at [of "[p]" ?s r pl] by (simp add: t)
  have "refs_ok ?s" using assms(2) refs by (auto simp: refs_ok_def alive_def rooted_def)
  then show "refs_ok t" unfolding t by (rule refs_ok_release)
qed

lemma world_ok_RemovePlayer:
  assumes "world_ok s" "World_GetPlayer name s = Some p" "RemovePlayer name s = Inr t"
  shows "world_ok t"
proof -
  have wf: "registry_wf s" "refs_ok s" using assms(1) by (simp_all add: world_ok_def)
  note w = RemovePlayer_world [OF wf assms(2,3)]
  have cl: "clients t = clients s" using RemovePlayer_clients [OF assms(3)] by simp
  have "\<exists>pl x. player_ok r pl x t \<and> member_ok r pl" if "registered r t" for r
    using w(1,3) [of r] that assms(1) by (simp add: world_ok_def player_ok_def cl)
  moreover have "listed_ok r t" if "r \<in> set (playerList t)" for r
    using w(3) [of r] w(7) that assms(1) by (simp add: world_ok_def listed_ok_def player_ok_def rooted_def cl)
  ultimately show ?thesis
    using registry_wf_RemovePlayer [OF wf(1) assms(3)] w(2) by (simp add: world_ok_def)
qed

lemma session_ok_mono:
  assumes "session_ok c x s" "length (players s) \<le> length (players t)"
    and "\<And>p pl'. m_Player x = Some p \<Longrightarrow> heap_at (players t) p = Some pl' \<Longrightarrow>
      \<exists>pl. heap_at (players s) p = Some pl \<and> m_Client pl' = m_Client pl \<and> m_Username pl' = m_Username pl \<and>
        (registered p s \<longrightarrow> registered p t)"
  shows "session_ok c x t"
proof (cases "m_Player x")
  case None
  with assms(1) show ?thesis by (simp add: session_ok_def)
next
  case (Some p)
  with assms(1) have p: "p < length (players t)"
    "heap_at (players s) p = Some pl \<Longrightarrow>
      m_Client pl = c \<and> (m_Stage x = LOGGED_IN \<longrightarrow> registered p s \<and> m_Username pl = m_ClientUsername x)" for pl
    using assms(2) by (simp_all add: session_ok_def)
  then have "m_Client pl' = c \<and> (m_Stage x = LOGGED_IN \<longrightarrow> registered p t \<and> m_Username pl' = m_ClientUsername x)"
    if "heap_at (players t) p = Some pl'" for pl'
    using assms(3) [OF Some that] by auto
  with Some p(1) assms(1) show ?thesis by (simp add: session_ok_def)
qed

lemma world_ok_sessions [simp]: "world_ok (s\<lparr>m_Sessions := ss\<rparr>) = world_ok s"
  by (simp add: world_ok_def registry_wf_def index_of_def [abs_def] refs_ok_def alive_def registered_def player_ok_def
      listed_ok_def)

text \<open>The world after its player, if it is still there, has been removed by a disconnecting client.\<close>

lemma disconnect_world:
  assumes "inv_during h s" "heap_at (clients s) c = Some x" "\<not> m_Disconnected x"
    and "(if GetPlayer x s = None then Inr s else RemovePlayer (m_ClientUsername x) s) = Inr u"
  shows "world_ok u" "registered r u \<longleftrightarrow> registered r s \<and> m_Player x \<noteq> Some r"
    "registered r u \<Longrightarrow> heap_at (players u) r = heap_at (players s) r"
    "heap_at (players u) r = Some pl \<Longrightarrow> heap_at (players s) r = Some pl"
    "length (players u) = length (players s)" "playerList u = playerList s"
proof -
  note inv = sys_invD [OF assms(1)]
  have "world_ok u \<and> (registered r u \<longleftrightarrow> registered r s \<and> m_Player x \<noteq> Some r) \<and>
    (registered r u \<longrightarrow> heap_at (players u) r = heap_at (players s) r) \<and>
    (heap_at (players u) r = Some pl \<longrightarrow> heap_at (players s) r = Some pl) \<and>
    length (players u) = length (players s) \<and> playerList u = playerList s"
    for r pl
  proof (cases "GetPlayer x s")
    case None
    have "m_Player x \<noteq> Some r" if reg: "registered r s" for r
    proof -
      obtain plr xr where "player_ok r plr xr s" using world_ok_member [OF inv(1) reg] .
      with None show ?thesis by (auto simp: GetPlayer_def player_ok_def)
    qed
    with None assms(4) inv(1) show ?thesis by auto
  next
    case (Some p)
    then obtain plp where p: "m_Player x = Some p" "heap_at (players s) p = Some plp"
      by (auto simp: GetPlayer_def split: option.splits)
    with inv(6) [OF assms(2)] assms(3) have "registered p s" "m_Username plp = m_ClientUsername x"
      by (auto simp: session_ok_def)
    with registry_name [OF inv(3) _ p(2)] have "(m_ClientUsername x, p) \<in> set (m_Players s)"
      by (auto simp: registered_def)
    then have get: "World_GetPlayer (m_ClientUsername x) s = Some p"
      using inv(3) by (simp add: World_GetPlayer_def registry_wf_def)
    have rem: "RemovePlayer (m_ClientUsername x) s = Inr u" using assms(4) Some by simp
    note w = RemovePlayer_world [OF inv(3,4) get rem]
    show ?thesis
      using w(1) [of r] w(3) [of r] w(4) [of r pl] w(5,7) world_ok_RemovePlayer [OF inv(1) get rem] p(1)
      by (simp add: eq_commute [of p])
  qed
  then show "world_ok u" "registered r u \<longleftrightarrow> registered r s \<and> m_Player x \<noteq> Some r"
    "registered r u \<Longrightarrow> heap_at (players u) r = heap_at (players s) r"
    "heap_at (players u) r = Some pl \<Longrightarrow> heap_at (players s) r = Some pl"
    "length (players u) = length (players s)" "playerList u = playerList s"
    by blast+
qed

lemma io_ok_closed: "io_ok h c x \<Longrightarrow> io_ok h c (closed x)"
  by (cases "h = Some c") (auto simp: io_ok_def closed_ok strand_ok_def)

lemma session_ok_closed:
  assumes "session_ok c x s" "\<not> m_Disconnected x"
    and "\<And>p pl. heap_at (players t) p = Some pl \<Longrightarrow> heap_at (players s) p = Some pl"
    and "length (players t) = length (players s)"
  shows "session_ok c (closed x) t"
proof (cases "m_Player x")
  case None
  with assms(1,2) show ?thesis by (simp add: session_ok_def closed_def)
next
  case (Some p)
  with assms(1) have p: "p < length (players s)" "m_OnDisconnect x = Some c"
    "heap_at (players s) p = Some pl \<Longrightarrow> m_Client pl = c" for pl
    by (simp_all add: session_ok_def)
  then have "heap_at (players t) p = Some pl \<Longrightarrow> m_Client pl = c" for pl using assms(3) by blast
  with Some p(1,2) assms(2,4) show ?thesis by (simp add: session_ok_def closed_def)
qed

lemma sys_inv_Disconnect:
  assumes "inv_during h s" "heap_at (clients s) c = Some x"
  obtains t where "Disconnect c s = Inr t" "inv_during h t" "clients t = clients (put_client c (closed x) s)"
proof (cases "m_Disconnected x")
  case True
  with assms show ?thesis by (intro that [of s]) (simp_all add: Disconnect_def deref_def closed_def put_id)
next
  case False
  note inv = sys_invD [OF assms(1)]
  have on: "m_OnDisconnect x = Some c" using inv(6) [OF assms(2)] by (simp add: session_ok_def)
  obtain u where u: "(if GetPlayer x s = None then Inr s else RemovePlayer (m_ClientUsername x) s) = Inr u"
    "Disconnect c s = Inr ((put_client c (closed x) u)\<lparr>m_Sessions := removeAll c (m_Sessions s)\<rparr>)"
    "clients u = clients s"
    using Disconnect_eq [OF assms(2) False on inv(3)] .
  note w = disconnect_world [OF assms(1,2) False u(1)]
  define t where t: "t = (put_client c (closed x) u)\<lparr>m_Sessions := removeAll c (m_Sessions s)\<rparr>"
  have at: "heap_at (clients t) d = (if d = c then Some (closed x) else heap_at (clients s) d)" for d
    using assms(2) by (simp add: t at_put_client u(3))
  have reg: "registered r t \<longleftrightarrow> registered r s \<and> m_Player x \<noteq> Some r" for r
    using w(2) [of r] by (simp add: t registered_def)
  have pls: "players t = players u" by (simp add: t)
  have "world_ok t"
    using world_ok_put_client [OF w(1), of c x "closed x"] assms(2) u(3) w(2) by (simp add: t)
  moreover have "sessions_ok t"
    using inv(2) False unfolding sessions_ok_def at by (auto simp: t distinct_removeAll)
  moreover have "io_ok h d z \<and> session_ok d z t" if z: "heap_at (clients t) d = Some z" for d z
  proof (cases "d = c")
    case True
    with z show ?thesis
      using inv(5,6) [OF assms(2)] False w(4,5) session_ok_closed [of c x s t]
      by (auto simp: at io_ok_closed pls)
  next
    case d: False
    with z have z: "heap_at (clients s) d = Some z" by (simp add: at)
    note ok = inv(6) [OF z]
    have "session_ok d z t"
    proof (rule session_ok_mono [OF ok])
      fix p pl assume p: "m_Player z = Some p" "heap_at (players t) p = Some pl"
      then have "heap_at (players s) p = Some pl" using w(4) by (simp add: pls)
      moreover from this p ok inv(6) [OF assms(2)] d have "m_Player x \<noteq> Some p" by (auto simp: session_ok_def)
      ultimately show "\<exists>pl'. heap_at (players s) p = Some pl' \<and> m_Client pl = m_Client pl' \<and>
          m_Username pl = m_Username pl' \<and> (registered p s \<longrightarrow> registered p t)"
        by (auto simp: reg)
    qed (simp add: w(5) pls)
    with inv(5) [OF z] show ?thesis by simp
  qed
  moreover have "m_Stage z = LOGGED_IN" if "registered p t" "player_ok p pl z t" for p pl z
  proof -
    have "m_Client pl \<noteq> c" using that assms(2) by (auto simp: player_ok_def at reg)
    then have "player_ok p pl z s" using that w(2) [of p] w(3) [of p] by (simp add: player_ok_def at reg pls)
    with inv(7) that(1) reg show ?thesis by blast
  qed
  moreover have "heap_at (clients t) d \<noteq> None" if "h = Some d" for d
    using inv(8) [OF that] by (simp add: at)
  ultimately have "inv_during h t" by (simp add: inv_during_def)
  moreover have "Disconnect c s = Inr t" using u(2) by (simp only: t)
  moreover have "clients t = clients (put_client c (closed x) s)" using u(3) by (simp add: t put_client_def)
  ultimately show ?thesis by (intro that)
qed

section \<open>A cycle of the world\<close>

lemma sends_io_ok:
  assumes "io_ok h c x" "sends x y"
  shows "io_ok h c y" "same_session x y" "\<exists>data. posted y = posted x @ data \<and> sent y = sent x"
proof -
  obtain ps e where y: "y = x\<lparr>m_Strand := m_Strand x @ map SendTask ps, m_Encryptor := e\<rparr>"
    "e = None \<longleftrightarrow> m_Encryptor x = None"
    using assms(2) by (auto simp: sends_def)
  have req: "requests_first (m_Strand x @ map SendTask ps) = requests_first (m_Strand x)"
    if "read_results (m_Strand x) \<noteq> []"
    using that by (auto simp: requests_first_append)
  show "io_ok h c y"
    using assms(1) req unfolding y(1) by (auto simp: io_ok_def write_wf_def strand_ok_def split: option.splits if_splits)
  show "same_session x y" using y by (simp add: same_session_def)
  show "\<exists>data. posted y = posted x @ data \<and> sent y = sent x" unfolding y(1) by (simp add: posted_def)
qed

text \<open>What every step of a cycle leaves alone, also for a player that has left the world since the cycle began.\<close>

definition same_entries :: "System \<Rightarrow> System \<Rightarrow> bool" where
  "same_entries s t \<longleftrightarrow> m_Players t = m_Players s \<and> m_Sessions t = m_Sessions s \<and> m_Running t = m_Running s \<and>
     length (players t) = length (players s) \<and> length (clients t) = length (clients s) \<and>
     (\<forall>r y. heap_at (players t) r = Some y \<longrightarrow>
        (\<exists>y0. heap_at (players s) r = Some y0 \<and> m_Username y = m_Username y0 \<and> m_Client y = m_Client y0)) \<and>
     (\<forall>c. rel_option sends (heap_at (clients s) c) (heap_at (clients t) c))"

lemma same_registry_entries: "same_registry s t \<Longrightarrow> same_entries s t"
  unfolding same_registry_def same_entries_def by blast

lemma changes_entries:
  assumes "changes p pl pl' x x' s t" "player_ok p pl x s"
  shows "same_entries s t"
proof -
  have "\<exists>y0. heap_at (players s) r = Some y0 \<and> m_Username y = m_Username y0 \<and> m_Client y = m_Client y0"
    if "heap_at (players t) r = Some y" for r y
    using that assms by (cases "r = p") (auto simp: changes_def player_ok_def)
  moreover have "rel_option sends (heap_at (clients s) c) (heap_at (clients t) c)" for c
    using assms by (cases "c = m_Client pl") (auto simp: changes_def player_ok_def option.rel_refl)
  ultimately show ?thesis using assms(1) by (simp add: same_entries_def changes_def)
qed

lemma same_entries_trans:
  assumes "same_entries s t" "same_entries t u"
  shows "same_entries s u"
proof -
  have "\<exists>y0. heap_at (players s) r = Some y0 \<and> m_Username y = m_Username y0 \<and> m_Client y = m_Client y0"
    if "heap_at (players u) r = Some y" for r y
    using that assms unfolding same_entries_def by metis
  moreover have "rel_option sends (heap_at (clients s) c) (heap_at (clients u) c)" for c
    using assms rel_sends_trans unfolding same_entries_def by blast
  ultimately show ?thesis using assms by (simp add: same_entries_def)
qed

lemma sys_inv_cycle:
  assumes "inv_during h s" "world_ok t" "same_entries s t"
  shows "inv_during h t"
proof -
  note inv = sys_invD [OF assms(1)]
  have eq: "m_Sessions t = m_Sessions s" "length (players t) = length (players s)" "registered p t = registered p s"
    "heap_at (players t) p = Some y \<Longrightarrow>
      \<exists>y0. heap_at (players s) p = Some y0 \<and> m_Username y = m_Username y0 \<and> m_Client y = m_Client y0"
    "rel_option sends (heap_at (clients s) c) (heap_at (clients t) c)" for p y c
    using assms(3) unfolding same_entries_def registered_def by auto
  have old: "\<exists>x. heap_at (clients s) c = Some x \<and> sends x y" if "heap_at (clients t) c = Some y" for c y
    using eq(5) [of c] that by (auto simp: option_rel_Some2)
  have same: "m_Disconnected y = m_Disconnected x" if "sends x y" for x y
    using that by (auto simp: sends_def)
  have "sessions_ok t"
    using inv(2) same unfolding sessions_ok_def eq(1)
    by (metis eq(5) option_rel_Some1 option_rel_Some2)
  moreover have "io_ok h c y \<and> session_ok c y t" if y: "heap_at (clients t) c = Some y" for c y
  proof -
    obtain x where x: "heap_at (clients s) c = Some x" "sends x y" using old [OF y] by blast
    note ok = sends_io_ok [OF inv(5) [OF x(1)] x(2)]
    have "session_ok c y s" using session_ok_same [OF ok(2) inv(6) [OF x(1)]] .
    then have "session_ok c y t" by (rule session_ok_mono) (use eq(2) in simp, metis eq(3,4))
    with ok(1) show ?thesis by simp
  qed
  moreover have "m_Stage y = LOGGED_IN" if reg: "registered p t" and ok: "player_ok p pl y t" for p pl y
  proof -
    obtain pl0 x0 where p: "player_ok p pl0 x0 s" using world_ok_member [OF inv(1), of p] reg eq(3) by metis
    obtain x where x: "heap_at (clients s) (m_Client pl) = Some x" "sends x y"
      using old ok by (auto simp: player_ok_def)
    have "m_Client pl = m_Client pl0" using eq(4) [of p pl] ok p by (auto simp: player_ok_def)
    with p x(1) have "player_ok p pl0 x s" by (simp add: player_ok_def)
    then have "m_Stage x = LOGGED_IN" using inv(7) reg eq(3) by blast
    with x(2) show ?thesis by (auto simp: sends_def)
  qed
  moreover have "heap_at (clients t) c \<noteq> None" if "h = Some c" for c
    using eq(5) [of c] inv(8) [OF that] by (auto simp: option_rel_Some1)
  ultimately show ?thesis using assms(2) by (simp add: inv_during_def)
qed

lemma sys_inv_World_Process:
  assumes "inv_during h s" "enumerates order s"
  obtains t where "World_Process order s = Inr t" "inv_during h t" "same_registry s t"
    "\<forall>p. registered p s \<longrightarrow> player_clear p t"
proof -
  obtain t where t: "World_Process order s = Inr t" "cycle_inv s t" "\<forall>p. registered p s \<longrightarrow> player_clear p t"
    using World_Process_ok [OF sys_invD(1) [OF assms(1)] assms(2)] by blast
  then have "inv_during h t" using sys_inv_cycle [OF assms(1)] by (simp add: cycle_inv_def same_registry_entries)
  moreover have "same_registry s t" using t(2) by (simp add: cycle_inv_def)
  ultimately show ?thesis using t(1,3) by (intro that)
qed

end
