(* ===== verification/Session_Spec.thy ===== *)
theory Session_Spec
  imports Session "HOL-Library.Sublist"
begin

text \<open>
  The abstract server: a set of sessions, and the users that are online with the session of each. It knows
  four events. \<open>effect\<close> relates two states of the model by an event, together with what every operation promises to
  the clients: data handed to \<open>Send\<close> is only ever appended, and never taken back.
\<close>

section \<open>The abstract server\<close>

type_synonym spec = "ref set \<times> (string \<rightharpoonup> ref)"

datatype event = Silent | Connect ref | Login ref string | Leave ref

fun spec_step :: "event \<Rightarrow> spec \<Rightarrow> spec \<Rightarrow> bool" where
  "spec_step Silent (S, users) st \<longleftrightarrow> st = (S, users)"
| "spec_step (Connect c) (S, users) st \<longleftrightarrow> c \<notin> S \<and> st = (insert c S, users)"
| "spec_step (Login c name) (S, users) st \<longleftrightarrow>
     c \<in> S \<and> c \<notin> ran users \<and> users name = None \<and> card (dom users) < 2048 \<and> st = (S, users(name \<mapsto> c))"
| "spec_step (Leave c) (S, users) st \<longleftrightarrow>
     c \<in> S \<and> st = (S - {c}, users |` {name. users name \<noteq> Some c})"

definition online :: "System \<Rightarrow> string \<rightharpoonup> ref" where
  "online s name = Option.bind (World_GetPlayer name s) (\<lambda>p. map_option m_Client (heap_at (players s) p))"

definition abs_server :: "System \<Rightarrow> spec" where
  "abs_server s = (set (m_Sessions s), online s)"

section \<open>Effects\<close>

text \<open>What happens to a client: more data is posted and sent, and a disconnect is final.\<close>

definition appends :: "Client \<Rightarrow> Client \<Rightarrow> bool" where
  "appends x y \<longleftrightarrow>
     prefix (posted x) (posted y) \<and> prefix (sent x) (sent y) \<and> (m_Disconnected x \<longrightarrow> m_Disconnected y)"

lemma appends_trans: "appends x y \<Longrightarrow> appends y z \<Longrightarrow> appends x z"
  by (auto simp: appends_def intro: prefix_order.trans)

text \<open>Outside of a cycle, nothing is posted to a client that has logged in, and its cipher rests.\<close>

definition entered :: "Client \<Rightarrow> bool" where
  "entered x \<longleftrightarrow> m_Stage x = LOGGED_IN \<or> m_Stage x = LOGGED_OUT"

definition grows :: "Client \<Rightarrow> Client \<Rightarrow> bool" where
  "grows x y \<longleftrightarrow> appends x y \<and>
     (entered x \<longrightarrow> entered y \<and> posted y = posted x \<and> m_Encryptor y = m_Encryptor x)"

lemma grows_refl [simp]: "grows x x"
  by (simp add: grows_def appends_def)

lemma grows_trans: "grows x y \<Longrightarrow> grows y z \<Longrightarrow> grows x z"
  by (auto simp: grows_def intro: appends_trans)

lemma appends_strand:
  "sent y = sent x \<Longrightarrow> m_WriteQueue y = m_WriteQueue x \<Longrightarrow> m_Disconnected y = m_Disconnected x \<Longrightarrow>
   write_results (m_Strand y) = write_results (m_Strand x) \<Longrightarrow>
   prefix (send_tasks (m_Strand x)) (send_tasks (m_Strand y)) \<Longrightarrow> appends x y"
  by (simp add: appends_def posted_def)

lemma appends_sends: "sends x y \<Longrightarrow> appends x y"
  by (auto simp: sends_def intro!: appends_strand)

lemma grows_same:
  "posted y = posted x \<Longrightarrow> prefix (sent x) (sent y) \<Longrightarrow> m_Disconnected y = m_Disconnected x \<Longrightarrow>
   m_Stage y = m_Stage x \<Longrightarrow> m_Encryptor y = m_Encryptor x \<Longrightarrow> grows x y"
  by (simp add: grows_def appends_def entered_def)

lemma grows_strand:
  "sent y = sent x \<Longrightarrow> m_WriteQueue y = m_WriteQueue x \<Longrightarrow> m_Disconnected y = m_Disconnected x \<Longrightarrow>
   write_results (m_Strand y) = write_results (m_Strand x) \<Longrightarrow>
   send_tasks (m_Strand y) = send_tasks (m_Strand x) \<Longrightarrow> m_Stage y = m_Stage x \<Longrightarrow>
   m_Encryptor y = m_Encryptor x \<Longrightarrow> grows x y"
  by (rule grows_same) (simp_all add: posted_def)

lemma grows_enter: "\<not> entered x \<Longrightarrow> appends x y \<Longrightarrow> grows x y"
  by (simp add: grows_def)

definition grow :: "System \<Rightarrow> System \<Rightarrow> bool" where
  "grow s t \<longleftrightarrow>
     length (clients t) = length (clients s) \<and> (\<forall>c. rel_option grows (heap_at (clients s) c) (heap_at (clients t) c))"

lemma grow_refl [simp]: "grow s s"
  by (simp add: grow_def option.rel_refl)

lemma grow_trans: "grow s t \<Longrightarrow> grow t u \<Longrightarrow> grow s u"
proof -
  assume st: "grow s t" "grow t u"
  have "rel_option grows (heap_at (clients s) c) (heap_at (clients u) c)" for c
  proof -
    from st have "rel_option grows (heap_at (clients s) c) (heap_at (clients t) c)"
      "rel_option grows (heap_at (clients t) c) (heap_at (clients u) c)" by (simp_all add: grow_def)
    then show ?thesis by (auto simp: option_rel_Some1 option_rel_Some2 elim!: option.rel_cases intro: grows_trans)
  qed
  with st show ?thesis by (simp add: grow_def)
qed

text \<open>
  What is sent of a player in a cycle does not change in between; players may be destroyed, and created without a move
  to report. The list of a running cycle is left alone.
\<close>

definition same_sight :: "Player \<Rightarrow> Player \<Rightarrow> bool" where
  "same_sight pl pl' \<longleftrightarrow>
     m_Position pl' = m_Position pl \<and> m_CurrentRegion pl' = m_CurrentRegion pl \<and> m_Index pl' = m_Index pl \<and>
     m_LocalPlayers pl' = m_LocalPlayers pl \<and> m_Client pl' = m_Client pl \<and>
     m_Equipment pl' = m_Equipment pl \<and> m_Colors pl' = m_Colors pl \<and> m_Appearance pl' = m_Appearance pl \<and>
     m_NPCCosplayId pl' = m_NPCCosplayId pl \<and> m_Username pl' = m_Username pl \<and>
     m_PrimaryDirection pl' = m_PrimaryDirection pl \<and> m_SecondaryDirection pl' = m_SecondaryDirection pl"

lemma same_sight_refl [simp]: "same_sight pl pl"
  by (simp add: same_sight_def)

definition still :: "Player \<Rightarrow> bool" where
  "still pl \<longleftrightarrow> m_PrimaryDirection pl = -1 \<and> m_SecondaryDirection pl = -1"

lemma still_sight: "same_sight pl pl' \<Longrightarrow> still pl' = still pl"
  by (simp add: same_sight_def still_def)

definition rests :: "System \<Rightarrow> System \<Rightarrow> bool" where
  "rests s t \<longleftrightarrow> playerList t = playerList s \<and> length (players s) \<le> length (players t) \<and>
     (\<forall>r y. heap_at (players t) r = Some y \<longrightarrow>
        (if r < length (players s) then \<exists>y0. heap_at (players s) r = Some y0 \<and> same_sight y0 y else still y))"

lemma rests_at:
  assumes "rests s t" "heap_at (players t) r = Some y"
  obtains (old) y0 where "heap_at (players s) r = Some y0" "same_sight y0 y"
    | (fresh) "length (players s) \<le> r" "still y"
  using assms by (auto simp: rests_def not_less split: if_splits)

lemma rests_same:
  assumes "playerList t = playerList s" "length (players t) = length (players s)"
    and "\<And>r y. heap_at (players t) r = Some y \<Longrightarrow> heap_at (players s) r = Some y"
  shows "rests s t"
  using assms heap_at_length [of "players t"] by (auto simp: rests_def)

lemma rests_refl [simp]: "rests s s" "players t = players s \<Longrightarrow> playerList t = playerList s \<Longrightarrow> rests s t"
  by (rule rests_same; simp)+

lemma rests_trans:
  assumes "rests s t" "rests t u"
  shows "rests s u"
proof -
  have "if r < length (players s) then \<exists>y0. heap_at (players s) r = Some y0 \<and> same_sight y0 z else still z"
    if "heap_at (players u) r = Some z" for r z
    using assms(2) that
  proof (cases rule: rests_at)
    case (old y)
    from assms(1) old(1) show ?thesis
    proof (cases rule: rests_at)
      case (old x)
      with \<open>same_sight y z\<close> show ?thesis using heap_at_length [OF old(1)] by (auto simp: same_sight_def)
    qed (use old(2) still_sight in auto)
  next
    case fresh
    with assms(1) show ?thesis by (simp add: rests_def)
  qed
  with assms show ?thesis by (simp add: rests_def)
qed

text \<open>Between two cycles, no player has a move to report.\<close>

definition idle :: "System \<Rightarrow> bool" where
  "idle s \<longleftrightarrow> (\<forall>p pl. heap_at (players s) p = Some pl \<longrightarrow> still pl)"

lemma idle_rests: "rests s t \<Longrightarrow> idle s \<Longrightarrow> idle t"
  unfolding idle_def by (metis rests_at still_sight)

definition effect :: "event \<Rightarrow> System \<Rightarrow> System \<Rightarrow> bool" where
  "effect e s t \<longleftrightarrow> spec_step e (abs_server s) (abs_server t) \<and> grow s t \<and> rests s t"

abbreviation quiet :: "System \<Rightarrow> System \<Rightarrow> bool" where
  "quiet \<equiv> effect Silent"

lemma quiet_iff: "quiet s t \<longleftrightarrow> abs_server t = abs_server s \<and> grow s t \<and> rests s t"
  by (cases "abs_server s") (auto simp: effect_def)

lemma quiet_refl [simp]: "quiet s s"
  by (simp add: quiet_iff)

lemma quiet_effect: "quiet s t \<Longrightarrow> effect e t u \<Longrightarrow> effect e s u"
  unfolding quiet_iff by (auto simp: effect_def intro: grow_trans rests_trans)

lemma effect_quiet: "effect e s t \<Longrightarrow> quiet t u \<Longrightarrow> effect e s u"
  unfolding quiet_iff by (auto simp: effect_def intro: grow_trans rests_trans)

text \<open>A handler of a client acts only for this client.\<close>

definition effect_of :: "ref \<Rightarrow> System \<Rightarrow> System \<Rightarrow> bool" where
  "effect_of c s t \<longleftrightarrow> quiet s t \<or> effect (Leave c) s t \<or> (\<exists>name. effect (Login c name) s t)"

lemma quiet_effect_of: "quiet s t \<Longrightarrow> effect_of c t u \<Longrightarrow> effect_of c s u"
  unfolding effect_of_def by (blast intro: quiet_effect)

lemma effect_of_quiet: "effect_of c s t \<Longrightarrow> quiet t u \<Longrightarrow> effect_of c s u"
  unfolding effect_of_def by (blast intro: effect_quiet)

lemma quiet_of: "quiet s t \<Longrightarrow> effect_of c s t"
  by (simp add: effect_of_def)

section \<open>Effects of changing one client or one player\<close>

lemma abs_put_client [simp]: "abs_server (put_client c x s) = abs_server s"
  by (simp add: abs_server_def online_def [abs_def] World_GetPlayer_def)

lemma grow_put_client:
  "heap_at (clients s) c = Some x \<Longrightarrow> grows x y \<Longrightarrow> grow s (put_client c y s)"
  by (auto simp: grow_def at_put_client option.rel_refl)

lemma quiet_put_client:
  "heap_at (clients s) c = Some x \<Longrightarrow> grows x y \<Longrightarrow> quiet s (put_client c y s)"
  by (simp add: quiet_iff grow_put_client)

lemma quiet_put_player:
  assumes "heap_at (players s) p = Some pl" "same_sight pl pl'"
  shows "quiet s (put_player p pl' s)"
proof -
  have at: "heap_at (players (put_player p pl' s)) q = (if q = p then Some pl' else heap_at (players s) q)" for q
    using assms(1) by (simp add: at_put_player)
  have "online (put_player p pl' s) = online s"
  proof
    fix name
    show "online (put_player p pl' s) name = online s name"
      using assms by (cases "World_GetPlayer name s") (simp_all add: online_def World_GetPlayer_def at same_sight_def)
  qed
  moreover have "rests s (put_player p pl' s)" using assms by (auto simp: rests_def at dest: heap_at_length)
  ultimately show ?thesis by (simp add: quiet_iff abs_server_def grow_def option.rel_refl)
qed

section \<open>Effect of a disconnect\<close>

lemma grows_closed: "grows x (closed x)"
  using closed_ok(2) [of x] by (simp add: grows_def appends_def entered_def closed_def)

text \<open>In a consistent registry, the users are those of the registered players.\<close>

lemma online_iff:
  assumes "registry_wf s"
  shows "online s name = Some c \<longleftrightarrow>
    (\<exists>p pl. registered p s \<and> heap_at (players s) p = Some pl \<and> m_Username pl = name \<and> m_Client pl = c)"
    (is "_ \<longleftrightarrow> ?R")
proof
  assume "online s name = Some c"
  then obtain p pl where p: "(name, p) \<in> set (m_Players s)" "heap_at (players s) p = Some pl" "m_Client pl = c"
    by (auto simp: online_def bind_eq_Some_conv World_GetPlayer_def dest: map_of_SomeD)
  moreover from registry_entry [OF assms p(1)] p(2) have "m_Username pl = name" by auto
  ultimately show ?R by (force simp: registered_def)
next
  assume ?R
  then obtain p pl where p: "registered p s" "heap_at (players s) p = Some pl" "m_Username pl = name" "m_Client pl = c"
    by blast
  then have "(name, p) \<in> set (m_Players s)" using registry_name [OF assms _ p(2)] by (simp add: registered_def)
  then have "World_GetPlayer name s = Some p" using assms by (simp add: World_GetPlayer_def registry_wf_def)
  with p(2,4) show "online s name = Some c" by (simp add: online_def)
qed

lemma map_eqI: "(\<And>k v. f k = Some v \<longleftrightarrow> g k = Some v) \<Longrightarrow> f = g"
  by (rule ext) (metis not_None_eq)

lemma registered_of:
  assumes "inv_during h s" "heap_at (clients s) c = Some x" "registered p s" "heap_at (players s) p = Some pl"
  shows "m_Client pl = c \<longleftrightarrow> m_Player x = Some p"
proof
  obtain pl' y where y: "player_ok p pl' y s" using world_ok_member [OF sys_invD(1) [OF assms(1)] assms(3)] .
  then show "m_Player x = Some p" if "m_Client pl = c" using that assms(2,4) by (auto simp: player_ok_def)
  show "m_Client pl = c" if "m_Player x = Some p"
    using that sys_invD(6) [OF assms(1,2)] assms(4) by (auto simp: session_ok_def)
qed

lemma effect_Disconnect:
  assumes "inv_during h s" "heap_at (clients s) c = Some x" "Disconnect c s = Inr t"
  shows "effect (if m_Disconnected x then Silent else Leave c) s t"
proof (cases "m_Disconnected x")
  case True
  with assms(2,3) show ?thesis by (simp add: Disconnect_def deref_def)
next
  case False
  note inv = sys_invD [OF assms(1)]
  have on: "m_OnDisconnect x = Some c" using inv(6) [OF assms(2)] by (simp add: session_ok_def)
  obtain u where u: "(if GetPlayer x s = None then Inr s else RemovePlayer (m_ClientUsername x) s) = Inr u"
    "Disconnect c s = Inr ((put_client c (closed x) u)\<lparr>m_Sessions := removeAll c (m_Sessions s)\<rparr>)"
    "clients u = clients s"
    using Disconnect_eq [OF assms(2) False on inv(3)] .
  have t: "t = (put_client c (closed x) u)\<lparr>m_Sessions := removeAll c (m_Sessions s)\<rparr>" using u(2) assms(3) by simp
  note w = disconnect_world [OF assms(1,2) False u(1)]
  have "c \<in> set (m_Sessions s)" using inv(2) assms(2) False by (auto simp: sessions_ok_def)
  moreover have "online t = online s |` {name. online s name \<noteq> Some c}"
  proof (rule map_eqI)
    fix name d
    have "registry_wf t" using w(1) by (simp add: t world_ok_def registry_wf_def index_of_def [abs_def])
    from online_iff [OF this, of name d] have "online t name = Some d \<longleftrightarrow>
        (\<exists>p pl. registered p u \<and> heap_at (players u) p = Some pl \<and> m_Username pl = name \<and> m_Client pl = d)"
      by (simp add: t registered_def)
    also have "\<dots> \<longleftrightarrow> (\<exists>p pl. registered p s \<and> heap_at (players s) p = Some pl \<and> m_Username pl = name \<and>
        m_Client pl = d \<and> m_Client pl \<noteq> c)"
      using w(2,3) registered_of [OF assms(1,2)] by metis
    also have "\<dots> \<longleftrightarrow> online s name = Some d \<and> d \<noteq> c" using online_iff [OF inv(3), of name d] by blast
    finally show "online t name = Some d \<longleftrightarrow> (online s |` {name. online s name \<noteq> Some c}) name = Some d"
      by (auto simp: restrict_map_def)
  qed
  moreover have "grow s t"
    using assms(2) by (simp add: grow_def t at_put_client u(3) grows_closed option.rel_refl)
  moreover have "rests s t" using w(4-6) by (intro rests_same) (simp_all add: t)
  ultimately show ?thesis using False by (auto simp: effect_def abs_server_def t)
qed

lemma effect_of_Disconnect:
  "inv_during h s \<Longrightarrow> heap_at (clients s) c = Some x \<Longrightarrow> Disconnect c s = Inr t \<Longrightarrow> effect_of c s t"
  using effect_Disconnect [of h s c x t] by (auto simp: effect_of_def split: if_splits)

lemma effect_of_put_client:
  assumes "effect_of c s t" "heap_at (clients s) c = Some x" "heap_at (clients t) c = Some z" "grows x y"
  shows "effect_of c s (put_client c y t)"
proof -
  have "effect e s (put_client c y t)" if "effect e s t" for e
    using that assms(2-4) by (auto simp: effect_def grow_def rests_def at_put_client)
  with assms(1) show ?thesis unfolding effect_of_def by blast
qed

section \<open>Effect of a cycle\<close>

definition appended :: "System \<Rightarrow> System \<Rightarrow> bool" where
  "appended s t \<longleftrightarrow> length (clients t) = length (clients s) \<and>
     (\<forall>c. rel_option appends (heap_at (clients s) c) (heap_at (clients t) c))"

lemma grow_appended: "grow s t \<Longrightarrow> appended s t"
  unfolding grow_def appended_def grows_def by (blast intro: option.rel_mono_strong)

lemma quiet_entries:
  assumes "inv_during h s" "inv_during h t" "same_entries s t"
  shows "abs_server t = abs_server s" "appended s t"
proof -
  have eq: "m_Sessions t = m_Sessions s" "registered p t = registered p s" "length (clients t) = length (clients s)"
    "heap_at (players t) p = Some y \<Longrightarrow> \<exists>y0. heap_at (players s) p = Some y0 \<and> m_Username y = m_Username y0 \<and>
      m_Client y = m_Client y0"
    "rel_option sends (heap_at (clients s) c) (heap_at (clients t) c)" for p y c
    using assms(3) unfolding same_entries_def registered_def by auto
  have live: "\<exists>y. heap_at (players t) p = Some y" if "registered p s" for p
    using that world_ok_member [OF sys_invD(1) [OF assms(2)], of p] eq(2) by (metis player_ok_def)
  have "online t name = Some c \<longleftrightarrow> online s name = Some c" for name c
    unfolding online_iff [OF sys_invD(3) [OF assms(1)]] online_iff [OF sys_invD(3) [OF assms(2)]] eq(2)
    using eq(4) live by (metis option.inject)
  then have "online t = online s" by (intro map_eqI)
  then show "abs_server t = abs_server s" by (simp add: abs_server_def eq(1))
  show "appended s t"
    using eq(3,5) unfolding appended_def by (blast intro: option.rel_mono_strong appends_sends)
qed

end
