(* ===== verification/LoginHandler.thy ===== *)
theory LoginHandler
  imports Session_Spec
begin

text \<open>
  The login protocol of \<open>src/src/LoginHandler.h\<close> and \<open>src/src/LoginHandler.cpp\<close>: the two stages before a
  client is logged in. \<open>gen\<close> is the number drawn from \<open>std::mt19937_64\<close>. A stage returns the input buffer and
  the state of the server.
\<close>

section \<open>Definitions\<close>

definition LoginResponse_OK :: i8 where
  "LoginResponse_OK = 2"

definition LoginResponse_INVALID_CREDENTIALS :: i8 where
  "LoginResponse_INVALID_CREDENTIALS = 3"

definition LoginResponse_ACCOUNT_ONLINE :: i8 where
  "LoginResponse_ACCOUNT_ONLINE = 5"

definition LoginResponse_RECONNECT :: i8 where
  "LoginResponse_RECONNECT = 15"

text \<open>\<open>client->Disconnect(); return;\<close>\<close>

definition reject :: "StreamBuffer \<Rightarrow> ref \<Rightarrow> System \<Rightarrow> fault + StreamBuffer \<times> System" where
  "reject inStream c s = bindR (Disconnect c s) (\<lambda>s. Inr (inStream, s))"

definition HandleConnectedStage :: "u64 \<Rightarrow> StreamBuffer \<Rightarrow> ref \<Rightarrow> System \<Rightarrow> fault + StreamBuffer \<times> System" where
  "HandleConnectedStage gen inStream c s =
     (if Remaining inStream < 2 then reject inStream c s
      else
        bindR (ReadByte0 inStream) (\<lambda>(v, inStream).
        let request = (ucast v :: 8 word) in
        bindR (ReadByte0 inStream) (\<lambda>(_, inStream).
        if request \<noteq> 14 then reject inStream c s
        else
          bindR (WriteLong_i32 0 StreamBuffer_default) (\<lambda>outStream.
          bindR (WriteByte0 0 outStream) (\<lambda>outStream.
          bindR (WriteLong_i32 (ucast gen) outStream) (\<lambda>outStream.
          bindR (on_client c (Send outStream) s) (\<lambda>s.
          bindR (on_client c (\<lambda>x. Inr (SetNetworkStage LOGGING_IN x)) s) (\<lambda>s.
          Inr (inStream, s)))))))))"

text \<open>
  The part of the login block up to the halves of the session key; \<open>None\<close> where the code disconnects the client.
\<close>

definition read_login_block :: "StreamBuffer \<Rightarrow> fault + (i64 \<times> i64) option \<times> StreamBuffer" where
  "read_login_block inStream =
     bindR (ReadByte0 inStream) (\<lambda>(magic, inStream).
     bindR (ReadShort0 inStream) (\<lambda>(v, inStream).
     let clientVersion = (ucast v :: 16 word) in
     if clientVersion \<noteq> 317 then Inr (None, inStream)
     else
       bindR (ReadByte0 inStream) (\<lambda>(_, inStream).
       bindR (read_n ReadInt0 9 inStream) (\<lambda>(_, inStream).
       bindR (ReadByte0 inStream) (\<lambda>(_, inStream).
       bindR (ReadByte0 inStream) (\<lambda>(v, inStream).
       let rsaOpcode = (ucast v :: 8 word) in
       if rsaOpcode \<noteq> 10 then Inr (None, inStream)
       else
         bindR (ReadLong0 inStream) (\<lambda>(clientHalf, inStream).
         bindR (ReadLong0 inStream) (\<lambda>(serverHalf, inStream).
         Inr (Some (clientHalf, serverHalf), inStream)))))))))"

definition seed_of :: "i64 \<Rightarrow> i64 \<Rightarrow> u32 list" where
  "seed_of clientHalf serverHalf =
     [ucast (signed_drop_bit 32 clientHalf), ucast clientHalf, ucast (signed_drop_bit 32 serverHalf), ucast serverHalf]"

text \<open>\<open>SetDecryptor\<close> and \<open>SetEncryptor\<close> with the ciphers made from the seed.\<close>

definition set_ciphers :: "i64 \<Rightarrow> i64 \<Rightarrow> Client \<Rightarrow> Client" where
  "set_ciphers clientHalf serverHalf x =
     (let seed = seed_of clientHalf serverHalf
      in SetEncryptor (ISAACCipher_new (seed ! 0 + 50) (seed ! 1 + 50) (seed ! 2 + 50) (seed ! 3 + 50))
           (SetDecryptor (ISAACCipher_new (seed ! 0) (seed ! 1) (seed ! 2) (seed ! 3)) x))"

text \<open>\<open>existingPlayer->GetClient()\<close> decides between the two responses to a name that is online.\<close>

definition login_response :: "string \<Rightarrow> ref \<Rightarrow> System \<Rightarrow> fault + i8" where
  "login_response username c s =
     (case World_GetPlayer username s of
        None \<Rightarrow> Inr LoginResponse_OK
      | Some p \<Rightarrow>
          bindR (deref (players s) p) (\<lambda>existingPlayer.
            let existingClient = GetClient existingPlayer s
            in Inr (if existingClient = None \<or> existingClient = Some c
                    then LoginResponse_RECONNECT else LoginResponse_ACCOUNT_ONLINE)))"

text \<open>\<open>std::make_shared<Player>\<close>; the result is dropped at the end of the handler.\<close>

definition new_player :: "string \<Rightarrow> ref \<Rightarrow> System \<Rightarrow> ref \<times> System" where
  "new_player username c s =
     (length (players s), s\<lparr>players := players s @ [Some (Player_new username c)]\<rparr>)"

text \<open>The end of the handler, from \<open>client->SetUsername\<close> on.\<close>

definition finish_login :: "string \<Rightarrow> ref \<Rightarrow> System \<Rightarrow> fault + System" where
  "finish_login username c s =
     bindR (on_client c (\<lambda>x. Inr (SetUsername username x)) s) (\<lambda>s.
     bindR (login_response username c s) (\<lambda>response.
     bindR (WriteByte0 (ucast response) StreamBuffer_default) (\<lambda>outStream.
     bindR (if response = LoginResponse_OK
            then bindR (WriteByte0 0 outStream) (WriteByte0 0)
            else Inr outStream) (\<lambda>outStream.
     bindR (on_client c (Send outStream) s) (\<lambda>s.
     if response \<noteq> LoginResponse_OK \<and> response \<noteq> LoginResponse_RECONNECT
     then on_client c (\<lambda>x. Inr (RequestDisconnect x)) s
     else
       let (player, s) = new_player username c s in
       bindR (on_client c (\<lambda>x. Inr (SetPlayer player x)) s) (\<lambda>s.
       bindR (on_client c (\<lambda>x. Inr (SetNetworkStage LOGGED_IN x)) s) (\<lambda>s.
       bindR (RegisterPlayer player s) (\<lambda>s.
       Inr (release_players [player] s)))))))))"

definition HandleLoggingInStage :: "StreamBuffer \<Rightarrow> ref \<Rightarrow> System \<Rightarrow> fault + StreamBuffer \<times> System" where
  "HandleLoggingInStage inStream c s =
     (if Remaining inStream < 2 then reject inStream c s
      else
        bindR (ReadByte0 inStream) (\<lambda>(v, inStream).
        let loginType = (ucast v :: 8 word) in
        if loginType \<noteq> 16 \<and> loginType \<noteq> 18 then reject inStream c s
        else
          bindR (ReadByte0 inStream) (\<lambda>(v, inStream).
          let blockLength = (ucast v :: 8 word) in
          if Remaining inStream < uint blockLength then reject inStream c s
          else
            bindR (read_login_block inStream) (\<lambda>(halves, inStream).
            case halves of
              None \<Rightarrow> reject inStream c s
            | Some (clientHalf, serverHalf) \<Rightarrow>
                bindR (on_client c (\<lambda>x. Inr (set_ciphers clientHalf serverHalf x)) s) (\<lambda>s.
                bindR (ReadInt0 inStream) (\<lambda>(_, inStream).
                bindR (ReadString inStream) (\<lambda>(username, inStream).
                bindR (ReadString inStream) (\<lambda>(password, inStream).
                bindR (finish_login username c s) (\<lambda>s.
                Inr (inStream, s))))))))))"

definition LoginHandler_Process ::
  "u64 \<Rightarrow> StreamBuffer \<Rightarrow> ref \<Rightarrow> System \<Rightarrow> fault + StreamBuffer \<times> System" where
  "LoginHandler_Process gen inStream c s =
     bindR (deref (clients s) c) (\<lambda>x.
       case GetNetworkStage x of
         CONNECTED \<Rightarrow> HandleConnectedStage gen inStream c s
       | LOGGING_IN \<Rightarrow> HandleLoggingInStage inStream c s
       | _ \<Rightarrow> Inr (inStream, s))"

section \<open>The stages keep the invariant\<close>

lemma io_ok_cong:
  assumes "io_ok h c x" "m_Strand y = m_Strand x" "reading y = reading x" "write_op y = write_op x"
    and "m_WriteQueue y = m_WriteQueue x" "m_Writing y = m_Writing x" "m_Disconnected y = m_Disconnected x"
  shows "io_ok h c y"
proof -
  have "write_wf y = write_wf x" "strand_ok y = strand_ok x" "strand_ok (y\<lparr>reading := True\<rparr>) = strand_ok (x\<lparr>reading := True\<rparr>)"
    unfolding write_wf_def strand_ok_def assms(2-7) by (simp_all add: assms(2-7))
  with assms(1,3) show ?thesis by (simp add: io_ok_def)
qed

lemma io_ok_send: "io_ok h c x \<Longrightarrow> io_ok h c (x\<lparr>m_Strand := m_Strand x @ [SendTask data]\<rparr>)"
  by (rule sends_io_ok(1) [of h c x]) (auto simp: sends_def intro!: exI [of _ "[data]"] exI [of _ "m_Encryptor x"])

lemma io_ok_request:
  "io_ok (Some c) c x \<Longrightarrow> io_ok (Some c) c (x\<lparr>m_Strand := m_Strand x @ [RequestDisconnectTask]\<rparr>)"
  by (auto simp: io_ok_def write_wf_def strand_ok_def split: option.splits if_splits)

lemma reject_ok:
  assumes "inv_during h s" "heap_at (clients s) c = Some x"
  obtains t where "reject b c s = Inr (b, t)" "inv_during h t" "effect_of c s t"
proof -
  obtain t where t: "Disconnect c s = Inr t" "inv_during h t" using sys_inv_Disconnect [OF assms] .
  from t effect_of_Disconnect [OF assms t(1)] show ?thesis by (intro that) (simp_all add: reject_def)
qed

text \<open>The answer to a connection request: nine zero bytes, and the number drawn, cut to 32 bits and extended.\<close>

definition connect_answer :: "u64 \<Rightarrow> i8 list" where
  "connect_answer gen = replicate 9 0 @ enc_long VT_STANDARD BIG (scast (ucast gen :: i32))"

lemma on_client_put:
  "heap_at (clients s) c = Some x \<Longrightarrow> on_client c f (put_client c y s) = bindR (f y) (\<lambda>z. Inr (put_client c z s))"
  by (simp add: on_client_def deref_def at_put_client)

lemma enc_long_0: "enc_long VT_STANDARD BIG 0 = replicate 8 0"
  by code_simp

lemma connect_answer_written:
  "bindR (WriteLong_i32 0 StreamBuffer_default) (\<lambda>outStream.
   bindR (WriteByte 0 VT_STANDARD outStream) (WriteLong_i32 (ucast gen))) =
   Inr (put_bytes (connect_answer gen) StreamBuffer_default)"
proof -
  have "replicate 9 (0 :: i8) = replicate 8 0 @ [0]" by (simp add: numeral_eq_Suc)
  then show ?thesis
    by (simp add: WriteLong_i32_def StreamBuffer_default_def WriteLong_eq WriteByte_eq connect_answer_def
        enc_long_0 enc_value_standard put_bytes_append)
qed

lemma Send_default:
  "Send (put_bytes data StreamBuffer_default) x = Inr (x\<lparr>m_Strand := m_Strand x @ [SendTask data]\<rparr>)"
  by (simp add: Send_eq StreamBuffer_default_def stream_wf_put_bytes stream_wf_sized written_put_bytes)

lemma ReadByte_signed:
  assumes "unread b = v # rest"
  shows "ReadByte True VT_STANDARD b = Inr (scast v, advance 1 b)"
proof -
  have "m_Pos b < length (m_Buffer b)" "m_Buffer b ! m_Pos b = v"
    using assms by (auto simp: unread_def dest: drop_eq_ConsD)
  then show ?thesis by (simp add: ReadByte_def Let_def advance_def)
qed

text \<open>The first stage, for all inputs.\<close>

lemma HandleConnectedStage_eq:
  assumes "heap_at (clients s) c = Some x"
  shows "HandleConnectedStage gen b c s =
    (case unread b of
       request # hash # _ \<Rightarrow>
         if request = 14
         then Inr (advance 2 b, put_client c (x\<lparr>m_Strand := m_Strand x @ [SendTask (connect_answer gen)],
                m_Stage := LOGGING_IN\<rparr>) s)
         else reject (advance 2 b) c s
     | _ \<Rightarrow> reject b c s)"
proof -
  have rem: "Remaining b < 2 \<longleftrightarrow> length (unread b) < 2" by (auto simp: Remaining_def unread_def)
  consider "length (unread b) < 2" | request hash rest where "unread b = request # hash # rest"
    by (cases "unread b" rule: remdups_adj.cases) auto
  then show ?thesis
  proof cases
    case 1
    then show ?thesis using rem by (auto simp: HandleConnectedStage_def split: list.split)
  next
    case (2 request hash rest)
    have "unread (advance 1 b) = hash # rest" using 2 by simp
    note reads = ReadByte_signed [OF 2] ReadByte_signed [OF this, unfolded One_nat_def]
    have answer: "bindR (WriteLong_i32 0 StreamBuffer_default) (\<lambda>out. bindR (WriteByte 0 VT_STANDARD out)
        (\<lambda>out. bindR (WriteLong_i32 (ucast gen) out) k)) = k (put_bytes (connect_answer gen) StreamBuffer_default)"
      for k :: "StreamBuffer \<Rightarrow> fault + StreamBuffer \<times> System"
      using connect_answer_written [of gen] by (simp add: bindR_assoc [symmetric])
    show ?thesis
      using rem 2 assms
      by (simp add: HandleConnectedStage_def reads Let_def ucast8_scast answer on_client_eq [OF assms] Send_default
          on_client_put [OF assms] SetNetworkStage_def numeral_2_eq_2)
  qed
qed

lemma HandleConnectedStage_inv:
  assumes "inv_during h s" "heap_at (clients s) c = Some x" "m_Stage x = CONNECTED"
  obtains b' t where "HandleConnectedStage gen b c s = Inr (b', t)" "inv_during h t" "effect_of c s t"
proof -
  let ?x = "x\<lparr>m_Strand := m_Strand x @ [SendTask (connect_answer gen)], m_Stage := LOGGING_IN\<rparr>"
  note inv = sys_invD [OF assms(1)]
  have x: "io_ok h c x" "session_ok c x s" using inv(5,6) assms(2) by blast+
  have "io_ok h c ?x" by (rule io_ok_cong [OF io_ok_send [OF x(1)]]) simp_all
  moreover have "session_ok c ?x s" "m_Player x = None"
    using x(2) assms(3) by (auto simp: session_ok_def split: option.splits)
  ultimately have "inv_during h (put_client c ?x s)"
    by (intro inv_put_client [OF assms(1,2)]) simp_all
  moreover have "effect_of c s (put_client c ?x s)"
    using assms(3)
    by (intro quiet_of quiet_put_client [OF assms(2)] grows_enter appends_strand) (simp_all add: entered_def)
  moreover have "\<exists>b' t. reject b0 c s = Inr (b', t) \<and> inv_during h t \<and> effect_of c s t" for b0
    using reject_ok [OF assms(1,2)] by metis
  ultimately have "\<exists>b' t. HandleConnectedStage gen b c s = Inr (b', t) \<and> inv_during h t \<and> effect_of c s t"
    unfolding HandleConnectedStage_eq [OF assms(2)] by (auto split: list.split)
  then show ?thesis using that by blast
qed

section \<open>The end of the login\<close>

text \<open>
  The client of a registered player is logged in, so it is another one than the client that logs in: the
  response is never \<open>RECONNECT\<close>.
\<close>

lemma login_response_eq:
  assumes "inv_during h s" "heap_at (clients s) c = Some x" "m_Stage x \<noteq> LOGGED_IN"
  shows "login_response username c s = Inr (case World_GetPlayer username s of None \<Rightarrow> 2 | Some _ \<Rightarrow> 5)"
proof (cases "World_GetPlayer username s")
  case None
  then show ?thesis by (simp add: login_response_def LoginResponse_OK_def)
next
  case (Some p)
  then have reg: "registered p s" by (force simp: World_GetPlayer_def registered_def dest: map_of_SomeD)
  obtain pl z where p: "player_ok p pl z s" using world_ok_member [OF sys_invD(1) [OF assms(1)] reg] .
  then have "m_Stage z = LOGGED_IN" using sys_invD(7) [OF assms(1) reg] by blast
  with p assms(2,3) have "m_Client pl \<noteq> c" by (auto simp: player_ok_def)
  with Some p show ?thesis
    by (simp add: login_response_def player_ok_def deref_def GetClient_def LoginResponse_ACCOUNT_ONLINE_def)
qed

lemma inv_set_username:
  assumes "inv_during h s" "heap_at (clients s) c = Some x" "m_Stage x = LOGGING_IN"
  shows "inv_during h (put_client c (x\<lparr>m_ClientUsername := username\<rparr>) s)" "m_Player x = None"
proof -
  note inv = sys_invD [OF assms(1)]
  have x: "io_ok h c x" "session_ok c x s" using inv(5,6) assms(2) by blast+
  show none: "m_Player x = None" using x(2) assms(3) by (auto simp: session_ok_def split: option.splits)
  have "session_ok c (x\<lparr>m_ClientUsername := username\<rparr>) s"
    using x(2) assms(3) none by (simp add: session_ok_def)
  moreover have "io_ok h c (x\<lparr>m_ClientUsername := username\<rparr>)" by (rule io_ok_cong [OF x(1)]) simp_all
  ultimately show "inv_during h (put_client c (x\<lparr>m_ClientUsername := username\<rparr>) s)"
    using none by (intro inv_put_client [OF assms(1,2)]) simp_all
qed

definition answered :: "string \<Rightarrow> i8 list \<Rightarrow> Client \<Rightarrow> Client" where
  "answered username data x =
     x\<lparr>m_ClientUsername := username, m_Strand := m_Strand x @ [SendTask data]\<rparr>"

text \<open>The state in which a new player is registered.\<close>

definition with_player :: "string \<Rightarrow> ref \<Rightarrow> Client \<Rightarrow> System \<Rightarrow> System" where
  "with_player username c x s =
     (put_client c ((answered username [2, 0, 0] x)\<lparr>m_Player := Some (length (players s)), m_Stage := LOGGED_IN\<rparr>) s)
       \<lparr>players := players s @ [Some (Player_new username c)]\<rparr>"

lemma finish_login_eq:
  assumes "inv_during h s" "heap_at (clients s) c = Some x" "m_Stage x = LOGGING_IN"
  shows "finish_login username c s =
    (if World_GetPlayer username s = None
     then bindR (RegisterPlayer (length (players s)) (with_player username c x s))
       (\<lambda>t. Inr (release_players [length (players s)] t))
     else Inr (put_client c (RequestDisconnect (answered username [5] x)) s))"
proof -
  let ?s = "put_client c (x\<lparr>m_ClientUsername := username\<rparr>) s"
  have at: "heap_at (clients ?s) c = Some (x\<lparr>m_ClientUsername := username\<rparr>)"
    using assms(2) by (simp add: at_put_client)
  have resp: "login_response username c ?s =
      Inr (case World_GetPlayer username s of None \<Rightarrow> 2 | Some _ \<Rightarrow> 5)"
    using login_response_eq [OF inv_set_username(1) [OF assms] at] assms(3) by (simp add: World_GetPlayer_def)
  have bytes: "WriteByte 5 VT_STANDARD StreamBuffer_default = Inr (put_bytes [5] StreamBuffer_default)"
    "bindR (WriteByte 2 VT_STANDARD StreamBuffer_default) (\<lambda>out. bindR (bindR (WriteByte 0 VT_STANDARD out)
       (WriteByte 0 VT_STANDARD)) k) = k (put_bytes [2, 0, 0] StreamBuffer_default)"
    for k :: "StreamBuffer \<Rightarrow> fault + System"
    by (simp_all add: WriteByte_eq StreamBuffer_default_def enc_value_standard)
  show ?thesis
  proof (cases "World_GetPlayer username s")
    case None
    have r: "(2 :: i8) \<noteq> 15" by simp
    have upd: "put_client c y (s\<lparr>players := ps\<rparr>) = (put_client c y s)\<lparr>players := ps\<rparr>" for y ps by simp
    have on: "on_client c f ((put_client c y s)\<lparr>players := ps\<rparr>) =
        bindR (f y) (\<lambda>z. Inr ((put_client c z s)\<lparr>players := ps\<rparr>))" for f y ps
      using assms(2) unfolding upd [symmetric]
      by (subst on_client_put [of "s\<lparr>players := ps\<rparr>" c x]) simp_all
    show ?thesis
      using None
      by (simp add: finish_login_def on_client_eq [OF assms(2)] SetUsername_def resp LoginResponse_OK_def
          LoginResponse_RECONNECT_def bytes(2) on_client_put [OF assms(2)] Send_default new_player_def on
          SetPlayer_def SetNetworkStage_def with_player_def answered_def Let_def
          del: put_bytes.simps)
  next
    case (Some p)
    then show ?thesis
      by (simp add: finish_login_def on_client_eq [OF assms(2)] SetUsername_def resp LoginResponse_OK_def
          LoginResponse_RECONNECT_def bytes(1) on_client_put [OF assms(2)] Send_default answered_def
          RequestDisconnect_def del: put_bytes.simps)
  qed
qed

section \<open>Registration of the new player\<close>

definition logging_client :: "string \<Rightarrow> ref \<Rightarrow> Client \<Rightarrow> Client" where
  "logging_client username p x =
     (answered username [2, 0, 0] x)\<lparr>m_Player := Some p, m_Stage := LOGGED_IN\<rparr>"

lemma with_player_at:
  assumes "heap_at (clients s) c = Some x"
  shows "heap_at (players (with_player username c x s)) r =
      (if r = length (players s) then Some (Player_new username c) else heap_at (players s) r)"
    and "heap_at (clients (with_player username c x s)) d =
      (if d = c then Some (logging_client username (length (players s)) x) else heap_at (clients s) d)"
    and "m_Players (with_player username c x s) = m_Players s"
    and "m_OccupiedIndices (with_player username c x s) = m_OccupiedIndices s"
    and "m_Sessions (with_player username c x s) = m_Sessions s"
    and "length (players (with_player username c x s)) = length (players s) + 1"
    and "playerList (with_player username c x s) = playerList s"
  using assms by (simp_all add: with_player_def heap_at_append at_put_client logging_client_def)

lemma Player_new_fields [simp]:
  "m_Username (Player_new username c) = username" "m_Client (Player_new username c) = c"
  "m_LocalPlayers (Player_new username c) = []"
  by (simp_all add: Player_new_def)

lemma player_index: "registry_wf s \<Longrightarrow> p \<in> snd ` set (m_Players s) \<Longrightarrow> p < length (players s)"
  by (auto elim!: registry_entry dest: heap_at_length)

lemma with_player_ok:
  assumes "inv_during h s" "heap_at (clients s) c = Some x" "m_Encryptor x \<noteq> None"
    and "World_GetPlayer username s = None"
  defines "t \<equiv> with_player username c x s"
  shows "registry_wf t" "World_GetPlayer (m_Username (Player_new username c)) t = None"
    "player_ok (length (players s)) (Player_new username c) (logging_client username (length (players s)) x) t"
    "\<not> owned (length (players s)) t"
proof -
  note inv = sys_invD [OF assms(1)] and at = with_player_at [OF assms(2), of username, folded t_def]
  show "registry_wf t"
  proof (rule registry_wf_cong [OF at(3,4) _ inv(3)])
    fix p pl assume "p \<in> snd ` set (m_Players s)" "heap_at (players s) p = Some pl"
    then show "\<exists>pl'. heap_at (players t) p = Some pl' \<and> m_Username pl' = m_Username pl \<and> m_Index pl' = m_Index pl"
      using player_index [OF inv(3), of p] by (simp add: at)
  qed
  show "World_GetPlayer (m_Username (Player_new username c)) t = None"
    using assms(4) by (simp add: World_GetPlayer_def at)
  show "player_ok (length (players s)) (Player_new username c) (logging_client username (length (players s)) x) t"
    using assms(3) by (simp add: player_ok_def at logging_client_def answered_def)
  have "rooted (length (players s)) s \<Longrightarrow> alive (length (players s)) s" using inv(4) by (simp add: refs_ok_def)
  then have "\<not> rooted (length (players s)) t" by (auto simp: alive_def rooted_def at)
  moreover have "length (players s) \<notin> set (m_LocalPlayers y)" if "heap_at (players s) q = Some y" for q y
    using inv(4) that by (force simp: refs_ok_def alive_def)
  ultimately show "\<not> owned (length (players s)) t"
    by (auto simp: owned_iff at split: if_splits)
qed

lemma release_fresh:
  assumes "heap_at (players s) p = Some pl" "\<not> owned p s" "m_LocalPlayers pl = []"
  shows "release_players [p] s = s\<lparr>players := (players s)[p := None]\<rparr>"
  using assms by (simp add: release_players.simps)

lemma release_owned: "owned p s \<Longrightarrow> release_players [p] s = s"
  by (simp add: release_players.simps split: option.split)

text \<open>The result when all indices are taken: the client is logged in, but its player is gone.\<close>

definition ghost_login :: "string \<Rightarrow> ref \<Rightarrow> Client \<Rightarrow> System \<Rightarrow> System" where
  "ghost_login username c x s =
     (put_client c (logging_client username (length (players s)) x) s)\<lparr>players := players s @ [None]\<rparr>"

text \<open>The result when index \<open>i\<close> is free.\<close>

definition full_login :: "string \<Rightarrow> nat \<Rightarrow> ref \<Rightarrow> Client \<Rightarrow> System \<Rightarrow> System" where
  "full_login username i c x s =
     (put_client c (emits (login_packets (Position_new 3200 3200)) (logging_client username (length (players s)) x)) s)
       \<lparr>players := players s @ [Some (logged_in_player ((Player_new username c)\<lparr>m_Index := word_of_nat i\<rparr>))],
        m_Players := m_Players s @ [(username, length (players s))],
        m_OccupiedIndices := (m_OccupiedIndices s)[i := True]\<rparr>"

lemma finish_login_cases:
  assumes "inv_during h s" "heap_at (clients s) c = Some x" "m_Stage x = LOGGING_IN" "m_Encryptor x \<noteq> None"
    and "World_GetPlayer username s = None"
  obtains (full) "finish_login username c s = Inr (ghost_login username c x s)"
      "used_indices (m_OccupiedIndices s) = {..<MAX_PLAYERS}"
  | (slot) i where "finish_login username c s = Inr (full_login username i c x s)"
      "free_slot (m_OccupiedIndices s) = (Some i, (m_OccupiedIndices s)[i := True])" "i < MAX_PLAYERS"
      "registry_wf (full_login username i c x s)"
proof -
  let ?p = "length (players s)" and ?t = "with_player username c x s" and ?pl = "Player_new username c"
  note ok = with_player_ok [OF assms(1,2,4,5)] and at = with_player_at [OF assms(2), of username]
  note fin = finish_login_eq [OF assms(1-3), of username]
  from ok(1,3,2) show ?thesis
  proof (cases rule: RegisterPlayer_eq)
    case full
    have "heap_at (players ?t) ?p = Some ?pl" by (simp add: at)
    from release_fresh [OF this ok(4)] full assms(5)
    have "finish_login username c s = Inr (ghost_login username c x s)"
      by (simp add: fin ghost_login_def with_player_def logging_client_def)
    with full at(4) that(1) show ?thesis by simp
  next
    case (slot i)
    have name: "username \<notin> fst ` set (m_Players s)"
      using assms(5) by (simp add: World_GetPlayer_def map_of_eq_None_iff)
    have eq: "put_client (m_Client ?pl) (emits (login_packets (m_Position ?pl)) (logging_client username ?p x))
        (put_player ?p (logged_in_player (?pl\<lparr>m_Index := word_of_nat i\<rparr>)) (enter_player ?p ?pl i ?t)) =
        full_login username i c x s"
      using update_fresh [OF name, of ?p]
      by (simp add: full_login_def enter_player_def with_player_def put_client_def put_player_def Player_new_def)
    have "owned ?p (full_login username i c x s)"
      by (simp add: owned_def rooted_def full_login_def)
    note slot = slot [unfolded eq at(4)] and rel = release_owned [OF this]
    have "finish_login username c s = Inr (full_login username i c x s)"
      using slot(3) rel assms(5) by (simp add: fin)
    with slot that(2) [of i] show ?thesis by blast
  qed
qed

section \<open>A login keeps the invariant\<close>

text \<open>A client in the middle of its login, with its ciphers set.\<close>

definition logging_in :: "ref \<Rightarrow> Client \<Rightarrow> System \<Rightarrow> bool" where
  "logging_in c x s \<longleftrightarrow> heap_at (clients s) c = Some x \<and> m_Stage x = LOGGING_IN \<and> m_Encryptor x \<noteq> None \<and> m_Decryptor x \<noteq> None"

lemma logging_client_fields [simp]:
  "m_Stage (logging_client username p x) = LOGGED_IN" "m_Player (logging_client username p x) = Some p"
  "m_ClientUsername (logging_client username p x) = username"
  "m_Encryptor (logging_client username p x) = m_Encryptor x"
  "m_Decryptor (logging_client username p x) = m_Decryptor x"
  "m_Disconnected (logging_client username p x) = m_Disconnected x"
  "m_OnDisconnect (logging_client username p x) = m_OnDisconnect x"
  "socket_open (logging_client username p x) = socket_open x"
  by (simp_all add: logging_client_def answered_def)

lemma io_ok_answered: "io_ok h c x \<Longrightarrow> io_ok h c (answered username data x)"
  unfolding answered_def by (rule io_ok_cong [OF io_ok_send]) simp_all

lemma io_ok_logging: "io_ok h c x \<Longrightarrow> io_ok h c (logging_client username p x)"
  unfolding logging_client_def by (rule io_ok_cong [OF io_ok_answered]) simp_all

lemma heap_at_append_None [simp]: "heap_at (h @ [None]) r = heap_at h r"
  by (simp add: heap_at_append)

lemma inv_extend:
  assumes "inv_during h s"
  shows "inv_during h (s\<lparr>players := players s @ [None]\<rparr>)"
proof -
  let ?t = "s\<lparr>players := players s @ [None]\<rparr>"
  have "session_ok c x ?t" if "session_ok c x s" for c x
    using that by (rule session_ok_mono) (auto simp: registered_def)
  moreover have "world_ok ?t = world_ok s"
    by (simp add: world_ok_def registry_wf_def index_of_def [abs_def] refs_ok_def alive_def registered_def
        player_ok_def listed_ok_def)
  moreover have "player_ok p pl x ?t = player_ok p pl x s" "registered p ?t = registered p s"
    "sessions_ok ?t = sessions_ok s" for p pl x
    by (simp_all add: player_ok_def registered_def sessions_ok_def)
  ultimately show ?thesis using assms by (simp add: inv_during_def)
qed

lemma inv_ghost_login:
  assumes "inv_during h s" "logging_in c x s"
  shows "inv_during h (ghost_login username c x s)"
proof -
  let ?s = "s\<lparr>players := players s @ [None]\<rparr>" and ?y = "logging_client username (length (players s)) x"
  note inv = sys_invD [OF assms(1)] and x = assms(2) [unfolded logging_in_def]
  have "session_ok c x s" using inv(6) x by blast
  then have "session_ok c ?y ?s" "m_Player x = None"
    using x by (auto simp: session_ok_def split: option.splits)
  then have "inv_during h (put_client c ?y ?s)"
    using x inv(5) by (intro inv_put_client [OF inv_extend [OF assms(1)], of c x]) (auto intro: io_ok_logging)
  then show ?thesis by (simp add: ghost_login_def)
qed

lemma full_login_at:
  assumes "heap_at (clients s) c = Some x"
  defines "p \<equiv> length (players s)"
  shows "heap_at (players (full_login username i c x s)) r =
      (if r = p then Some (logged_in_player ((Player_new username c)\<lparr>m_Index := word_of_nat i\<rparr>)) else heap_at (players s) r)"
    and "heap_at (clients (full_login username i c x s)) d =
      (if d = c then Some (emits (login_packets (Position_new 3200 3200)) (logging_client username p x))
       else heap_at (clients s) d)"
    and "registered r (full_login username i c x s) \<longleftrightarrow> registered r s \<or> r = p"
    and "m_Sessions (full_login username i c x s) = m_Sessions s"
    and "length (players (full_login username i c x s)) = length (players s) + 1"
    and "length (clients (full_login username i c x s)) = length (clients s)"
    and "playerList (full_login username i c x s) = playerList s"
  using assms by (auto simp: full_login_def heap_at_append at_put_client registered_def)

lemma member_ok_new: "member_ok p (logged_in_player ((Player_new username c)\<lparr>m_Index := i\<rparr>))"
  by (simp add: member_ok_def logged_in_player_def settled_def movement_wf_def waypoints_def Player_new_def
      MovementHandler_new_def)

lemma world_full_login:
  assumes "inv_during h s" "logging_in c x s" "registry_wf (full_login username i c x s)"
  shows "world_ok (full_login username i c x s)" (is "world_ok ?t")
proof -
  let ?p = "length (players s)"
  note inv = sys_invD [OF assms(1)] and x = assms(2) [unfolded logging_in_def]
  have c: "heap_at (clients s) c = Some x" using x by simp
  note at = full_login_at [OF c, where username = username and i = i]
  have none: "m_Player x = None" using inv(6) [OF c] x by (auto simp: session_ok_def split: option.splits)
  have alive: "alive r ?t" if "alive r s" for r using that by (auto simp: alive_def at)
  have "refs_ok ?t"
    unfolding refs_ok_def
  proof (intro conjI ballI allI impI)
    fix r assume "rooted r ?t"
    then have "rooted r s \<or> r = ?p" by (auto simp: rooted_def full_login_def)
    then show "alive r ?t" using inv(4) alive by (auto simp: refs_ok_def alive_def at)
  next
    fix q y r assume "heap_at (players ?t) q = Some y" "r \<in> set (m_LocalPlayers y)"
    then show "alive r ?t"
      using inv(4) alive by (auto simp: at refs_ok_def logged_in_player_def split: if_splits)
  qed
  moreover have "\<exists>pl z. player_ok r pl z ?t \<and> member_ok r pl" if reg: "registered r ?t" for r
  proof (cases "r = ?p")
    case True
    have "m_Encryptor (emits ps (logging_client username ?p x)) \<noteq> None" for ps
      using sends_emits [of "logging_client username ?p x" ps] x by (auto simp: sends_def)
    with True have "player_ok r (logged_in_player ((Player_new username c)\<lparr>m_Index := word_of_nat i\<rparr>))
        (emits (login_packets (Position_new 3200 3200)) (logging_client username ?p x)) ?t"
      by (simp add: player_ok_def at logged_in_player_def)
    with member_ok_new show ?thesis by blast
  next
    case False
    with reg have "registered r s" by (simp add: at)
    then obtain pl z where "player_ok r pl z s" "member_ok r pl" using world_ok_member [OF inv(1)] by metis
    moreover from this(1) none c have "m_Client pl \<noteq> c" by (auto simp: player_ok_def)
    ultimately show ?thesis using False by (auto simp: player_ok_def at)
  qed
  moreover have "listed_ok r ?t" if "r \<in> set (playerList ?t)" for r
  proof -
    have "listed_ok r s" using that inv(1) by (simp add: world_ok_def full_login_def)
    then obtain pl where pl: "heap_at (players s) r = Some pl" "member_ok r pl" "m_Client pl < length (clients s)"
      "\<And>z. heap_at (clients s) (m_Client pl) = Some z \<Longrightarrow> player_ok r pl z s" by (rule listed_okE) blast
    from pl(4) none c have "m_Client pl \<noteq> c" by (auto simp: player_ok_def)
    with pl show ?thesis by (intro listed_okI [of _ _ pl]) (auto simp: player_ok_def at dest: heap_at_length)
  qed
  ultimately show ?thesis using assms(3) by (simp add: world_ok_def)
qed

lemma inv_full_login:
  assumes "inv_during h s" "logging_in c x s" "registry_wf (full_login username i c x s)"
  shows "inv_during h (full_login username i c x s)" (is "inv_during h ?t")
proof -
  let ?p = "length (players s)" and ?y = "logging_client username (length (players s)) x"
  let ?z = "emits (login_packets (Position_new 3200 3200)) ?y"
  note inv = sys_invD [OF assms(1)] and x = assms(2) [unfolded logging_in_def]
  have c: "heap_at (clients s) c = Some x" using x by simp
  note at = full_login_at [OF c, where username = username and i = i]
  have none: "m_Player x = None" using inv(6) [OF c] x by (auto simp: session_ok_def split: option.splits)
  have z: "io_ok h c ?z" "same_session ?y ?z"
    using sends_io_ok [OF io_ok_logging [OF inv(5) [OF c]] sends_emits] by blast+
  have "session_ok c ?y ?t"
    using inv(6) [OF c] x by (auto simp: session_ok_def at logged_in_player_def)
  note sess = session_ok_same [OF z(2) this]
  have "io_ok h d w \<and> session_ok d w ?t" if w: "heap_at (clients ?t) d = Some w" for d w
  proof (cases "d = c")
    case True
    with w z(1) sess show ?thesis by (simp add: at)
  next
    case False
    with w have d: "heap_at (clients s) d = Some w" by (simp add: at)
    have "session_ok d w ?t"
    proof (rule session_ok_mono [OF inv(6) [OF d]])
      fix p pl assume p: "m_Player w = Some p" "heap_at (players ?t) p = Some pl"
      with inv(6) [OF d] have "p \<noteq> ?p" by (auto simp: session_ok_def)
      with p show "\<exists>pl'. heap_at (players s) p = Some pl' \<and> m_Client pl = m_Client pl' \<and>
          m_Username pl = m_Username pl' \<and> (registered p s \<longrightarrow> registered p ?t)"
        by (simp add: at)
    qed (simp add: at)
    with inv(5) [OF d] show ?thesis by simp
  qed
  moreover have "m_Stage w = LOGGED_IN" if reg: "registered r ?t" and ok: "player_ok r pl w ?t" for r pl w
  proof (cases "m_Client pl = c")
    case True
    with ok show ?thesis by (auto simp: player_ok_def at)
  next
    case False
    with ok have "r \<noteq> ?p" by (auto simp: player_ok_def at logged_in_player_def)
    with False ok reg inv(7) [of r pl w] show ?thesis by (simp add: player_ok_def at)
  qed
  moreover have "sessions_ok ?t" using inv(2) c by (auto simp: sessions_ok_def at)
  moreover have "heap_at (clients ?t) d \<noteq> None" if "h = Some d" for d
    using inv(8) [OF that] by (simp add: at)
  ultimately show ?thesis using world_full_login [OF assms] unfolding inv_during_def by blast
qed

section \<open>The effect of a login\<close>

lemma appends_logging: "appends x (logging_client username p x)"
  by (rule appends_strand) (simp_all add: logging_client_def answered_def)

lemma online_extend:
  assumes "registry_wf s" "\<And>r. r < length (players s) \<Longrightarrow> heap_at (players t) r = heap_at (players s) r"
    and "World_GetPlayer name t = World_GetPlayer name s"
  shows "online t name = online s name"
proof (cases "World_GetPlayer name s")
  case (Some p)
  then have "p \<in> snd ` set (m_Players s)" by (force simp: World_GetPlayer_def dest: map_of_SomeD)
  with assms Some player_index [OF assms(1), of p] show ?thesis by (simp add: online_def)
qed (simp add: online_def assms(3))

lemma quiet_ghost_login:
  assumes "inv_during h s" "logging_in c x s"
  shows "quiet s (ghost_login username c x s)"
proof -
  let ?t = "ghost_login username c x s"
  have at: "heap_at (players ?t) r = heap_at (players s) r" "World_GetPlayer name ?t = World_GetPlayer name s" for r name
    by (simp_all add: ghost_login_def World_GetPlayer_def)
  have "online ?t = online s" by (rule ext) (simp add: online_def at)
  moreover have "grow s ?t"
    using assms(2) by (auto simp: grow_def ghost_login_def logging_in_def at_put_client option.rel_refl entered_def
        intro: grows_enter appends_logging)
  moreover have "rests s ?t" by (auto simp: rests_def at dest: heap_at_length) (simp_all add: ghost_login_def)
  ultimately show ?thesis by (simp add: quiet_iff abs_server_def) (simp add: ghost_login_def)
qed

lemma effect_full_login:
  assumes "inv_during h s" "logging_in c x s" "registry_wf (full_login username i c x s)"
    and "World_GetPlayer username s = None"
  shows "effect (Login c username) s (full_login username i c x s)"
proof -
  let ?t = "full_login username i c x s" and ?p = "length (players s)"
  note inv = sys_invD [OF assms(1)] and x = assms(2) [unfolded logging_in_def]
  have c: "heap_at (clients s) c = Some x" using x by simp
  note at = full_login_at [OF c, where username = username and i = i]
  have get: "World_GetPlayer name ?t = (if name = username then Some ?p else World_GetPlayer name s)" for name
    using assms(4) by (auto simp: full_login_def World_GetPlayer_def map_of_append map_add_def split: option.split)
  have "online ?t = (online s)(username \<mapsto> c)"
  proof
    fix name
    show "online ?t name = ((online s)(username \<mapsto> c)) name"
      using online_extend [OF inv(3), of ?t name] get [of name] get [of username]
      by (cases "name = username") (simp_all add: at online_def logged_in_player_def)
  qed
  moreover have "c \<in> set (m_Sessions s)"
    using inv(2) inv(6) [OF c] x by (auto simp: sessions_ok_def session_ok_def)
  moreover have "online s username = None" using assms(4) by (simp add: online_def)
  moreover have "c \<notin> ran (online s)"
  proof
    assume "c \<in> ran (online s)"
    then obtain name where "online s name = Some c" by (auto simp: ran_def)
    with online_iff [OF inv(3)] obtain p pl where "registered p s" "heap_at (players s) p = Some pl" "m_Client pl = c"
      by blast
    with registered_of [OF assms(1) c] inv(6) [OF c] x show False by (auto simp: session_ok_def)
  qed
  moreover have "card (dom (online s)) < 2048"
  proof -
    have "card (dom (online s)) \<le> card (fst ` set (m_Players s))"
      by (rule card_mono) (auto simp: online_def World_GetPlayer_def bind_eq_Some_conv dom_def dest: map_of_SomeD intro!: image_eqI)
    also have "\<dots> \<le> length (m_Players s)" by (metis card_length length_map list.set_map)
    also have "\<dots> < length (m_Players ?t)" by (simp add: full_login_def)
    also have "\<dots> \<le> 2048" using registry_size [OF assms(3)] by (simp add: MAX_PLAYERS_def)
    finally show ?thesis .
  qed
  moreover have "grow s ?t"
    using c x by (auto simp: grow_def at option.rel_refl entered_def
        intro: grows_enter appends_trans [OF appends_logging appends_sends [OF sends_emits]])
  moreover have "rests s ?t"
    by (auto simp: rests_def at still_def logged_in_player_def Player_new_def dest: heap_at_length)
  ultimately show ?thesis by (simp add: effect_def abs_server_def at)
qed

end
