(* ===== verification/StreamBuffer_Reads.thy ===== *)
theory StreamBuffer_Reads
  imports StreamBuffer_Codec
begin

text \<open>
  The reading functions of \<open>StreamBuffer\<close> on arbitrary data: their only effect on the buffer is a larger
  position, and the only fault is a read past the end.
\<close>

definition reads :: "StreamBuffer \<Rightarrow> StreamBuffer \<Rightarrow> bool" where
  "reads b b' \<longleftrightarrow> m_Buffer b' = m_Buffer b \<and> m_Pos b \<le> m_Pos b'"

lemma reads_trans: "reads a b \<Longrightarrow> reads b c \<Longrightarrow> reads a c"
  by (simp add: reads_def)

lemma reads_refl [simp]: "reads b b"
  by (simp add: reads_def)

lemma reads_length: "reads b b' \<Longrightarrow> length (m_Buffer b') = length (m_Buffer b)"
  by (simp add: reads_def)

abbreviation only_reads :: "StreamBuffer \<Rightarrow> fault + 'v \<times> StreamBuffer \<Rightarrow> bool" where
  "only_reads b \<equiv> outcome {OutOfBounds} (\<lambda>(v, b'). reads b b')"

lemma only_reads_bind:
  assumes "only_reads b m" "\<And>v b'. only_reads b' (k v b')"
  shows "only_reads b (bindR m (\<lambda>(v, b'). k v b'))"
proof (rule outcome_bind [OF assms(1)], simp)
  fix r :: "'a \<times> StreamBuffer" assume "case r of (v, b') \<Rightarrow> reads b b'"
  then have "reads b (snd r)" by (simp add: split_beta)
  then have "only_reads b (k (fst r) (snd r))"
    by (intro outcome_mono [OF assms(2)]) (auto intro: reads_trans)
  then show "only_reads b (case r of (v, b') \<Rightarrow> k v b')" by (simp add: split_beta)
qed

lemma ReadByte_only: "only_reads b (ReadByte isSigned type b)"
  by (simp add: ReadByte_def reads_def Let_def)

lemma ReadShort_only: "order \<in> {BIG, LITTLE} \<Longrightarrow> only_reads b (ReadShort isSigned type order b)"
  by (auto simp: ReadShort_def intro!: only_reads_bind ReadByte_only)

lemma ReadInt_only: "only_reads b (ReadInt isSigned type order b)"
  by (cases order) (auto simp: ReadInt_def intro!: only_reads_bind ReadByte_only)

lemma or_byte_only: "reads b (snd s) \<Longrightarrow> only_reads b (or_byte type n s)"
  unfolding or_byte_def
  by (rule outcome_bind [OF ReadByte_only]) (auto intro: reads_trans)

lemma ReadLong_only: "order \<in> {BIG, LITTLE} \<Longrightarrow> only_reads b (ReadLong type order b)"
proof -
  have step: "only_reads b (or_byte t n s)" if "case s of (v, b') \<Rightarrow> reads b b'" for t n s
    using that by (intro or_byte_only) (simp add: split_beta)
  assume "order \<in> {BIG, LITTLE}"
  then show ?thesis by (auto simp: ReadLong_def simp del: foldR.simps intro!: outcome_foldR step)
qed

lemma read_n_only: "(\<And>b. only_reads b (rd b)) \<Longrightarrow> only_reads b (read_n rd n b)"
  by (induction n arbitrary: b) (auto intro!: only_reads_bind)

lemma ReadString_only: "length (m_Buffer b) \<le> 1024 \<Longrightarrow> only_reads b (ReadString b)"
proof -
  assume "length (m_Buffer b) \<le> 1024"
  moreover have "length (takeWhile (\<lambda>x. x \<noteq> 10) (unread b)) \<le> length (m_Buffer b)"
    using length_takeWhile_le [of "\<lambda>x. x \<noteq> 10" "unread b"] by (simp add: unread_def)
  ultimately show ?thesis
    by (simp add: ReadString_spec read_string_spec_def Let_def maxLength_def reads_def)
qed

text \<open>A read from the buffer \<open>b\<close>, which was read from \<open>b0\<close>, as a step of a handler.\<close>

lemma outcome_read:
  assumes "reads b0 b" "only_reads b m" "\<And>v b'. reads b0 b' \<Longrightarrow> outcome (insert OutOfBounds F) Q (k v b')"
  shows "outcome (insert OutOfBounds F) Q (bindR m (\<lambda>(v, b'). k v b'))"
  by (rule outcome_bind [OF assms(2)]) (auto intro: assms(3) reads_trans [OF assms(1)])

end
