(* ===== verification/Login.thy ===== *)
theory Login
  imports LoginHandler StreamBuffer_Reads
begin

text \<open>
  The second stage of the login on arbitrary input, and on a login block with the layout the client sends.
\<close>

section \<open>Any input\<close>

lemma logging_in_ciphers:
  assumes "inv_during h s" "heap_at (clients s) c = Some x" "m_Stage x = LOGGING_IN"
  shows "inv_during h (put_client c (set_ciphers clientHalf serverHalf x) s)"
    "logging_in c (set_ciphers clientHalf serverHalf x) (put_client c (set_ciphers clientHalf serverHalf x) s)"
proof -
  let ?y = "set_ciphers clientHalf serverHalf x"
  have "io_ok h c ?y" "same_session x ?y"
    using io_ok_cong [OF sys_invD(5) [OF assms(1,2)], of ?y]
    by (simp_all add: set_ciphers_def SetEncryptor_def SetDecryptor_def Let_def same_session_def)
  then show "inv_during h (put_client c ?y s)" by (intro sys_inv_client [OF assms(1,2)])
  show "logging_in c ?y (put_client c ?y s)"
    using assms(2,3) by (simp add: logging_in_def at_put_client set_ciphers_def SetEncryptor_def
        SetDecryptor_def Let_def)
qed

lemma finish_login_inv:
  assumes "inv_during (Some c) s" "logging_in c x s"
  obtains t where "finish_login username c s = Inr t" "inv_during (Some c) t" "effect_of c s t"
proof (cases "World_GetPlayer username s")
  case None
  have x: "heap_at (clients s) c = Some x" "m_Stage x = LOGGING_IN" "m_Encryptor x \<noteq> None"
    using assms(2) by (simp_all add: logging_in_def)
  from assms(1) x None show ?thesis
  proof (cases rule: finish_login_cases)
    case full
    with inv_ghost_login [OF assms] quiet_of [OF quiet_ghost_login [OF assms]] that show ?thesis by blast
  next
    case (slot i)
    have "effect_of c s (full_login username i c x s)"
      using effect_full_login [OF assms slot(4) None] by (auto simp: effect_of_def)
    with slot inv_full_login [OF assms] that show ?thesis by blast
  qed
next
  case (Some p)
  have x: "heap_at (clients s) c = Some x" "m_Stage x = LOGGING_IN" using assms(2) by (simp_all add: logging_in_def)
  let ?y = "x\<lparr>m_ClientUsername := username\<rparr>"
  let ?s = "put_client c ?y s"
  have inv: "inv_during (Some c) ?s" using inv_set_username(1) [OF assms(1) x] .
  have at: "heap_at (clients ?s) c = Some ?y" using x(1) by (simp add: at_put_client)
  let ?z = "RequestDisconnect (answered username [5] x)"
  have "io_ok (Some c) c (answered username [5] x)" by (rule io_ok_answered [OF sys_invD(5) [OF assms(1) x(1)]])
  then have "io_ok (Some c) c ?z" unfolding RequestDisconnect_def by (rule io_ok_request)
  moreover have "same_session ?y ?z" by (simp add: same_session_def RequestDisconnect_def answered_def)
  ultimately have "inv_during (Some c) (put_client c ?z ?s)" by (intro sys_inv_client [OF inv at])
  moreover have "effect_of c s (put_client c ?z s)"
    using x(2) by (intro quiet_of quiet_put_client [OF x(1)] grows_enter appends_strand)
      (simp_all add: RequestDisconnect_def answered_def entered_def)
  ultimately show ?thesis using Some finish_login_eq [OF assms(1) x, of username] that by simp
qed

section \<open>The second stage on any input\<close>

lemma read_login_block_only: "only_reads b (read_login_block b)"
  unfolding read_login_block_def Let_def
  by (auto intro!: only_reads_bind outcome_if ReadByte_only ReadShort_only read_n_only ReadInt_only ReadLong_only)

text \<open>It ends in a state that satisfies the invariant, or it reads past the end of the input.\<close>

lemma HandleLoggingInStage_inv:
  assumes "inv_during (Some c) s" "heap_at (clients s) c = Some x" "m_Stage x = LOGGING_IN"
    and "length (m_Buffer b) \<le> 1024"
  shows "outcome {OutOfBounds} (\<lambda>(b', t). inv_during (Some c) t \<and> effect_of c s t) (HandleLoggingInStage b c s)"
proof -
  let ?Q = "\<lambda>(b', t). inv_during (Some c) t \<and> effect_of c s t"
  have rej: "outcome {OutOfBounds} ?Q (reject b0 c s)" for b0
  proof -
    obtain t where "reject b0 c s = Inr (b0, t)" "inv_during (Some c) t" "effect_of c s t" using reject_ok [OF assms(1,2)] .
    then show ?thesis by simp
  qed
  have finish: "outcome {OutOfBounds} ?Q
      (bindR (finish_login username c (put_client c (set_ciphers ch sh x) s)) (\<lambda>s. Inr (b', s)))" for username ch sh b'
  proof -
    let ?s = "put_client c (set_ciphers ch sh x) s"
    obtain t where t: "finish_login username c ?s = Inr t" "inv_during (Some c) t" "effect_of c ?s t"
      using finish_login_inv [OF logging_in_ciphers [OF assms(1-3)]] .
    have "quiet s ?s"
      using assms(3) by (intro quiet_put_client [OF assms(2)] grows_enter appends_strand)
        (simp_all add: set_ciphers_def SetEncryptor_def SetDecryptor_def Let_def entered_def)
    with t show ?thesis by (simp add: quiet_effect_of)
  qed
  have string: "only_reads b1 (ReadString b1)" if "reads b b1" for b1
    using that assms(4) by (intro ReadString_only) (simp add: reads_length)
  have login: "outcome {OutOfBounds} ?Q (bindR (on_client c (\<lambda>x. Inr (set_ciphers ch sh x)) s) (\<lambda>s.
      bindR (ReadInt True VT_STANDARD BIG b1) (\<lambda>(_, b2).
      bindR (ReadString b2) (\<lambda>(username, b3). bindR (ReadString b3) (\<lambda>(password, b4).
      bindR (finish_login username c s) (\<lambda>s. Inr (b4, s)))))))" if "reads b b1" for ch sh b1
    unfolding on_client_eq [OF assms(2)] bindR.simps
    by (rule outcome_read [OF that ReadInt_only], rule outcome_read [of b], assumption, erule string,
        rule outcome_read [of b], assumption, erule string, rule finish)
  have block: "outcome {OutOfBounds} ?Q (case halves of None \<Rightarrow> reject b1 c s
    | Some (ch, sh) \<Rightarrow> bindR (on_client c (\<lambda>x. Inr (set_ciphers ch sh x)) s) (\<lambda>s.
        bindR (ReadInt True VT_STANDARD BIG b1) (\<lambda>(_, b2).
        bindR (ReadString b2) (\<lambda>(username, b3). bindR (ReadString b3) (\<lambda>(password, b4).
        bindR (finish_login username c s) (\<lambda>s. Inr (b4, s)))))))" if "reads b b1" for halves b1
    using rej login [OF that] by (cases halves) auto
  show ?thesis
    unfolding HandleLoggingInStage_def Let_def
    by (intro outcome_if rej, rule outcome_read [OF reads_refl ReadByte_only], intro outcome_if rej,
        rule outcome_read [of b], assumption, rule ReadByte_only, intro outcome_if rej,
        rule outcome_read [of b], assumption, rule read_login_block_only, rule block)
qed

section \<open>A login block\<close>

text \<open>
  The block a client sends after its length: the magic number, the version, the memory flag, nine
  checksums, the length and the opcode of the secure block, the halves of the session key, the user id,
  the name and the password.
\<close>

definition login_block :: "i8 \<Rightarrow> i8 \<Rightarrow> i32 list \<Rightarrow> i8 \<Rightarrow> i64 \<Rightarrow> i64 \<Rightarrow> i32 \<Rightarrow> string \<Rightarrow> string \<Rightarrow> i8 list" where
  "login_block magic mem sums rsaLength clientHalf serverHalf uid username password =
     magic # enc_short VT_STANDARD BIG 317 @ mem # concat (map (enc_int VT_STANDARD BIG) sums) @ rsaLength # 10 #
     enc_long VT_STANDARD BIG clientHalf @ enc_long VT_STANDARD BIG serverHalf @
     enc_int VT_STANDARD BIG uid @ enc_string username @ enc_string password"

lemma length_ints: "length (concat (map (enc_int type order) vs)) = 4 * length vs"
  by (induction vs) (simp_all add: length_enc)

lemma read_login_block_eq:
  assumes "unread b = magic # enc_short VT_STANDARD BIG 317 @ mem # concat (map (enc_int VT_STANDARD BIG) sums) @
      rsaLength # 10 # enc_long VT_STANDARD BIG clientHalf @ enc_long VT_STANDARD BIG serverHalf @ rest"
    and "length sums = 9"
  shows "read_login_block b = Inr (Some (clientHalf, serverHalf), advance 58 b)"
proof -
  let ?ints = "concat (map (enc_int VT_STANDARD BIG) sums)"
  have r1: "ReadByte True VT_STANDARD b = Inr (scast magic, advance (Suc 0) b)"
    using ReadByte_signed [OF assms(1)] by simp
  have r2: "ReadShort True VT_STANDARD BIG (advance (Suc 0) b) = Inr (317, advance 3 b)"
    by (subst ReadShort_eq [where v = 317]) (use assms(1) in \<open>simp_all add: numeral_3_eq_3\<close>)
  have r3: "ReadByte True VT_STANDARD (advance 3 b) = Inr (scast mem, advance 4 b)"
    by (subst ReadByte_signed [where v = mem]) (use assms(1) in \<open>simp_all add: length_enc\<close>)
  have r4: "read_n (ReadInt True VT_STANDARD BIG) 9 (advance 4 b) = Inr (sums, advance 40 b)"
    using int_cd.rd_list [where vs = sums and b = "advance 4 b" and type = VT_STANDARD and order = BIG and s = True and
      rest = "rsaLength # 10 # enc_long VT_STANDARD BIG clientHalf @ enc_long VT_STANDARD BIG serverHalf @ rest"] assms
    by (simp add: length_enc length_ints)
  have r5: "ReadByte True VT_STANDARD (advance 40 b) = Inr (scast rsaLength, advance 41 b)"
    "ReadByte True VT_STANDARD (advance 41 b) = Inr (scast (10 :: i8), advance 42 b)"
    by (subst ReadByte_signed [where v = rsaLength], use assms in \<open>simp_all add: length_enc length_ints\<close>)
      (subst ReadByte_signed [where v = 10], use assms in \<open>simp_all add: length_enc length_ints\<close>)
  have r6: "ReadLong VT_STANDARD BIG (advance 42 b) = Inr (clientHalf, advance 50 b)"
    "ReadLong VT_STANDARD BIG (advance 50 b) = Inr (serverHalf, advance 58 b)"
    by (subst ReadLong_eq [where v = clientHalf], use assms in \<open>simp_all add: length_enc length_ints\<close>)
      (subst ReadLong_eq [where v = serverHalf], use assms in \<open>simp_all add: length_enc length_ints\<close>)
  show ?thesis
    by (simp add: read_login_block_def r1 r2 r3 r4 r5 r6 ucast8_scast Let_def)
qed

lemma HandleLoggingInStage_block:
  assumes "unread b = loginType # blockLength #
      login_block magic mem sums rsaLength clientHalf serverHalf uid username password @ rest"
    and "loginType \<in> {16, 18}" "length sums = 9" "string_fits username" "string_fits password"
    and "unat blockLength \<le> length (unread b) - 2" "heap_at (clients s) c = Some x"
  shows "HandleLoggingInStage b c s =
    bindR (finish_login username c (put_client c (set_ciphers clientHalf serverHalf x) s))
      (\<lambda>s. Inr (advance (66 + length username + length password) b, s))"
proof -
  have big: "2 \<le> length (unread b)" using assms(1) by simp
  then have rem: "Remaining b = int (length (unread b))" "Remaining (advance 2 b) = int (length (unread b) - 2)"
    by (simp_all add: Remaining_def unread_def of_nat_diff)
  have fits: "\<not> int (length (unread b) - 2) < uint blockLength"
  proof -
    have "int (unat blockLength) \<le> int (length (unread b) - 2)" using assms(6) by (simp only: of_nat_le_iff)
    then show ?thesis by (simp only: of_nat_unat not_less)
  qed
  have r1: "ReadByte True VT_STANDARD b = Inr (scast loginType, advance (Suc 0) b)"
    using ReadByte_signed [OF assms(1)] by simp
  have r2: "ReadByte True VT_STANDARD (advance (Suc 0) b) = Inr (scast blockLength, advance 2 b)"
    by (subst ReadByte_signed [where v = blockLength]) (use assms(1) in \<open>simp_all add: numeral_2_eq_2\<close>)
  have r3: "read_login_block (advance 2 b) = Inr (Some (clientHalf, serverHalf), advance 60 b)"
    by (subst read_login_block_eq [where magic = magic and mem = mem and sums = sums and rsaLength = rsaLength
          and clientHalf = clientHalf and serverHalf = serverHalf])
      (use assms(1,3) in \<open>simp_all add: login_block_def\<close>)
  have at60: "unread (advance 60 b) = enc_int VT_STANDARD BIG uid @ enc_string username @ enc_string password @ rest"
    using assms(1,3) by (simp add: login_block_def length_ints)
  have r4: "ReadInt True VT_STANDARD BIG (advance 60 b) = Inr (uid, advance 64 b)"
    using ReadInt_eq [OF at60] by simp
  have at64: "unread (advance 64 b) = enc_string username @ enc_string password @ rest"
    using at60 unread_advance [of 4 "advance 60 b"] by simp
  have r5: "ReadString (advance 64 b) = Inr (username, advance (65 + length username) b)"
    using ReadString_eq [OF assms(4) at64] by simp
  have at: "unread (advance (65 + length username) b) = enc_string password @ rest"
    using at64 unread_advance [of "length (enc_string username)" "advance 64 b"] by simp
  have r6: "ReadString (advance (65 + length username) b) =
      Inr (password, advance (66 + length username + length password) b)"
    using ReadString_eq [OF assms(5) at] by (simp add: add.commute add.left_commute)
  show ?thesis
    using assms(2,7) big fits
    by (auto simp: HandleLoggingInStage_def Let_def rem r1 r2 r3 r4 r5 r6 ucast8_scast on_client_eq)
qed

lemma unread_login_block:
  assumes "unread b = loginType # blockLength #
      login_block magic mem sums rsaLength clientHalf serverHalf uid username password @ rest"
    and "length sums = 9"
  shows "unread (advance (66 + length username + length password) b) = rest"
proof -
  let ?block = "loginType # blockLength # login_block magic mem sums rsaLength clientHalf serverHalf uid username password"
  have len: "66 + length username + length password = length ?block"
    using assms(2) by (simp add: login_block_def length_ints)
  have "unread b = ?block @ rest" using assms(1) by simp
  then show ?thesis unfolding unread_advance len by (metis append_eq_conv_conj)
qed

lemma login_packets_emitted:
  assumes "m_Encryptor x = Some e"
  obtains packets e' where
    "emits (login_packets q) x = x\<lparr>m_Encryptor := Some e', m_Strand := m_Strand x @ map SendTask packets\<rparr>"
    "map_state dec_packet packets e = (login_packets q, e')"
proof -
  obtain packets e' where enc: "map_state enc_packet (login_packets q) e = (packets, e')" by fastforce
  have "map (\<lambda>(op, body). (op AND 0xFF, body)) (login_packets q) = login_packets q"
    by (simp add: login_packets_def sidebars_def)
  then show ?thesis
    using chan.in_step [OF enc] emits_eq [OF assms, of "login_packets q"] enc by (intro that) simp_all
qed

section \<open>The outcome of a login block\<close>

lemma login_result:
  assumes "inv_during (Some c) s" "heap_at (clients s) c = Some x" "m_Stage x = LOGGING_IN"
    and "unread b = loginType # blockLength #
      login_block magic mem sums rsaLength clientHalf serverHalf uid username password @ rest"
    and "loginType \<in> {16, 18}" "length sums = 9" "string_fits username" "string_fits password"
    and "unat blockLength \<le> length (unread b) - 2"
  shows "\<exists>b' t y. HandleLoggingInStage b c s = Inr (b', t) \<and> unread b' = rest \<and> inv_during (Some c) t \<and>
    heap_at (clients t) c = Some y \<and> m_ClientUsername y = username \<and>
    sent y = sent x \<and> m_WriteQueue y = m_WriteQueue x \<and> write_op y = write_op x \<and>
    (case World_GetPlayer username s of
       Some _ \<Rightarrow> m_Stage y = LOGGING_IN \<and> m_Strand y = m_Strand x @ [SendTask [5], RequestDisconnectTask] \<and>
         t = put_client c y s
     | None \<Rightarrow>
         m_Stage y = LOGGED_IN \<and>
         (if used_indices (m_OccupiedIndices s) = {..<2048}
          then m_Strand y = m_Strand x @ [SendTask [2, 0, 0]] \<and> GetPlayer y t = None \<and> m_Players t = m_Players s
          else \<exists>i p packets e'. {..<i} \<subseteq> used_indices (m_OccupiedIndices s) \<and> i \<notin> used_indices (m_OccupiedIndices s) \<and>
            GetPlayer y t = Some p \<and> m_Players t = m_Players s @ [(username, p)] \<and> index_of t p = i \<and>
            m_Strand y = m_Strand x @ SendTask [2, 0, 0] # map SendTask packets \<and> m_Encryptor y = Some e' \<and>
            heap_at (players t) p = Some (logged_in_player ((Player_new username c)\<lparr>m_Index := word_of_nat i\<rparr>)) \<and>
            (let seed = seed_of clientHalf serverHalf
             in map_state dec_packet packets
                  (ISAACCipher_new (seed ! 0 + 50) (seed ! 1 + 50) (seed ! 2 + 50) (seed ! 3 + 50)) =
                (login_packets (Position_new 3200 3200), e'))))"
proof -
  let ?x = "set_ciphers clientHalf serverHalf x" and ?seed = "seed_of clientHalf serverHalf"
  let ?s = "put_client c ?x s" and ?b = "advance (66 + length username + length password) b"
  let ?e = "ISAACCipher_new (?seed ! 0 + 50) (?seed ! 1 + 50) (?seed ! 2 + 50) (?seed ! 3 + 50)"
  note run = HandleLoggingInStage_block [OF assms(4-9,2)]
  note log = logging_in_ciphers [OF assms(1-3), of clientHalf serverHalf]
  have x: "heap_at (clients ?s) c = Some ?x" "m_Stage ?x = LOGGING_IN" "m_Encryptor ?x = Some ?e"
    "m_Strand ?x = m_Strand x" "sent ?x = sent x" "m_WriteQueue ?x = m_WriteQueue x" "write_op ?x = write_op x"
    using log(2) by (simp_all add: logging_in_def set_ciphers_def SetEncryptor_def SetDecryptor_def Let_def)
  have rest: "unread ?b = rest" by (rule unread_login_block [OF assms(4,6)])
  obtain t where t: "finish_login username c ?s = Inr t" "inv_during (Some c) t"
    using finish_login_inv [OF log] .
  have get: "World_GetPlayer username ?s = World_GetPlayer username s" by (simp add: World_GetPlayer_def)
  show ?thesis
  proof (cases "World_GetPlayer username s")
    case (Some q)
    then have "t = put_client c (RequestDisconnect (answered username [5] ?x)) s"
      using t(1) finish_login_eq [OF log(1) x(1,2), of username] get by simp
    with Some t run rest x(2,4-7) assms(2) show ?thesis
      by (intro exI [of _ ?b] exI [of _ t] exI [of _ "RequestDisconnect (answered username [5] ?x)"])
        (simp add: RequestDisconnect_def answered_def at_put_client)
  next
    case None
    have enc: "m_Encryptor ?x \<noteq> None" using x(3) by simp
    from log(1) x(1,2) enc get [unfolded None] show ?thesis
    proof (cases rule: finish_login_cases)
      case full
      with t(1) have "t = ghost_login username c ?x ?s" by simp
      with None t run rest x(4-7) full(2) assms(2) show ?thesis
        by (intro exI [of _ ?b] exI [of _ t] exI [of _ "logging_client username (length (players s)) ?x"])
          (simp add: ghost_login_def at_put_client MAX_PLAYERS_def GetPlayer_def logging_client_def answered_def)
    next
      case (slot i)
      let ?y = "logging_client username (length (players s)) ?x" and ?q = "Position_new 3200 3200"
      have tt: "t = full_login username i c ?x ?s" using slot t(1) by simp
      have ok: "bitset_ok (m_OccupiedIndices s)"
        using sys_invD(3) [OF assms(1)] by (simp add: registry_wf_def)
      have "m_Encryptor ?y = Some ?e" using x(3) by simp
      then obtain packets e' where p: "emits (login_packets ?q) ?y =
          ?y\<lparr>m_Encryptor := Some e', m_Strand := m_Strand ?y @ map SendTask packets\<rparr>"
        "map_state dec_packet packets ?e = (login_packets ?q, e')"
        by (rule login_packets_emitted)
      have at: "heap_at (clients t) c = Some (emits (login_packets ?q) ?y)"
        "m_Players t = m_Players s @ [(username, length (players s))]"
        "heap_at (players t) (length (players s)) = Some (logged_in_player ((Player_new username c)\<lparr>m_Index := word_of_nat i\<rparr>))"
        "index_of t (length (players s)) = i"
        using full_login_at [OF x(1), where username = username and i = i] index_word [OF slot(3)]
        by (simp_all add: tt full_login_def index_of_def logged_in_player_def)
      have "used_indices (m_OccupiedIndices s) \<noteq> {..<2048}" "{..<i} \<subseteq> used_indices (m_OccupiedIndices s)"
        "i \<notin> used_indices (m_OccupiedIndices s)"
        using slots.alloc_some [OF ok, of i "(m_OccupiedIndices s)[i := True]"] slot(2,3)
        by (auto simp: MAX_PLAYERS_def)
      with None t(2) run slot(1) rest x(4-7) p at show ?thesis
        by (intro exI [of _ ?b] exI [of _ t] exI [of _ "emits (login_packets ?q) ?y"])
          (auto simp: tt [symmetric] GetPlayer_def Let_def logging_client_def answered_def)
    qed
  qed
qed

section \<open>Properties\<close>

text \<open>
  C15: a login block is accepted or refused as the world requires. In any state that satisfies the
  invariant of the server, a well-formed login block (either type, any checksums and user id) is read to its
  end, never faults, and keeps the invariant. If the name is online, the only bytes posted are the
  response 5, followed by a request to disconnect, and the world is unchanged. The write queue is left alone. If all 2048 indices are taken, the
  client gets the response 2 and is logged in, but its player is gone. Otherwise the name is registered to a new
  player of this client, at the lowest free index; the posted bytes are the response 2 with two zero bytes and the
  packets of a login, which a peer decodes whose cipher has the seed of the session key plus 50; then both ciphers
  are in the same state, and the player stands at (3200, 3200) with all update flags set and no local players.
  This contradicts the comment at the last call of the function, that registering the player crashes: without an
  overlapping step of the game thread, it does not.
\<close>

theorem login_outcome:
  assumes "inv_during (Some c) s" "heap_at (clients s) c = Some x" "m_Stage x = LOGGING_IN"
    and "unread b = loginType # blockLength #
      login_block magic mem sums rsaLength clientHalf serverHalf uid username password @ rest"
    and "loginType \<in> {16, 18}" "length sums = 9" "string_fits username" "string_fits password"
    and "unat blockLength \<le> length (unread b) - 2"
  shows "\<exists>b' t y. HandleLoggingInStage b c s = Inr (b', t) \<and> unread b' = rest \<and> inv_during (Some c) t \<and>
    heap_at (clients t) c = Some y \<and> m_ClientUsername y = username \<and>
    sent y = sent x \<and> m_WriteQueue y = m_WriteQueue x \<and> write_op y = write_op x \<and>
    (case World_GetPlayer username s of
       Some _ \<Rightarrow> m_Stage y = LOGGING_IN \<and> m_Strand y = m_Strand x @ [SendTask [5], RequestDisconnectTask] \<and>
         t = put_client c y s
     | None \<Rightarrow>
         m_Stage y = LOGGED_IN \<and>
         (if used_indices (m_OccupiedIndices s) = {..<2048}
          then m_Strand y = m_Strand x @ [SendTask [2, 0, 0]] \<and> GetPlayer y t = None \<and> m_Players t = m_Players s
          else \<exists>i p packets e'. {..<i} \<subseteq> used_indices (m_OccupiedIndices s) \<and> i \<notin> used_indices (m_OccupiedIndices s) \<and>
            GetPlayer y t = Some p \<and> m_Players t = m_Players s @ [(username, p)] \<and> index_of t p = i \<and>
            m_Strand y = m_Strand x @ SendTask [2, 0, 0] # map SendTask packets \<and> m_Encryptor y = Some e' \<and>
            heap_at (players t) p = Some (logged_in_player ((Player_new username c)\<lparr>m_Index := word_of_nat i\<rparr>)) \<and>
            (let seed = seed_of clientHalf serverHalf
             in map_state dec_packet packets
                  (ISAACCipher_new (seed ! 0 + 50) (seed ! 1 + 50) (seed ! 2 + 50) (seed ! 3 + 50)) =
                (login_packets (Position_new 3200 3200), e'))))"
  by (rule login_result [OF assms])

text \<open>A server with one client, in the middle of its login.\<close>

definition login_client :: Client where
  "login_client = Client_new\<lparr>m_OnDisconnect := Some 0, m_Stage := LOGGING_IN\<rparr>"

definition login_server :: System where
  "login_server =
     \<lparr>players = [], clients = [Some login_client], m_Players = [], m_OccupiedIndices = replicate 2048 False,
      m_Sessions = [0], m_Running = True, playerList = []\<rparr>"

lemma login_server_inv: "inv_during (Some 0) login_server"
proof -
  have at: "heap_at (clients login_server) c = (if c = 0 then Some login_client else None)" for c
    by (simp add: login_server_def heap_at_def)
  have "world_ok login_server"
    by (simp add: world_ok_def registry_wf_def bitset_ok_def used_none login_server_def MAX_PLAYERS_def refs_ok_def rooted_def
        registered_def heap_at_def)
  then show ?thesis
    unfolding inv_during_def sessions_ok_def at
    by (auto simp: login_server_def login_client_def Client_new_def io_ok_def write_wf_def strand_ok_def session_ok_def
        registered_def)
qed

theorem login_outcome_witness:
  "\<exists>b' t y. HandleLoggingInStage
      (StreamBuffer_data ([16, 69] @ login_block 255 0 (replicate 9 0) 0 1 2 0 ''bob'' ''pw'')) 0 login_server = Inr (b', t) \<and>
    heap_at (clients t) 0 = Some y \<and> m_Stage y = LOGGED_IN \<and> m_ClientUsername y = ''bob'' \<and>
    (\<exists>p. m_Players t = [(''bob'', p)])"
proof -
  let ?block = "login_block 255 0 (replicate 9 0) 0 1 2 0 ''bob'' ''pw''"
  let ?b = "StreamBuffer_data ([16, 69] @ ?block)"
  have at: "heap_at (clients login_server) 0 = Some login_client" "m_Stage login_client = LOGGING_IN"
    by (simp_all add: login_server_def heap_at_def login_client_def)
  have b: "unread ?b = 16 # 69 # ?block @ []" by simp
  have sums: "length (replicate 9 (0 :: i32)) = 9" by simp
  have "string_fits ''bob''" "string_fits ''pw''" by code_simp+
  moreover have "unat (69 :: i8) \<le> length (unread ?b) - 2" by code_simp
  moreover have "(16 :: i8) \<in> {16, 18}" by simp
  moreover have "World_GetPlayer ''bob'' login_server = None" "m_Players login_server = []"
    "used_indices (m_OccupiedIndices login_server) = {}"
    by (simp_all add: World_GetPlayer_def login_server_def used_none)
  moreover have "{} \<noteq> {..<2048 :: nat}" by (metis lessThan_iff empty_iff zero_less_numeral)
  ultimately show ?thesis
    using login_outcome [OF login_server_inv at b _ sums] by (auto split: if_splits)
qed

end
