(* ===== verification/Client_Input.thy ===== *)
theory Client_Input
  imports Login "HOL-Library.Signed_Division"
begin

text \<open>
  What a client does with received data: \<open>Client::HandlePacket\<close> and \<open>Client::HandleIncomingData\<close> of
  \<open>src/src/Client.cpp\<close>, with the table of \<open>src/src/Packet.h\<close>. The loop over the packets of a chunk may run
  forever, so it is a \<open>partial_function\<close>: its value is \<open>None\<close> exactly when the code does not return. \<open>now\<close> is the
  value of \<open>steady_clock::now()\<close> in nanoseconds.
\<close>

section \<open>Definitions\<close>

definition PacketLengths :: "int list" where
  "PacketLengths =
    [0, 0, 0, 1, -1, 0, 0, 0, 0, 0, 0, 0, 0, 0, 8, 0, 6, 2, 2, 0,
     0, 2, 0, 6, 0, 12, 0, 0, 0, 0, 0, 0, 0, 0, 0, 8, 4, 0, 0, 2,
     2, 6, 0, 6, 0, -1, 0, 0, 0, 0, 0, 0, 0, 12, 0, 0, 0, 0, 8, 0,
     0, 8, 0, 0, 0, 0, 0, 0, 0, 0, 6, 0, 2, 2, 8, 6, 0, -1, 0, 6,
     0, 0, 0, 0, 0, 1, 4, 6, 0, 0, 0, 0, 0, 0, 0, 3, 0, 0, -1, 0,
     0, 13, 0, -1, 0, 0, 0, 0, 0, 0, 0, 0, 0, 0, 0, 0, 0, 6, 0, 0,
     1, 0, 6, 0, 0, 0, -1, 0, 2, 6, 0, 4, 6, 8, 0, 6, 0, 0, 0, 2,
     0, 0, 0, 0, 0, 6, 0, 0, 0, 0, 0, 0, 1, 2, 0, 2, 6, 0, 0, 0,
     0, 0, 0, 0, -1, -1, 0, 0, 0, 0, 0, 0, 0, 0, 0, 0, 0, 0, 0, 0,
     0, 8, 0, 3, 0, 2, 0, 0, 8, 1, 0, 0, 12, 0, 0, 0, 0, 0, 0, 0,
     2, 0, 0, 0, 0, 0, 0, 0, 4, 0, 4, 0, 0, 0, 7, 8, 0, 0, 10, 0,
     0, 0, 0, 0, 0, 0, -1, 0, 6, 0, 1, 0, 0, 0, 6, 0, 6, 8, 1, 0,
     0, 4, 0, 0, 0, 0, -1, 0, -1, 4, 0, 0, 6, 6, 0, 0]"

definition MAX_PACKETS_PER_SECOND :: u32 where
  "MAX_PACKETS_PER_SECOND = 100"

text \<open>\<open>GetPlayer()->f\<close>\<close>

definition on_locked :: "ref \<Rightarrow> (Player \<Rightarrow> fault + Player) \<Rightarrow> System \<Rightarrow> fault + System" where
  "on_locked c f s =
     bindR (deref (clients s) c) (\<lambda>x.
       case GetPlayer x s of None \<Rightarrow> Inl NullPointer | Some p \<Rightarrow> on_player p f s)"

definition ReadStep :: "StreamBuffer \<Rightarrow> fault + (i32 \<times> i32) \<times> StreamBuffer" where
  "ReadStep inStream =
     bindR (ReadByte0 inStream) (\<lambda>(dx, inStream).
     bindR (ReadByte0 inStream) (\<lambda>(dy, inStream). Inr ((dx, dy), inStream)))"

text \<open>The \<open>case\<close> of the three movement packets; a negative size is converted to a huge \<open>size_t\<close>.\<close>

definition HandleMovement :: "ref \<Rightarrow> i32 \<Rightarrow> int \<Rightarrow> StreamBuffer \<Rightarrow> System \<Rightarrow> fault + StreamBuffer \<times> System" where
  "HandleMovement c packetOpcode packetLength inStream s =
     (let length = (if packetOpcode = 248 then packetLength - 14 else packetLength);
          steps = (length - 5) sdiv 2
      in if steps < 0 then Inl LengthError
         else
           bindR (ReadShortTO VT_A LITTLE inStream) (\<lambda>(firstStepX, inStream).
           bindR (read_n ReadStep (nat steps) inStream) (\<lambda>(path, inStream).
           bindR (ReadShortO LITTLE inStream) (\<lambda>(firstStepY, inStream).
           bindR (on_locked c (\<lambda>pl. Inr (MovementHandler_Reset pl)) s) (\<lambda>s.
           bindR (ReadByteT VT_C inStream) (\<lambda>(run, inStream).
           bindR (on_locked c (\<lambda>pl. Inr (SetRunPath (run = 1) pl)) s) (\<lambda>s.
           bindR (on_locked c (AddToPath (Position_new firstStepX firstStepY)) s) (\<lambda>s.
           bindR (foldR (\<lambda>(dx, dy). on_locked c (AddToPath (Position_new (dx + firstStepX) (dy + firstStepY)))) path s) (\<lambda>s.
           bindR (on_locked c (\<lambda>pl. Inr (MovementHandler_Finish pl)) s) (\<lambda>s.
           Inr (inStream, s)))))))))))"

definition HandlePacket :: "ref \<Rightarrow> StreamBuffer \<Rightarrow> i32 \<Rightarrow> int \<Rightarrow> System \<Rightarrow> fault + StreamBuffer \<times> System" where
  "HandlePacket c inStream packetOpcode packetLength s =
     (let positionBefore = int (StreamBuffer_Position inStream)
      in bindR (if packetOpcode = 248 \<or> packetOpcode = 164 \<or> packetOpcode = 98
                then HandleMovement c packetOpcode packetLength inStream s
                else Inr (inStream, s)) (\<lambda>(inStream, s).
         let read = int (StreamBuffer_Position inStream) - positionBefore
         in bindR (read_n ReadByte0 (nat (packetLength - read)) inStream) (\<lambda>(_, inStream).
            Inr (inStream, s))))"

text \<open>
  One iteration of the loop of \<open>HandleIncomingData\<close>, with the values of \<open>packetOpcode\<close> and \<open>packetLength\<close>
  (both -1 while not yet decoded): it ends the loop, or goes on with new values.
\<close>

datatype iteration =
    Break StreamBuffer System
  | Continue i32 int StreamBuffer System

definition decode_packet_opcode ::
  "ref \<Rightarrow> i32 \<Rightarrow> StreamBuffer \<Rightarrow> System \<Rightarrow> fault + i32 \<times> StreamBuffer \<times> System" where
  "decode_packet_opcode c packetOpcode inStream s =
     (if packetOpcode = -1
      then
        bindR (ReadByte0 inStream) (\<lambda>(byte, inStream).
        bindR (deref (clients s) c) (\<lambda>x.
        bindR (deref_cipher (m_Decryptor x)) (\<lambda>d.
          let (packetOpcode, d) = decode_opcode byte d
          in Inr (packetOpcode, inStream, put_client c (x\<lparr>m_Decryptor := Some d\<rparr>) s))))
      else Inr (packetOpcode, inStream, s))"

text \<open>The length of the packet; \<open>None\<close> for the \<open>break\<close>.\<close>

definition decode_packet_length ::
  "i32 \<Rightarrow> int \<Rightarrow> StreamBuffer \<Rightarrow> fault + int option \<times> StreamBuffer" where
  "decode_packet_length packetOpcode packetLength inStream =
     (if packetLength = -1
      then
        let packetLength = PacketLengths ! unat packetOpcode
        in if packetLength = -1
           then if \<not> HasRemaining inStream then Inr (None, inStream)
                else bindR (ReadByte0 inStream) (\<lambda>(v, inStream).
                  Inr (Some (uint (v AND 0xFF)), inStream))
           else Inr (Some packetLength, inStream)
      else Inr (Some packetLength, inStream))"

definition input_iteration ::
  "u64 \<Rightarrow> ref \<Rightarrow> i32 \<Rightarrow> int \<Rightarrow> StreamBuffer \<Rightarrow> System \<Rightarrow> fault + iteration" where
  "input_iteration gen c packetOpcode packetLength inStream s =
     bindR (deref (clients s) c) (\<lambda>x.
       if GetNetworkStage x \<noteq> LOGGED_IN
       then bindR (LoginHandler_Process gen inStream c s) (\<lambda>(inStream, s). Inr (Break inStream s))
       else
         bindR (decode_packet_opcode c packetOpcode inStream s) (\<lambda>(packetOpcode, inStream, s).
         bindR (decode_packet_length packetOpcode packetLength inStream) (\<lambda>(packetLength, inStream).
         case packetLength of
           None \<Rightarrow> Inr (Break inStream s)
         | Some packetLength \<Rightarrow>
             if Remaining inStream \<ge> packetLength
             then bindR (HandlePacket c inStream packetOpcode packetLength s) (\<lambda>(inStream, s).
               Inr (Continue (-1) (-1) inStream s))
             else Inr (Continue packetOpcode packetLength inStream s))))"

partial_function (option) input_loop ::
  "u64 \<Rightarrow> ref \<Rightarrow> i32 \<Rightarrow> int \<Rightarrow> StreamBuffer \<Rightarrow> System \<Rightarrow> (fault + StreamBuffer \<times> System) option" where
  "input_loop gen c packetOpcode packetLength inStream s =
     (if \<not> HasRemaining inStream then Some (Inr (inStream, s))
      else case input_iteration gen c packetOpcode packetLength inStream s of
             Inl e \<Rightarrow> Some (Inl e)
           | Inr (Break inStream s) \<Rightarrow> Some (Inr (inStream, s))
           | Inr (Continue packetOpcode packetLength inStream s) \<Rightarrow>
               input_loop gen c packetOpcode packetLength inStream s)"

text \<open>The bookkeeping of the rate limit at the start of \<open>HandleIncomingData\<close>.\<close>

definition count_packet :: "int \<Rightarrow> Client \<Rightarrow> Client" where
  "count_packet now x =
     (let x = (if m_LastPacketSecond x = 0 then x\<lparr>m_LastPacketSecond := now, m_LastActivityTime := now\<rparr> else x);
          x = (if (now - m_LastPacketSecond x) div 1000000000 \<ge> 1
               then x\<lparr>m_PacketsThisSecond := 0, m_LastPacketSecond := now\<rparr> else x)
      in x\<lparr>m_PacketsThisSecond := m_PacketsThisSecond x + 1, m_LastActivityTime := now\<rparr>)"

definition HandleIncomingData ::
  "int \<Rightarrow> u64 \<Rightarrow> ref \<Rightarrow> StreamBuffer \<Rightarrow> System \<Rightarrow> (fault + System) option" where
  "HandleIncomingData now gen c inStream s =
     (case on_client c (\<lambda>x. Inr (count_packet now x)) s of
        Inl e \<Rightarrow> Some (Inl e)
      | Inr s \<Rightarrow>
          (case deref (clients s) c of
             Inl e \<Rightarrow> Some (Inl e)
           | Inr x \<Rightarrow>
               if m_PacketsThisSecond x > MAX_PACKETS_PER_SECOND then Some (Disconnect c s)
               else case input_loop gen c (-1) (-1) inStream s of
                      None \<Rightarrow> None
                    | Some r \<Rightarrow> Some (bindR r (\<lambda>(inStream, s). Inr s))))"

section \<open>Movement packets\<close>

text \<open>The player of a logged in client.\<close>

definition plays :: "ref \<Rightarrow> ref \<Rightarrow> Player \<Rightarrow> System \<Rightarrow> bool" where
  "plays c p pl s \<longleftrightarrow>
     (\<exists>x. heap_at (clients s) c = Some x \<and> m_Player x = Some p) \<and> heap_at (players s) p = Some pl"

lemma plays_put: "plays c p pl s \<Longrightarrow> plays c p y (put_player p y s)"
  by (auto simp: plays_def at_put_player)

lemma on_locked_eq: "plays c p pl s \<Longrightarrow> on_locked c f s = bindR (f pl) (\<lambda>y. Inr (put_player p y s))"
  by (auto simp: plays_def on_locked_def deref_def GetPlayer_def on_player_eq)

lemma on_locked_put:
  "plays c p pl s \<Longrightarrow> on_locked c f (put_player p y s) = bindR (f y) (\<lambda>z. Inr (put_player p z s))"
  by (simp add: on_locked_eq [OF plays_put])

lemma on_locked_fold:
  assumes "plays c p pl s"
  shows "foldR (\<lambda>a. on_locked c (f a)) as (put_player p y s) = bindR (foldR f as y) (\<lambda>z. Inr (put_player p z s))"
proof (induction as arbitrary: y)
  case Nil
  then show ?case by simp
next
  case (Cons a as)
  then have "(\<lambda>x. foldR (\<lambda>a. on_locked c (f a)) as (put_player p x s)) =
      (\<lambda>x. bindR (foldR f as x) (\<lambda>z. Inr (put_player p z s)))" by (simp add: fun_eq_iff)
  then show ?case by (simp add: on_locked_put [OF assms] bindR_assoc)
qed

lemma on_locked_Inl: "GetPlayer x s = None \<Longrightarrow> heap_at (clients s) c = Some x \<Longrightarrow> on_locked c f s = Inl NullPointer"
  by (simp add: on_locked_def deref_def)

definition targets :: "i32 \<Rightarrow> i32 \<Rightarrow> (i32 \<times> i32) list \<Rightarrow> Position list" where
  "targets x y path = Position_new x y # map (\<lambda>(dx, dy). Position_new (dx + x) (dy + y)) path"

text \<open>The number of steps of a movement packet; negative for a packet that is too short.\<close>

definition packet_steps :: "i32 \<Rightarrow> int \<Rightarrow> int" where
  "packet_steps packetOpcode packetLength =
     ((if packetOpcode = 248 then packetLength - 14 else packetLength) - 5) sdiv 2"

lemma HandleMovement_eq:
  assumes "plays c p pl s"
  shows "HandleMovement c packetOpcode packetLength b s =
    (if packet_steps packetOpcode packetLength < 0 then Inl LengthError
     else
       bindR (ReadShort True VT_A LITTLE b) (\<lambda>(x, b).
       bindR (read_n ReadStep (nat (packet_steps packetOpcode packetLength)) b) (\<lambda>(path, b).
       bindR (ReadShort True VT_STANDARD LITTLE b) (\<lambda>(y, b).
       bindR (ReadByte True VT_C b) (\<lambda>(run, b).
       bindR (set_path (run = 1) (targets x y path) pl) (\<lambda>pl. Inr (b, put_player p pl s)))))))"
proof -
  have fold: "foldR (\<lambda>(dx, dy). on_locked c (AddToPath (Position_new (dx + x) (dy + y)))) path (put_player p y1 s) =
      bindR (foldR AddToPath (map (\<lambda>(dx, dy). Position_new (dx + x) (dy + y)) path) y1)
        (\<lambda>z. Inr (put_player p z s))" for x y path y1
    using on_locked_fold [OF assms, of "\<lambda>(dx, dy). AddToPath (Position_new (dx + x) (dy + y))" path y1]
    by (simp add: foldR_map split_def)
  show ?thesis
    by (simp add: HandleMovement_def packet_steps_def [symmetric] Let_def on_locked_eq [OF assms] on_locked_put [OF assms]
        fold targets_def set_path_def bindR_assoc)
qed

section \<open>Handling a packet keeps the invariant\<close>

lemma set_path_frame:
  assumes "set_path run ts pl = Inr pl'"
  obtains mh where "pl' = pl\<lparr>m_MovementHandler := mh\<rparr>"
proof -
  let ?P = "\<lambda>y. \<exists>mh. y = pl\<lparr>m_MovementHandler := mh\<rparr>"
  have start: "?P (started y)" if "?P y" for y
    using that by (auto simp: started_def MovementHandler_Reset_def set_waypoints_def SetRunPath_def Let_def)
  obtain y where y: "foldR AddToPath ts (SetRunPath run (MovementHandler_Reset pl)) = Inr y"
    "pl' = MovementHandler_Finish y"
    using assms by (auto simp: set_path_def fault_simps)
  from y(1) have "?P y"
  proof (rule foldR_invariant [where P = ?P])
    show "?P (SetRunPath run (MovementHandler_Reset pl))"
      by (simp add: MovementHandler_Reset_def set_waypoints_def SetRunPath_def Let_def) blast
    fix q u v assume "?P u" "AddToPath q u = Inr v"
    with start [of u] AddToPath_frame [of q u v] show "?P v" by (auto simp: set_waypoints_def)
  qed
  with y(2) have "?P pl'" by (auto simp: MovementHandler_Finish_def set_waypoints_def)
  with that show ?thesis by blast
qed

lemma set_path_outcome: "outcome {SignedOverflow} (\<lambda>pl'. settled pl' \<and> (\<exists>mh. pl' = pl\<lparr>m_MovementHandler := mh\<rparr>))
    (set_path run ts pl)"
proof (cases "set_path run ts pl")
  case (Inl e)
  have "outcome {SignedOverflow} (\<lambda>_. True) (AddToPath q y)" for q y
    by (cases rule: AddToPath_cases [of q y]) simp_all
  then have "outcome {SignedOverflow} (\<lambda>_. True) (foldR AddToPath ts y)" for y
    by (intro outcome_foldR) simp_all
  then have "outcome {SignedOverflow} (\<lambda>_. True) (set_path run ts pl)"
    unfolding set_path_def by (rule outcome_bind) simp_all
  with Inl show ?thesis by simp
next
  case (Inr pl')
  then obtain mh where "pl' = pl\<lparr>m_MovementHandler := mh\<rparr>" by (rule set_path_frame)
  with Inr settled_set_path [OF Inr] show ?thesis by auto
qed

lemma inv_set_path:
  assumes "inv_during h s" "heap_at (clients s) c = Some x" "m_Stage x = LOGGED_IN" "plays c p pl s"
    and "settled pl'" "pl' = pl\<lparr>m_MovementHandler := mh\<rparr>"
  shows "inv_during h (put_player p pl' s)"
proof -
  note inv = sys_invD [OF assms(1)]
  have p: "m_Player x = Some p" "heap_at (players s) p = Some pl" using assms(2,4) by (auto simp: plays_def)
  with inv(6) [OF assms(2)] assms(3) have reg: "registered p s" "m_Client pl = c" "m_Encryptor x \<noteq> None"
    by (auto simp: session_ok_def)
  then have ok: "player_ok p pl x s" using p assms(2) by (simp add: player_ok_def)
  obtain pl0 x0 e where "player_ok p pl0 x0 s" "member_ok p pl0" using world_ok_member [OF inv(1) reg(1)] .
  with p have mem: "member_ok p pl'" using assms(5,6) by (simp add: player_ok_def member_ok_def)
  have ch: "changes p pl pl' x x s (put_player p pl' s)"
    using p assms(2,6) reg(2) by (simp add: changes_def at_put_player)
  have "refs_ok (put_player p pl' s)" by (rule refs_ok_put_player [OF inv(4) p(2)]) (simp add: assms(6))
  then have "world_ok (put_player p pl' s)" by (rule world_ok_changes [OF inv(1) ok ch _ mem])
  then show ?thesis
    by (rule sys_inv_cycle [OF assms(1) _ changes_entries [OF ch ok]])
qed

text \<open>The faults that received data can cause in a logged in client.\<close>

definition packet_faults :: "fault set" where
  "packet_faults = {OutOfBounds, LengthError, NullPointer, SignedOverflow}"

lemma HandleMovement_outcome:
  assumes "inv_during h s" "heap_at (clients s) c = Some x" "m_Stage x = LOGGED_IN"
  shows "outcome packet_faults (\<lambda>(b', t). reads b b' \<and> inv_during h t \<and> clients t = clients s \<and> quiet s t)
    (HandleMovement c packetOpcode packetLength b s)"
proof (cases "GetPlayer x s")
  case None
  have "only_reads b (ReadStep b)" for b
    unfolding ReadStep_def by (auto intro!: only_reads_bind ReadByte_only)
  then show ?thesis
    unfolding packet_faults_def HandleMovement_def Let_def on_locked_Inl [OF None assms(2)] bindR.simps
    by (intro outcome_if, simp)
      (rule outcome_read [OF reads_refl ReadShort_only], simp, rule outcome_read [of b], assumption, rule read_n_only, assumption,
        rule outcome_read [of b], assumption, rule ReadShort_only, simp_all)
next
  case (Some p)
  then obtain pl where p: "plays c p pl s"
    using assms(2) by (auto simp: plays_def GetPlayer_def split: option.splits)
  have step: "only_reads b (ReadStep b)" for b
    unfolding ReadStep_def by (auto intro!: only_reads_bind ReadByte_only)
  have path: "outcome packet_faults (\<lambda>(b', t). reads b b' \<and> inv_during h t \<and> clients t = clients s \<and> quiet s t)
      (bindR (set_path run ts pl) (\<lambda>pl. Inr (b1, put_player p pl s)))" if "reads b b1" for run ts b1
    by (rule outcome_bind [OF set_path_outcome])
      (use that p in \<open>auto simp: packet_faults_def plays_def same_sight_def intro: inv_set_path [OF assms p] quiet_put_player\<close>)
  show ?thesis
    using path unfolding packet_faults_def HandleMovement_eq [OF p]
    by (intro outcome_if, simp)
      (rule outcome_read [OF reads_refl ReadShort_only], simp, rule outcome_read [of b], assumption, rule read_n_only, rule step,
        rule outcome_read [of b], assumption, rule ReadShort_only, simp, rule outcome_read [of b], assumption,
        rule ReadByte_only, simp)
qed

lemma HandlePacket_outcome:
  assumes "inv_during h s" "heap_at (clients s) c = Some x" "m_Stage x = LOGGED_IN"
  shows "outcome packet_faults (\<lambda>(b', t). reads b b' \<and> inv_during h t \<and> clients t = clients s \<and> quiet s t)
    (HandlePacket c b packetOpcode packetLength s)"
proof -
  have skip: "outcome packet_faults (\<lambda>(b', t). reads b b' \<and> inv_during h t \<and> clients t = clients s \<and> quiet s t)
      (bindR (read_n (ReadByte True VT_STANDARD) n b1) (\<lambda>(_, b2). Inr (b2, t)))"
    if "reads b b1" "inv_during h t" "clients t = clients s" "quiet s t" for n b1 t
    unfolding packet_faults_def
    by (rule outcome_read [OF that(1) read_n_only [OF ReadByte_only]]) (use that in simp)
  have "outcome packet_faults (\<lambda>(b', t). reads b b' \<and> inv_during h t \<and> clients t = clients s \<and> quiet s t)
      (if packetOpcode = 248 \<or> packetOpcode = 164 \<or> packetOpcode = 98
       then HandleMovement c packetOpcode packetLength b s else Inr (b, s))"
    using HandleMovement_outcome [OF assms] assms(1) by simp
  then show ?thesis
    unfolding HandlePacket_def Let_def by (rule outcome_bind) (auto intro!: skip)
qed

lemma decode_packet_opcode_outcome:
  assumes "inv_during h s" "heap_at (clients s) c = Some x" "m_Stage x = LOGGED_IN"
  shows "outcome packet_faults (\<lambda>(op, b', t). reads b b' \<and> inv_during h t \<and> quiet s t \<and>
      (\<exists>y. heap_at (clients t) c = Some y \<and> m_Stage y = LOGGED_IN)) (decode_packet_opcode c packetOpcode b s)"
proof -
  obtain d where d: "m_Decryptor x = Some d" using sys_invD(6) [OF assms(1,2)] assms(3) by (auto simp: session_ok_def)
  have inv: "inv_during h (put_client c (x\<lparr>m_Decryptor := Some e\<rparr>) s)" for e
    by (rule sys_inv_client [OF assms(1,2)])
      (auto simp: same_session_def intro: io_ok_cong [OF sys_invD(5) [OF assms(1,2)]])
  have quiet: "quiet s (put_client c (x\<lparr>m_Decryptor := Some e\<rparr>) s)" for e
    by (rule quiet_put_client [OF assms(2)], rule grows_strand) simp_all
  have "deref (clients s) c = Inr x" using assms(2) by simp
  then show ?thesis
    unfolding decode_packet_opcode_def packet_faults_def
    by (intro outcome_if outcome_read [OF reads_refl ReadByte_only])
      (use d assms inv quiet in \<open>auto simp: deref_cipher_def at_put_client Let_def split: prod.split simp del: deref_eq\<close>)
qed

lemma decode_packet_length_only: "only_reads b (decode_packet_length op len b)"
  unfolding decode_packet_length_def Let_def by (auto intro!: only_reads_bind ReadByte_only)

text \<open>Whatever the data: an iteration keeps the invariant, or it ends in one of four faults.\<close>

lemma input_iteration_outcome:
  assumes "inv_during (Some c) s" "length (m_Buffer b) \<le> 1024"
  shows "outcome packet_faults (\<lambda>r. case r of Break b' t \<Rightarrow> inv_during (Some c) t \<and> effect_of c s t
      | Continue op len b' t \<Rightarrow> reads b b' \<and> inv_during (Some c) t \<and> quiet s t) (input_iteration gen c packetOpcode packetLength b s)"
    (is "outcome _ ?Q _")
proof -
  obtain x where x: "heap_at (clients s) c = Some x" using sys_invD(8) [OF assms(1)] by auto
  then have deref: "deref (clients s) c = Inr x" by simp
  show ?thesis
  proof (cases "m_Stage x = LOGGED_IN")
    case True
    have handle: "outcome packet_faults ?Q (bindR (HandlePacket c b1 op len t) (\<lambda>(b', u). Inr (Continue (-1) (-1) b' u)))"
      if "reads b b1" "inv_during (Some c) t" "heap_at (clients t) c = Some y" "m_Stage y = LOGGED_IN" "quiet s t"
      for b1 op len t y
      by (rule outcome_bind [OF HandlePacket_outcome [OF that(2-4)]])
        (use that(1,5) in \<open>auto intro: reads_trans quiet_effect\<close>)
    have len: "outcome packet_faults ?Q (bindR (decode_packet_length op packetLength b1) (\<lambda>(len, b2).
        case len of None \<Rightarrow> Inr (Break b2 t)
        | Some len \<Rightarrow> if Remaining b2 \<ge> len
            then bindR (HandlePacket c b2 op len t) (\<lambda>(b', u). Inr (Continue (-1) (-1) b' u))
            else Inr (Continue op len b2 t)))"
      if "reads b b1" "inv_during (Some c) t" "heap_at (clients t) c = Some y" "m_Stage y = LOGGED_IN" "quiet s t"
      for b1 op t y
      unfolding packet_faults_def
      by (rule outcome_read [OF that(1) decode_packet_length_only])
        (use that handle [unfolded packet_faults_def] in \<open>auto split: option.split intro: quiet_of\<close>)
    show ?thesis
      unfolding input_iteration_def deref bindR.simps
      by (rule outcome_if, use True in simp, rule outcome_bind [OF decode_packet_opcode_outcome [OF assms(1) x True]], simp)
        (auto intro: len)
  next
    case False
    have connected: "outcome {OutOfBounds} (\<lambda>(b', t). inv_during (Some c) t \<and> effect_of c s t) (HandleConnectedStage gen b c s)"
      if st: "m_Stage x = CONNECTED"
    proof -
      obtain b' t where "HandleConnectedStage gen b c s = Inr (b', t)" "inv_during (Some c) t" "effect_of c s t"
        using HandleConnectedStage_inv [OF assms(1) x st] .
      then show ?thesis by simp
    qed
    have "outcome {OutOfBounds} (\<lambda>(b', t). inv_during (Some c) t \<and> effect_of c s t) (LoginHandler_Process gen b c s)"
      unfolding LoginHandler_Process_def deref bindR.simps
      using connected HandleLoggingInStage_inv [OF assms(1) x _ assms(2)] assms(1)
      by (cases "m_Stage x") (simp_all add: quiet_of)
    then have "outcome packet_faults ?Q (bindR (LoginHandler_Process gen b c s) (\<lambda>(b', t). Inr (Break b' t)))"
      by (rule outcome_bind) (auto simp: packet_faults_def)
    with False show ?thesis unfolding input_iteration_def deref bindR.simps by simp
  qed
qed

section \<open>The loop\<close>

lemma input_loop_outcome:
  assumes "input_loop gen c packetOpcode packetLength b s = Some r"
    and "inv_during (Some c) s" "length (m_Buffer b) \<le> 1024"
  shows "outcome packet_faults (\<lambda>(b', t). inv_during (Some c) t \<and> effect_of c s t) r"
  using assms
proof (induction rule: input_loop.raw_induct [rotated, consumes 1])
  case (1 loop gen c packetOpcode packetLength b s r)
  show ?case
  proof (cases "HasRemaining b")
    case False
    with 1 show ?thesis by (auto simp: quiet_of)
  next
    case True
    show ?thesis
      using input_iteration_outcome [OF 1(3,4), of gen packetOpcode packetLength]
    proof (cases rule: outcome_cases)
      case (1 e)
      with True \<open>_ = Some r\<close> show ?thesis by auto
    next
      case (2 i)
      show ?thesis
      proof (cases i)
        case (Break b' t)
        with 2 True 1(2) show ?thesis by auto
      next
        case (Continue op len b' t)
        with 2 True 1(2) have t: "loop gen c op len b' t = Some r" "reads b b'" "inv_during (Some c) t" "quiet s t"
          by auto
        with 1(1) [of gen c op len b' t r] 1(4)
        have "outcome packet_faults (\<lambda>(b', u). inv_during (Some c) u \<and> effect_of c t u) r" by (simp add: reads_length)
        then show ?thesis by (rule outcome_mono) (use t(4) in \<open>auto intro: quiet_effect_of\<close>)
      qed
    qed
  qed
qed

lemma stuck_iteration:
  assumes "heap_at (clients s) c = Some x" "m_Stage x = LOGGED_IN" "packetOpcode \<noteq> -1" "packetLength \<noteq> -1"
    and "Remaining b < packetLength"
  shows "input_iteration gen c packetOpcode packetLength b s = Inr (Continue packetOpcode packetLength b s)"
  using assms by (simp add: input_iteration_def deref_def decode_packet_opcode_def decode_packet_length_def)

text \<open>
  Once the length of a packet is known and its data is not complete, an iteration changes nothing.
\<close>

lemma input_loop_stuck:
  assumes "heap_at (clients s) c = Some x" "m_Stage x = LOGGED_IN" "packetOpcode \<noteq> -1" "packetLength \<noteq> -1"
    and "HasRemaining b" "Remaining b < packetLength"
  shows "input_loop gen c packetOpcode packetLength b s = None"
proof -
  have False if "input_loop gen c packetOpcode packetLength b s = Some r" for r
    using that assms
  proof (induction rule: input_loop.raw_induct [rotated, consumes 1])
    case (1 loop gen c packetOpcode packetLength b s r)
    then show ?case by (simp add: stuck_iteration [OF 1(3-6,8)])
  qed
  then show ?thesis by (cases "input_loop gen c packetOpcode packetLength b s") auto
qed

end
