(* ===== verification/Client_Requests.thy ===== *)
theory Client_Requests
  imports Client_Input
begin

text \<open>
  Received data as a sequence of requests: what a client of the game sends, encoded with the cipher of the
  session, and what the loop of \<open>Client::HandleIncomingData\<close> makes of it.
\<close>

section \<open>Requests\<close>

text \<open>
  A movement request has an opcode, a first tile, steps relative to it, a byte for running and
  trailing bytes; every other request is an opcode and a payload that the server skips.
\<close>

datatype request =
    Walk i32 i32 i32 "(i8 \<times> i8) list" i8 "i8 list"
  | Other i32 "i8 list"

primrec opcode_of :: "request \<Rightarrow> i32" where
  "opcode_of (Walk op x y path run tail) = op"
| "opcode_of (Other op body) = op"

primrec payload :: "request \<Rightarrow> i8 list" where
  "payload (Walk op x y path run tail) =
     enc_short VT_A LITTLE x @ concat (map (\<lambda>(dx, dy). [dx, dy]) path) @ enc_short VT_STANDARD LITTLE y @ run # tail"
| "payload (Other op body) = body"

definition movement_opcode :: "i32 \<Rightarrow> bool" where
  "movement_opcode op \<longleftrightarrow> op = 248 \<or> op = 164 \<or> op = 98"

text \<open>The payload fits the length that the table gives for the opcode, or one byte of length.\<close>

definition length_ok :: "i32 \<Rightarrow> nat \<Rightarrow> bool" where
  "length_ok op n \<longleftrightarrow> unat op < 256 \<and>
     (if PacketLengths ! unat op = -1 then n < 256 else PacketLengths ! unat op = int n)"

primrec valid_request :: "request \<Rightarrow> bool" where
  "valid_request (Walk op x y path run tail) \<longleftrightarrow>
     movement_opcode op \<and> length_ok op (length (payload (Walk op x y path run tail))) \<and>
     length tail div 2 = (if op = 248 then 7 else 0)"
| "valid_request (Other op body) \<longleftrightarrow> \<not> movement_opcode op \<and> length_ok op (length body)"

text \<open>The encrypted opcode, followed by the length of the payload if the table has none.\<close>

definition packet_header :: "i32 \<Rightarrow> nat \<Rightarrow> ISAACCipher \<Rightarrow> i8 list" where
  "packet_header op n d =
     ucast (op + fst (GetNextKey d)) # (if PacketLengths ! unat op = -1 then [word_of_nat n] else [])"

definition enc_request :: "request \<Rightarrow> ISAACCipher \<Rightarrow> i8 list \<times> ISAACCipher" where
  "enc_request r d = (packet_header (opcode_of r) (length (payload r)) d @ payload r, snd (GetNextKey d))"

text \<open>What the server does for a request: it sets the path of the player.\<close>

primrec handle_request :: "ref \<Rightarrow> request \<Rightarrow> System \<Rightarrow> fault + System" where
  "handle_request c (Walk op x y path run tail) s =
     on_locked c (set_path (run = 255)
       (targets (x AND 0xFFFF) (y AND 0xFFFF) (map (\<lambda>(dx, dy). (scast dx, scast dy)) path))) s"
| "handle_request c (Other op body) s = Inr s"

definition next_decryptor :: "Client \<Rightarrow> Client" where
  "next_decryptor x = x\<lparr>m_Decryptor := map_option (\<lambda>d. snd (GetNextKey d)) (m_Decryptor x)\<rparr>"

definition handle_next :: "ref \<Rightarrow> request \<Rightarrow> System \<Rightarrow> fault + System" where
  "handle_next c r s = bindR (on_client c (\<lambda>x. Inr (next_decryptor x)) s) (handle_request c r)"

section \<open>Reading a request\<close>

lemma run_byte: "- (scast (v :: i8) :: i32) = 1 \<longleftrightarrow> v = 255"
proof
  assume "- (scast v :: i32) = 1"
  then have "(scast v :: i32) = -1" by (metis minus_minus)
  then have "(ucast (scast v :: i32) :: i8) = ucast (-1 :: i32)" by simp
  then show "v = 255" by (simp add: ucast8_scast) (simp add: unsigned_minus_1_eq_mask mask_numeral)
qed simp

lemma ReadByte_C:
  assumes "unread b = v # rest"
  shows "ReadByte True VT_C b = Inr (- scast v, advance (Suc 0) b)"
proof -
  have "m_Pos b < length (m_Buffer b)" "m_Buffer b ! m_Pos b = v"
    using assms by (auto simp: unread_def dest: drop_eq_ConsD)
  then show ?thesis by (simp add: ReadByte_def Let_def advance_def)
qed

lemma ReadStep_eq:
  assumes "unread b = dx # dy # rest"
  shows "ReadStep b = Inr ((scast dx, scast dy), advance 2 b)"
proof -
  have "unread (advance (Suc 0) b) = dy # rest" using assms by simp
  then show ?thesis
    using ReadByte_signed [OF assms] ReadByte_signed [of "advance (Suc 0) b"]
    by (simp add: ReadStep_def numeral_2_eq_2)
qed

lemma read_path:
  assumes "unread b = concat (map (\<lambda>(dx, dy). [dx, dy]) path) @ rest"
  shows "read_n ReadStep (length path) b =
    Inr (map (\<lambda>(dx, dy). (scast dx, scast dy)) path, advance (2 * length path) b)"
  using assms
proof (induction path arbitrary: b)
  case Nil
  then show ?case by simp
next
  case (Cons step path)
  obtain dx dy where step: "step = (dx, dy)" by fastforce
  with Cons.prems have "unread b = dx # dy # concat (map (\<lambda>(dx, dy). [dx, dy]) path) @ rest" by simp
  with Cons.IH [of "advance 2 b"] show ?case by (simp add: ReadStep_eq step)
qed

lemma steps_of_length:
  fixes k t :: nat
  assumes "t div 2 = (if op = 248 then 7 else 0)"
  shows "packet_steps op (int (5 + 2 * k + t)) = int k"
proof -
  have "(if op = 248 then int (5 + 2 * k + t) - 14 else int (5 + 2 * k + t)) - 5 = 2 * int k + int (t mod 2)"
    using assms mult_div_mod_eq [of 2 t] by auto
  moreover have "(2 * int k + int (t mod 2)) sdiv 2 = int k"
    by (subst signed_divide_int_def) (auto simp: sgn_if mod2_eq_if)
  ultimately show ?thesis by (simp only: packet_steps_def)
qed

lemma HandleMovement_request:
  assumes "valid_request (Walk op x y path run tail)" "unread b = payload (Walk op x y path run tail) @ rest"
    and "heap_at (clients s) c = Some z"
  shows "HandleMovement c op (int (length (payload (Walk op x y path run tail)))) b s =
    bindR (handle_request c (Walk op x y path run tail) s) (\<lambda>t. Inr (advance (5 + 2 * length path) b, t))"
proof -
  let ?k = "length path" and ?path = "concat (map (\<lambda>(dx, dy). [dx, dy]) path)"
  have path: "length ?path = 2 * ?k" by (induction path) auto
  have len: "length (payload (Walk op x y path run tail)) = 5 + 2 * ?k + length tail" by (simp add: path)
  have steps: "packet_steps op (int (length (payload (Walk op x y path run tail)))) = int ?k"
    unfolding len by (rule steps_of_length) (use assms(1) in simp)
  have r1: "ReadShort True VT_A LITTLE b = Inr (x AND 0xFFFF, advance 2 b)"
    by (rule ReadShort_eq) (use assms(2) in simp_all)
  have at2: "unread (advance 2 b) = ?path @ enc_short VT_STANDARD LITTLE y @ run # tail @ rest"
    using assms(2) by simp
  note r2 = read_path [OF at2]
  have at3: "unread (advance (2 + 2 * ?k) b) = enc_short VT_STANDARD LITTLE y @ run # tail @ rest"
    using at2 unread_advance [of "2 * ?k" "advance 2 b"] path by (simp add: add.commute)
  have r3: "ReadShort True VT_STANDARD LITTLE (advance (2 + 2 * ?k) b) = Inr (y AND 0xFFFF, advance (4 + 2 * ?k) b)"
    using ReadShort_eq [OF _ at3, of True] by (simp add: eval_nat_numeral)
  have "unread (advance (4 + 2 * ?k) b) = run # tail @ rest"
    using at3 unread_advance [of 2 "advance (2 + 2 * ?k) b"] by (simp add: eval_nat_numeral)
  from ReadByte_C [OF this] have r4: "ReadByte True VT_C (advance (4 + 2 * ?k) b) = Inr (- scast run, advance (5 + 2 * ?k) b)"
    by (simp add: eval_nat_numeral)
  show ?thesis
  proof (cases "GetPlayer z s")
    case None
    with r1 r2 r3 steps show ?thesis
      by (simp add: HandleMovement_def packet_steps_def [symmetric] Let_def on_locked_Inl [OF None assms(3)])
  next
    case (Some p)
    then obtain pl where p: "plays c p pl s"
      using assms(3) by (auto simp: plays_def GetPlayer_def split: option.splits)
    with r1 r2 r3 r4 steps show ?thesis
      by (simp add: HandleMovement_eq [OF p] on_locked_eq [OF p] run_byte bindR_assoc)
  qed
qed

lemma skip_bytes:
  assumes "n \<le> length (unread b)"
  shows "\<exists>vs. read_n (ReadByte True VT_STANDARD) n b = Inr (vs, advance n b)"
  using assms
proof (induction n arbitrary: b)
  case (Suc n)
  then obtain v rest where v: "unread b = v # rest" by (cases "unread b") auto
  moreover have "\<exists>vs. read_n (ReadByte True VT_STANDARD) n (advance (Suc 0) b) = Inr (vs, advance n (advance (Suc 0) b))"
    using Suc.prems v by (intro Suc.IH) simp
  ultimately show ?case using ReadByte_signed [OF v] by auto
qed simp

lemma HandlePacket_request:
  assumes "valid_request r" "unread b = payload r @ rest" "heap_at (clients s) c = Some z"
  shows "HandlePacket c b (opcode_of r) (int (length (payload r))) s =
    bindR (handle_request c r s) (\<lambda>t. Inr (advance (length (payload r)) b, t))"
proof (cases r)
  case (Walk op x y path run tail)
  have path: "length (concat (map (\<lambda>(dx, dy). [dx, dy]) path)) = 2 * length path" by (induction path) auto
  let ?n = "5 + 2 * length path"
  have len: "length (payload r) = ?n + length tail" using Walk by (simp add: path)
  have mov: "movement_opcode op" using assms(1) Walk by simp
  have "length tail \<le> length (unread (advance ?n b))" using assms(2) len by simp
  then obtain vs where vs: "read_n (ReadByte True VT_STANDARD) (length tail) (advance ?n b) = Inr (vs, advance (length tail) (advance ?n b))"
    using skip_bytes by blast
  have rest: "nat (int (length (payload r)) - (int (m_Pos b + ?n) - int (m_Pos b))) = length tail"
    using len by simp
  have "HandleMovement c op (int (length (payload r))) b s =
      bindR (handle_request c r s) (\<lambda>t. Inr (advance ?n b, t))"
    using HandleMovement_request [of op x y path run tail b rest s c z] assms Walk by simp
  then show ?thesis
    using mov vs Walk rest len
    by (cases "handle_request c r s") (simp_all add: HandlePacket_def movement_opcode_def eval_nat_numeral)
next
  case (Other op body)
  obtain vs where "read_n (ReadByte True VT_STANDARD) (length body) b = Inr (vs, advance (length body) b)"
    using skip_bytes [of "length body" b] assms(2) Other by auto
  with Other assms(1) show ?thesis by (simp add: HandlePacket_def movement_opcode_def)
qed

section \<open>A chunk of requests\<close>

lemma small_opcode: "unat (op :: i32) < 256 \<Longrightarrow> op AND 0xFF = op"
proof -
  assume "unat op < 256"
  then have "unat (op AND 0xFF) = unat op"
    by (simp add: and_255_take_bit unat_take_bit take_bit_nat_eq_self)
  then show ?thesis by (simp add: word_unat_eq_iff)
qed

lemma decode_request_opcode:
  assumes "unat op < 256"
  shows "decode_opcode (scast (ucast (op + fst (GetNextKey d)) :: i8)) d = (op, snd (GetNextKey d))"
proof -
  have "(scast v AND 0xFF :: i32) = ucast v" for v :: i8
    by (simp add: and_255_ucast ucast8_scast)
  then show ?thesis
    using opcode_byte [of op "fst (GetNextKey d)"] small_opcode [OF assms]
    by (simp add: decode_opcode_def Let_def split_beta and_255_ucast ucast8_simps)
qed

lemma length_byte: "n < 256 \<Longrightarrow> uint ((scast (word_of_nat n :: i8) :: i32) AND 0xFF) = int n"
proof -
  assume n: "n < 256"
  have "(scast (word_of_nat n :: i8) :: i32) AND 0xFF = ucast (word_of_nat n :: i8)"
    by (simp add: and_255_ucast ucast8_scast)
  then show ?thesis using n by (simp add: unsigned_of_nat take_bit_nat_eq_self)
qed

text \<open>Decoding a header leaves the loop with the opcode, the length and the data behind the header.\<close>

lemma decode_header:
  assumes "length_ok op n" "unread b = packet_header op n d @ rest"
    and "heap_at (clients s) c = Some x" "m_Decryptor x = Some d"
  defines "b' \<equiv> advance (length (packet_header op n d)) b"
  obtains b1 where "decode_packet_opcode c (-1) b s = Inr (op, b1, put_client c (next_decryptor x) s)"
    "decode_packet_length op (-1) b1 = Inr (Some (int n), b')" "unread b' = rest" "Remaining b' = int (length rest)"
proof
  let ?len = "if PacketLengths ! unat op = -1 then [word_of_nat n :: i8] else []"
  have op: "unat op < 256" using assms(1) by (simp add: length_ok_def)
  have b: "unread b = ucast (op + fst (GetNextKey d)) # ?len @ rest"
    using assms(2) by (simp add: packet_header_def)
  show "decode_packet_opcode c (-1) b s = Inr (op, advance (Suc 0) b, put_client c (next_decryptor x) s)"
    using ReadByte_signed [OF b] assms(3,4) decode_request_opcode [OF op]
    by (simp add: decode_packet_opcode_def deref_def deref_cipher_def next_decryptor_def)
  have b1: "unread (advance (Suc 0) b) = ?len @ rest" using b by simp
  show "decode_packet_length op (-1) (advance (Suc 0) b) = Inr (Some (int n), b')"
  proof (cases "PacketLengths ! unat op = -1")
    case True
    with assms(1) have n: "n < 256" by (simp add: length_ok_def)
    have v: "unread (advance (Suc 0) b) = word_of_nat n # rest" using b1 True by simp
    then have "HasRemaining (advance (Suc 0) b)" by (simp add: HasRemaining_unread)
    then show ?thesis
      using True ReadByte_signed [OF v] length_byte [OF n]
      by (simp add: decode_packet_length_def b'_def packet_header_def)
  next
    case False
    with assms(1) show ?thesis by (simp add: decode_packet_length_def length_ok_def b'_def packet_header_def)
  qed
  show "unread b' = rest" using assms(2) by (simp add: b'_def)
  then show "Remaining b' = int (length rest)"
    using b by (auto simp: b'_def Remaining_def unread_def packet_header_def dest!: arg_cong [of _ _ length])
qed

lemma iteration_request:
  assumes "valid_request r" "unread b = fst (enc_request r d) @ rest"
    and "heap_at (clients s) c = Some x" "m_Stage x = LOGGED_IN" "m_Decryptor x = Some d"
  shows "input_iteration gen c (-1) (-1) b s =
    bindR (handle_next c r s) (\<lambda>t. Inr (Continue (-1) (-1) (advance (length (fst (enc_request r d))) b) t))"
proof -
  let ?op = "opcode_of r" and ?n = "length (payload r)" and ?s = "put_client c (next_decryptor x) s"
  let ?b = "advance (length (packet_header ?op ?n d)) b"
  have ok: "length_ok ?op ?n" using assms(1) by (cases r) simp_all
  have b: "unread b = packet_header ?op ?n d @ payload r @ rest" using assms(2) by (simp add: enc_request_def)
  from decode_header [OF ok b assms(3,5)] obtain b1 where dec:
    "decode_packet_opcode c (-1) b s = Inr (?op, b1, ?s)" "decode_packet_length ?op (-1) b1 = Inr (Some (int ?n), ?b)"
    "unread ?b = payload r @ rest" "Remaining ?b = int (length (payload r @ rest))"
    by blast
  have at: "heap_at (clients ?s) c = Some (next_decryptor x)" using assms(3) by (simp add: at_put_client)
  note HandlePacket_request [OF assms(1) dec(3) at]
  with assms(3,4) dec show ?thesis
    by (cases "handle_request c r ?s")
      (simp_all add: input_iteration_def deref_def handle_next_def on_client_eq [OF assms(3)] enc_request_def)
qed

lemma handle_next_client:
  assumes "handle_next c r s = Inr t" "heap_at (clients s) c = Some x"
  shows "heap_at (clients t) c = Some (next_decryptor x)"
proof -
  have locked: "on_locked c f u = Inr t \<Longrightarrow> clients t = clients u" for f u
    by (auto simp: on_locked_def fault_simps on_player_Inr split: option.splits)
  have "handle_request c r (put_client c (next_decryptor x) s) = Inr t"
    using assms by (simp add: handle_next_def on_client_eq)
  then have "clients t = clients (put_client c (next_decryptor x) s)" by (cases r) (auto dest: locked)
  with assms(2) show ?thesis by (simp add: at_put_client)
qed

lemma next_decryptor_fields [simp]:
  "m_Stage (next_decryptor x) = m_Stage x" "m_Player (next_decryptor x) = m_Player x"
  "m_Decryptor (next_decryptor x) = map_option (\<lambda>d. snd (GetNextKey d)) (m_Decryptor x)"
  by (simp_all add: next_decryptor_def)

text \<open>The requests at the start of a chunk are handled one by one, and the loop goes on behind them.\<close>

lemma loop_requests:
  assumes "list_all valid_request rs" "unread b = concat (fst (map_state enc_request rs d)) @ rest"
    and "heap_at (clients s) c = Some x" "m_Stage x = LOGGED_IN" "m_Decryptor x = Some d"
  shows "input_loop gen c (-1) (-1) b s =
    (case foldR (handle_next c) rs s of
       Inl e \<Rightarrow> Some (Inl e)
     | Inr t \<Rightarrow> input_loop gen c (-1) (-1) (advance (length (concat (fst (map_state enc_request rs d)))) b) t)"
  using assms
proof (induction rs arbitrary: b s x d)
  case Nil
  then show ?case by simp
next
  case (Cons r rs)
  let ?bs = "fst (enc_request r d)" and ?d = "snd (enc_request r d)"
  have ms: "fst (map_state enc_request (r # rs) d) = ?bs # fst (map_state enc_request rs ?d)"
    by (simp add: map_state_Cons del: map_state.simps)
  have b: "unread b = ?bs @ concat (fst (map_state enc_request rs ?d)) @ rest"
    using Cons.prems(2) unfolding ms by simp
  have r: "valid_request r" "list_all valid_request rs" using Cons.prems(1) by simp_all
  have "HasRemaining b" using b by (simp add: HasRemaining_unread enc_request_def packet_header_def)
  note loop = input_loop.simps [of gen c "-1" "-1" b s]
    iteration_request [OF r(1) b Cons.prems(3-5), of gen]
  show ?case
  proof (cases "handle_next c r s")
    case (Inl e)
    with \<open>HasRemaining b\<close> loop show ?thesis by simp
  next
    case (Inr t)
    have t: "heap_at (clients t) c = Some (next_decryptor x)" "m_Stage (next_decryptor x) = LOGGED_IN"
      "m_Decryptor (next_decryptor x) = Some ?d"
      using handle_next_client [OF Inr Cons.prems(3)] Cons.prems(4,5) by (simp_all add: enc_request_def)
    have "unread (advance (length ?bs) b) = concat (fst (map_state enc_request rs ?d)) @ rest" using b by simp
    from Cons.IH [OF r(2) this t] \<open>HasRemaining b\<close> loop Inr show ?thesis
      unfolding ms by (simp split: sum.split)
  qed
qed

text \<open>The bookkeeping of a chunk does not touch what the loop looks at.\<close>

lemma count_packet_fields [simp]:
  "m_Stage (count_packet now x) = m_Stage x" "m_Decryptor (count_packet now x) = m_Decryptor x"
  "m_Player (count_packet now x) = m_Player x" "m_Strand (count_packet now x) = m_Strand x"
  "m_Disconnected (count_packet now x) = m_Disconnected x" "m_Encryptor (count_packet now x) = m_Encryptor x"
  by (simp_all add: count_packet_def Let_def)

lemma HandleIncomingData_eq:
  assumes "heap_at (clients s) c = Some x" "m_PacketsThisSecond (count_packet now x) \<le> 100"
  shows "HandleIncomingData now gen c b s =
    map_option (\<lambda>r. bindR r (\<lambda>(b, t). Inr t))
      (input_loop gen c (-1) (-1) b (put_client c (count_packet now x) s))"
proof -
  have "\<not> m_PacketsThisSecond (count_packet now x) > MAX_PACKETS_PER_SECOND"
    using assms(2) by (simp add: MAX_PACKETS_PER_SECOND_def)
  with assms(1) show ?thesis
    by (simp add: HandleIncomingData_def on_client_eq deref_def at_put_client map_option_case split: option.split)
qed

lemma chunk_start:
  assumes "list_all valid_request rs" "heap_at (clients s) c = Some x" "m_Stage x = LOGGED_IN" "m_Decryptor x = Some d"
    and "m_PacketsThisSecond (count_packet now x) \<le> 100"
  defines "s0 \<equiv> put_client c (count_packet now x) s"
  defines "bs \<equiv> concat (fst (map_state enc_request rs d))"
  shows "HandleIncomingData now gen c (StreamBuffer_data (bs @ rest)) s =
    (case foldR (handle_next c) rs s0 of
       Inl e \<Rightarrow> Some (Inl e)
     | Inr t \<Rightarrow> map_option (\<lambda>r. bindR r (\<lambda>(b, t). Inr t))
         (input_loop gen c (-1) (-1) (advance (length bs) (StreamBuffer_data (bs @ rest))) t))"
proof -
  have s0: "heap_at (clients s0) c = Some (count_packet now x)" using assms(2) by (simp add: s0_def at_put_client)
  have "unread (StreamBuffer_data (bs @ rest)) = concat (fst (map_state enc_request rs d)) @ rest"
    by (simp add: bs_def)
  from loop_requests [OF assms(1) this s0, of gen] assms(3,4) show ?thesis
    by (simp add: HandleIncomingData_eq [OF assms(2,5)] s0_def [symmetric] bs_def [symmetric] split: sum.split)
qed

lemma handle_all_client:
  assumes "foldR (handle_next c) rs s = Inr t" "heap_at (clients s) c = Some x" "m_Decryptor x = Some d"
  obtains y where "heap_at (clients t) c = Some y" "m_Stage y = m_Stage x"
    "m_Decryptor y = Some (snd (map_state enc_request rs d))"
  using assms
proof (induction rs arbitrary: s x d thesis)
  case Nil
  then show ?case by simp
next
  case (Cons r rs)
  then obtain u where u: "handle_next c r s = Inr u" "foldR (handle_next c) rs u = Inr t"
    by (auto simp: fault_simps)
  have at: "heap_at (clients u) c = Some (next_decryptor x)" "m_Decryptor (next_decryptor x) = Some (snd (enc_request r d))"
    using handle_next_client [OF u(1) Cons.prems(3)] Cons.prems(4) by (simp_all add: enc_request_def)
  obtain y where "heap_at (clients t) c = Some y" "m_Stage y = m_Stage (next_decryptor x)"
      "m_Decryptor y = Some (snd (map_state enc_request rs (snd (enc_request r d))))"
    using Cons.IH [OF _ u(2) at] .
  with Cons.prems(1) [of y] show ?case by (simp add: map_state_Cons del: map_state.simps)
qed

section \<open>Any data\<close>

lemma inv_count_packet:
  assumes "inv_during h s" "heap_at (clients s) c = Some x"
  shows "inv_during h (put_client c (count_packet now x) s)"
proof (rule sys_inv_client [OF assms])
  show "same_session x (count_packet now x)" by (simp add: same_session_def count_packet_def Let_def)
  show "io_ok h c (count_packet now x)"
    by (rule io_ok_cong [OF sys_invD(5) [OF assms]]) (simp_all add: count_packet_def Let_def)
qed

lemma HandleIncomingData_outcome:
  assumes "inv_during (Some c) s" "length bytes \<le> 1024"
    and "HandleIncomingData now gen c (StreamBuffer_data bytes) s = Some r"
  shows "outcome packet_faults (\<lambda>t. inv_during (Some c) t \<and> effect_of c s t) r"
proof -
  obtain x where x: "heap_at (clients s) c = Some x" using sys_invD(8) [OF assms(1)] by auto
  let ?x = "count_packet now x" and ?s = "put_client c (count_packet now x) s"
  have inv: "inv_during (Some c) ?s" by (rule inv_count_packet [OF assms(1) x])
  have quiet: "quiet s ?s"
    by (rule quiet_put_client [OF x], rule grows_strand) (simp_all add: count_packet_def Let_def)
  show ?thesis
  proof (cases "m_PacketsThisSecond ?x \<le> 100")
    case True
    then obtain r0 where r0: "input_loop gen c (-1) (-1) (StreamBuffer_data bytes) ?s = Some r0"
      "r = bindR r0 (\<lambda>(b, t). Inr t)"
      using assms(3) HandleIncomingData_eq [OF x] by (auto simp: map_option_case split: option.splits)
    have "length (m_Buffer (StreamBuffer_data bytes)) \<le> 1024" using assms(2) by (simp add: StreamBuffer_data_def)
    from input_loop_outcome [OF r0(1) inv this] show ?thesis
      unfolding r0(2) by (rule outcome_bind) (auto intro: quiet_effect_of [OF quiet])
  next
    case False
    have at: "heap_at (clients ?s) c = Some ?x" using x by (simp add: at_put_client)
    have "r = Disconnect c ?s"
      using False assms(3) x by (simp add: HandleIncomingData_def on_client_eq deref_def at MAX_PACKETS_PER_SECOND_def not_le)
    moreover obtain t where t: "Disconnect c ?s = Inr t" "inv_during (Some c) t" using sys_inv_Disconnect [OF inv at] .
    ultimately show ?thesis using quiet_effect_of [OF quiet effect_of_Disconnect [OF inv at t(1)]] by simp
  qed
qed

section \<open>The rate limit\<close>

text \<open>Chunks within one second of the first one are counted.\<close>

lemma count_window:
  assumes "m_LastPacketSecond x = t0" "t0 \<noteq> 0" "list_all (\<lambda>t. t - t0 < 1000000000) ts"
  shows "m_PacketsThisSecond (fold count_packet ts x) = m_PacketsThisSecond x + word_of_nat (length ts) \<and>
    m_LastPacketSecond (fold count_packet ts x) = t0"
  using assms
proof (induction ts arbitrary: x)
  case (Cons t ts)
  let ?y = "count_packet t x"
  have "t - t0 < 1000000000" using Cons.prems(3) by simp
  then have "\<not> (t - t0) div 1000000000 \<ge> 1"
    using pos_imp_zdiv_pos_iff [of 1000000000 "t - t0"] by linarith
  then have "m_LastPacketSecond ?y = t0" "m_PacketsThisSecond ?y = m_PacketsThisSecond x + 1"
    using Cons.prems(1,2) by (simp_all add: count_packet_def Let_def)
  with Cons.IH [of ?y] Cons.prems(2,3) show ?case by simp
qed simp

text \<open>
  A chunk that opens a window of one second: the first of the client, or one at least a second after the chunk that opened
  the previous window. The clock never shows its epoch, which the code uses as the mark of a client without a window.
\<close>

definition opens_window :: "int \<Rightarrow> Client \<Rightarrow> bool" where
  "opens_window t x \<longleftrightarrow> t \<noteq> 0 \<and>
     (if m_LastPacketSecond x = 0 then m_PacketsThisSecond x = 0 else t - m_LastPacketSecond x \<ge> 1000000000)"

lemma second_passed: "(t - t0) div 1000000000 \<ge> 1 \<longleftrightarrow> t - t0 \<ge> (1000000000 :: int)"
  using pos_imp_zdiv_pos_iff [of 1000000000 "t - t0"] by linarith

lemma opened_window:
  "opens_window t x \<Longrightarrow> m_LastPacketSecond (count_packet t x) = t \<and> m_PacketsThisSecond (count_packet t x) = 1"
  by (auto simp: opens_window_def count_packet_def Let_def second_passed split: if_splits)

lemma count_next:
  "m_LastPacketSecond x = t0 \<Longrightarrow> t0 \<noteq> 0 \<Longrightarrow>
   m_PacketsThisSecond (count_packet t x) = (if t - t0 < 1000000000 then m_PacketsThisSecond x + 1 else 1)"
  using second_passed [of t t0] by (auto simp: count_packet_def Let_def)

lemma window_count:
  assumes "opens_window t0 x" "list_all (\<lambda>t. t - t0 < 1000000000) ts" "length ts \<le> 99"
  shows "m_LastPacketSecond (fold count_packet (t0 # ts) x) = t0"
    "unat (m_PacketsThisSecond (fold count_packet (t0 # ts) x)) = length ts + 1"
proof -
  have t0: "t0 \<noteq> 0" using assms(1) by (simp add: opens_window_def)
  note count = count_window [of "count_packet t0 x" t0 ts]
  with opened_window [OF assms(1)] t0 assms(2) show "m_LastPacketSecond (fold count_packet (t0 # ts) x) = t0" by simp
  have "m_PacketsThisSecond (fold count_packet (t0 # ts) x) = word_of_nat (length ts + 1)"
    using count opened_window [OF assms(1)] t0 assms(2) by simp
  then show "unat (m_PacketsThisSecond (fold count_packet (t0 # ts) x)) = length ts + 1"
    using assms(3) by (simp only: unat_of_nat) (simp add: take_bit_nat_eq_self)
qed

section \<open>A server with one player\<close>

text \<open>The client of \<open>login_server\<close>, logged in.\<close>

definition session_client :: Client where
  "session_client = emits (login_packets (Position_new 3200 3200)) (logging_client ''bob'' 0 (set_ciphers 1 2 login_client))"

definition session_server :: System where
  "session_server = full_login ''bob'' 0 0 (set_ciphers 1 2 login_client) (put_client 0 (set_ciphers 1 2 login_client) login_server)"

lemma session_server_at: "heap_at (clients session_server) 0 = Some session_client"
  and session_client_fields: "m_Stage session_client = LOGGED_IN"
    "m_Decryptor session_client = Some (ISAACCipher_new 0 1 0 2)"
    "m_PacketsThisSecond session_client = 0" "m_LastPacketSecond session_client = 0"
proof -
  have at: "heap_at (clients (put_client 0 (set_ciphers 1 2 login_client) login_server)) 0 = Some (set_ciphers 1 2 login_client)"
    by (simp add: put_client_def login_server_def heap_at_def)
  show "heap_at (clients session_server) 0 = Some session_client"
    using full_login_at(2) [OF at, of "''bob''" 0 0] by (simp add: session_server_def session_client_def login_server_def)
  have key: "m_Encryptor (logging_client ''bob'' 0 (set_ciphers 1 2 login_client)) =
      Some (ISAACCipher_new 50 51 50 52)"
    by (simp add: set_ciphers_def seed_of_def SetEncryptor_def SetDecryptor_def Let_def)
  have "m_PacketsThisSecond (emits ps y) = m_PacketsThisSecond y" "m_LastPacketSecond (emits ps y) = m_LastPacketSecond y"
    if "m_Encryptor y = Some e" for ps y e
    by (simp_all add: emits_eq [OF that])
  from this [OF key] show "m_PacketsThisSecond session_client = 0" "m_LastPacketSecond session_client = 0"
    by (simp_all add: session_client_def logging_client_def answered_def set_ciphers_def SetEncryptor_def
        SetDecryptor_def Let_def login_client_def Client_new_def)
  show "m_Stage session_client = LOGGED_IN" "m_Decryptor session_client = Some (ISAACCipher_new 0 1 0 2)"
    by (simp_all add: session_client_def set_ciphers_def seed_of_def SetEncryptor_def SetDecryptor_def Let_def)
qed

lemma session_server_inv: "inv_during (Some 0) session_server"
proof -
  have at: "heap_at (clients login_server) 0 = Some login_client" "m_Stage login_client = LOGGING_IN"
    by (simp_all add: login_server_def heap_at_def login_client_def)
  have used: "used_indices ((replicate 2048 False)[0 := True]) = {0}"
    by (auto simp: used_indices_def nth_list_update split: if_splits)
  have "m_Players session_server = [(''bob'', 0)]" "m_OccupiedIndices session_server = (replicate 2048 False)[0 := True]"
    "heap_at (players session_server) 0 = Some (logged_in_player ((Player_new ''bob'' 0)\<lparr>m_Index := 0\<rparr>))"
    by (simp_all add: session_server_def full_login_def login_server_def heap_at_def)
  then have "registry_wf session_server"
    by (simp add: registry_wf_def bitset_ok_def MAX_PLAYERS_def used index_of_def logged_in_player_def)
  then show ?thesis
    unfolding session_server_def by (rule inv_full_login [OF logging_in_ciphers [OF login_server_inv at]])
qed

lemma session_rate: "m_PacketsThisSecond (count_packet 1 session_client) = 1"
  by (simp add: count_packet_def Let_def session_client_fields)

section \<open>Properties\<close>

text \<open>
  C14: received data as requests. When a chunk consists of whole, valid requests, encoded with the cipher in the
  state of the client's decryptor, \<open>HandleIncomingData\<close> returns, having handled exactly these requests, in order:
  each one advances the decryptor by one key, a movement request sets the path of the player to its targets, and
  any other request has no effect.
\<close>

theorem requests_handled:
  assumes "list_all valid_request rs" "heap_at (clients s) c = Some x" "m_Stage x = LOGGED_IN" "m_Decryptor x = Some d"
    and "m_PacketsThisSecond (count_packet now x) \<le> 100"
  shows "HandleIncomingData now gen c (StreamBuffer_data (concat (fst (map_state enc_request rs d)))) s =
    Some (foldR (handle_next c) rs (put_client c (count_packet now x) s))"
proof -
  let ?bs = "concat (fst (map_state enc_request rs d))"
  have "\<not> HasRemaining (advance (length ?bs) (StreamBuffer_data ?bs))" by (simp add: HasRemaining_unread)
  then have "input_loop gen c (-1) (-1) (advance (length ?bs) (StreamBuffer_data ?bs)) t =
      Some (Inr (advance (length ?bs) (StreamBuffer_data ?bs), t))" for t
    by (subst input_loop.simps) simp
  with chunk_start [OF assms, of gen "[]"] show ?thesis by (simp split: sum.split)
qed

theorem requests_handled_witness:
  "\<exists>bytes. HandleIncomingData 1 0 0 (StreamBuffer_data bytes) session_server =
    Some (foldR (handle_next 0) [Walk 98 3203 3201 [(1, 255)] 255 [], Other 0 []]
      (put_client 0 (count_packet 1 session_client) session_server))"
proof -
  have valid: "list_all valid_request [Walk 98 3203 3201 [(1, 255)] 255 [], Other 0 []]" by code_simp
  show ?thesis
    using requests_handled [OF valid session_server_at session_client_fields(1,2), of 1] session_rate by auto
qed

text \<open>
  C19: a packet that arrives in two chunks stops the server. When the whole requests of a chunk are followed by
  the start of one more packet, its header and at least one byte of its data, but not all, then
  \<open>HandleIncomingData\<close> never returns: the loop neither reads the rest nor leaves.
\<close>

theorem partial_packet_hangs:
  assumes "list_all valid_request rs" "heap_at (clients s) c = Some x" "m_Stage x = LOGGED_IN" "m_Decryptor x = Some d"
    and "m_PacketsThisSecond (count_packet now x) \<le> 100"
    and "foldR (handle_next c) rs (put_client c (count_packet now x) s) = Inr t"
    and "length_ok op n" "part \<noteq> []" "length part < n"
  shows "HandleIncomingData now gen c (StreamBuffer_data (concat (fst (map_state enc_request rs d)) @
    packet_header op n (snd (map_state enc_request rs d)) @ part)) s = None"
proof -
  let ?bs = "concat (fst (map_state enc_request rs d))" and ?d = "snd (map_state enc_request rs d)"
  let ?rest = "packet_header op n ?d @ part"
  let ?b = "advance (length ?bs) (StreamBuffer_data (?bs @ ?rest))"
  have "heap_at (clients (put_client c (count_packet now x) s)) c = Some (count_packet now x)"
    using assms(2) by (simp add: at_put_client)
  from handle_all_client [OF assms(6) this, of d] assms(3,4) obtain y where
    y: "heap_at (clients t) c = Some y" "m_Stage y = LOGGED_IN" "m_Decryptor y = Some ?d"
    by auto
  have b: "unread ?b = ?rest" by simp
  let ?b' = "advance (length (packet_header op n ?d)) ?b" and ?t = "put_client c (next_decryptor y) t"
  from decode_header [OF assms(7) b y(1,3)] obtain b1 where dec:
    "decode_packet_opcode c (-1) ?b t = Inr (op, b1, ?t)" "decode_packet_length op (-1) b1 = Inr (Some (int n), ?b')"
    "unread ?b' = part" "Remaining ?b' = int (length part)"
    by blast
  have at: "heap_at (clients ?t) c = Some (next_decryptor y)" using y(1) by (simp add: at_put_client)
  have op: "op \<noteq> -1"
    using assms(7) by (auto simp: length_ok_def unsigned_minus_1_eq_mask mask_numeral)
  have more: "HasRemaining ?b'" using dec(3) assms(8) by (simp add: HasRemaining_unread)
  have "input_loop gen c op (int n) ?b' ?t = None"
    by (rule input_loop_stuck [OF at _ op]) (use y(2) dec(4) assms(9) more in simp_all)
  moreover have "input_iteration gen c (-1) (-1) ?b t = Inr (Continue op (int n) ?b' ?t)"
    using y dec assms(9) by (simp add: input_iteration_def deref_def)
  moreover have "HasRemaining ?b" using b by (simp add: HasRemaining_unread packet_header_def)
  ultimately have "input_loop gen c (-1) (-1) ?b t = None" by (subst input_loop.simps) simp
  with chunk_start [OF assms(1-5), of gen ?rest] assms(6) show ?thesis by simp
qed

theorem partial_packet_hangs_witness:
  "HandleIncomingData 1 0 0 (StreamBuffer_data (packet_header 14 8 (ISAACCipher_new 0 1 0 2) @ [1, 2])) session_server = None"
proof -
  have ok: "length_ok 14 8" by code_simp
  have "m_PacketsThisSecond (count_packet 1 session_client) \<le> 100" using session_rate by simp
  from partial_packet_hangs [OF _ session_server_at session_client_fields(1,2) this _ ok, of "[]" _ "[1, 2]" 0]
  show ?thesis by simp
qed

text \<open>
  C28: a movement packet that is too short crashes the server. A packet with a movement opcode and fewer than four
  bytes of data (eighteen for opcode 248) makes the size of the vector of steps negative, and the
  exception \<open>std::length_error\<close> leaves \<open>HandleIncomingData\<close>, whatever the state of the player.
\<close>

theorem movement_too_short:
  assumes "heap_at (clients s) c = Some x" "m_Stage x = LOGGED_IN" "m_Decryptor x = Some d"
    and "m_PacketsThisSecond (count_packet now x) \<le> 100"
    and "op = 248 \<and> length body < 18 \<or> op \<in> {164, 98} \<and> length body < 4"
  shows "HandleIncomingData now gen c (StreamBuffer_data (packet_header op (length body) d @ body)) s = Some (Inl LengthError)"
proof -
  let ?n = "length body" and ?x = "count_packet now x" and ?b = "StreamBuffer_data (packet_header op (length body) d @ body)"
  let ?s = "put_client c ?x s"
  have tab: "PacketLengths ! 248 = -1" "PacketLengths ! 164 = -1" "PacketLengths ! 98 = -1" by code_simp+
  with assms(5) have ok: "length_ok op ?n" by (auto simp: length_ok_def)
  have at: "heap_at (clients ?s) c = Some ?x" using assms(1) by (simp add: at_put_client)
  have b: "unread ?b = packet_header op ?n d @ body" by simp
  let ?b' = "advance (length (packet_header op ?n d)) ?b"
  have "m_Decryptor ?x = Some d" using assms(3) by simp
  from decode_header [OF ok b at this] obtain b1 where dec:
    "decode_packet_opcode c (-1) ?b ?s = Inr (op, b1, put_client c (next_decryptor ?x) ?s)"
    "decode_packet_length op (-1) b1 = Inr (Some (int ?n), ?b')" "Remaining ?b' = int ?n"
    by blast
  have "packet_steps op (int ?n) < 0"
    using assms(5) by (auto simp: packet_steps_def signed_divide_int_def sgn_if)
  then have "HandlePacket c ?b' op (int ?n) t = Inl LengthError" for t
    using assms(5) by (auto simp: HandlePacket_def HandleMovement_def packet_steps_def Let_def)
  with dec at assms(2) have "input_iteration gen c (-1) (-1) ?b ?s = Inl LengthError"
    by (simp add: input_iteration_def deref_def)
  moreover have "HasRemaining ?b" by (simp add: HasRemaining_unread packet_header_def)
  ultimately have "input_loop gen c (-1) (-1) ?b ?s = Some (Inl LengthError)" by (subst input_loop.simps) simp
  then show ?thesis by (simp add: HandleIncomingData_eq [OF assms(1,4)])
qed

theorem movement_too_short_witness:
  "HandleIncomingData 1 0 0 (StreamBuffer_data (packet_header 98 2 (ISAACCipher_new 0 1 0 2) @ [7, 7])) session_server =
    Some (Inl LengthError)"
proof -
  have "m_PacketsThisSecond (count_packet 1 session_client) \<le> 100" using session_rate by simp
  from movement_too_short [OF session_server_at session_client_fields(1,2) this, of 98 "[7, 7]" 0]
  show ?thesis by (simp add: numeral_2_eq_2)
qed

text \<open>
  C21: received data cannot break the invariant of the server. Whatever bytes arrive, in whatever stage the client
  is: if \<open>HandleIncomingData\<close> returns, the invariant holds again, and if it faults, then it has read past the end of
  the data, computed a negative number of steps, used a player that no longer exists, or overflowed in
  \<open>std::abs\<close>.
\<close>

theorem input_safe:
  assumes "inv_during (Some c) s" "length bytes \<le> 512"
    and "HandleIncomingData now gen c (StreamBuffer_data bytes) s = Some r"
  shows "case r of Inr t \<Rightarrow> inv_during (Some c) t
    | Inl e \<Rightarrow> e \<in> {OutOfBounds, LengthError, NullPointer, SignedOverflow}"
  using HandleIncomingData_outcome [OF assms(1) _ assms(3)] assms(2)
  by (cases r) (simp_all add: packet_faults_def)

theorem input_safe_witness:
  "\<exists>t. HandleIncomingData 1 0 0 (StreamBuffer_data []) session_server = Some (Inr t) \<and> inv_during (Some 0) t"
proof -
  have "m_PacketsThisSecond (count_packet 1 session_client) \<le> 100" using session_rate by simp
  from HandleIncomingData_eq [OF session_server_at this, of 0 "StreamBuffer_data []"]
  have run: "HandleIncomingData 1 0 0 (StreamBuffer_data []) session_server =
      Some (Inr (put_client 0 (count_packet 1 session_client) session_server))"
    by (simp add: input_loop.simps HasRemaining_unread)
  with input_safe [OF session_server_inv _ run] show ?thesis by simp
qed

lemma inv_count_packets:
  assumes "inv_during h s" "heap_at (clients s) c = Some x"
  shows "inv_during h (put_client c (fold count_packet ts x) s)"
  using assms
proof (induction ts arbitrary: x s)
  case Nil
  then show ?case by (simp add: put_id)
next
  case (Cons t ts)
  have "heap_at (clients (put_client c (count_packet t x) s)) c = Some (count_packet t x)"
    using Cons.prems(2) by (simp add: at_put_client)
  from Cons.IH [OF inv_count_packet [OF Cons.prems] this] show ?case by simp
qed

text \<open>
  C27: the rate limit, in every window of one second. A window is opened by the first chunk of a client, and then by the
  first one at least a second after the window was opened. The hundred and first chunk within a
  window disconnects the client: its socket is closed, its stage is \<open>LOGGED_OUT\<close>, it is no longer in the table of
  sessions, and the invariant is kept. Every other chunk, one that opens the next window included, is handed to the loop.
\<close>

theorem flood_disconnects:
  assumes "inv_during (Some c) s" "heap_at (clients s) c = Some (fold count_packet (t0 # ts) x)"
    and "opens_window t0 x" "list_all (\<lambda>t. t - t0 < 1000000000) ts" "length ts \<le> 99"
  shows "if length ts = 99 \<and> now - t0 < 1000000000
    then \<exists>t y. HandleIncomingData now gen c b s = Some (Inr t) \<and> inv_during (Some c) t \<and>
      heap_at (clients t) c = Some y \<and> \<not> socket_open y \<and> m_Stage y = LOGGED_OUT \<and> c \<notin> set (m_Sessions t)
    else HandleIncomingData now gen c b s = map_option (\<lambda>r. bindR r (\<lambda>(b, t). Inr t))
      (input_loop gen c (-1) (-1) b (put_client c (count_packet now (fold count_packet (t0 # ts) x)) s))"
proof -
  let ?x = "fold count_packet (t0 # ts) x"
  let ?y = "count_packet now ?x" and ?s = "put_client c (count_packet now ?x) s"
  note w = window_count [OF assms(3-5)]
  have t0: "t0 \<noteq> 0" using assms(3) by (simp add: opens_window_def)
  have count: "unat (m_PacketsThisSecond ?y) = (if now - t0 < 1000000000 then length ts + 2 else 1)"
    using count_next [OF w(1) t0, of now] w(2) assms(5) by (simp add: unat_word_ariths del: fold_simps)
  show ?thesis
  proof (cases "length ts = 99 \<and> now - t0 < 1000000000")
    case True
    then have many: "m_PacketsThisSecond ?y > 100" using count by (simp add: word_less_nat_alt)
    have inv: "inv_during (Some c) ?s" by (rule inv_count_packet [OF assms(1,2)])
    have at: "heap_at (clients ?s) c = Some ?y" using assms(2) by (simp add: at_put_client)
    obtain t where t: "Disconnect c ?s = Inr t" "inv_during (Some c) t" "clients t = clients (put_client c (closed ?y) ?s)"
      using sys_inv_Disconnect [OF inv at] .
    have ct: "heap_at (clients t) c = Some (closed ?y)" using assms(2) unfolding t(3) by (simp add: at_put_client)
    moreover from sys_invD(6) [OF t(2) ct] have "\<not> socket_open (closed ?y) \<and> m_Stage (closed ?y) = LOGGED_OUT"
      by (simp add: session_ok_def)
    moreover from sys_invD(2) [OF t(2)] ct have "c \<notin> set (m_Sessions t)" by (auto simp: sessions_ok_def)
    moreover have "HandleIncomingData now gen c b s = Some (Inr t)"
      using many t(1) at assms(2)
      by (simp add: HandleIncomingData_def on_client_eq deref_def MAX_PACKETS_PER_SECOND_def del: fold_simps)
    ultimately show ?thesis using t(2) True by auto
  next
    case False
    then have "unat (m_PacketsThisSecond ?y) \<le> 100" using count assms(5) by auto
    then have "m_PacketsThisSecond ?y \<le> 100" by (simp add: word_le_nat_alt)
    from HandleIncomingData_eq [OF assms(2) this] show ?thesis unfolding if_not_P [OF False] .
  qed
qed

theorem flood_disconnects_witness:
  "\<exists>s t. HandleIncomingData 2000000003 0 0 (StreamBuffer_data [0]) s = Some (Inr t) \<and> inv_during (Some 0) t \<and>
     0 \<notin> set (m_Sessions t)"
proof -
  let ?x = "fold count_packet (replicate 60 1) session_client"
  let ?ts = "replicate 99 (2000000002 :: int)"
  let ?s = "put_client 0 (fold count_packet (replicate 60 1 @ 2000000001 # ?ts) session_client) session_server"
  have inv: "inv_during (Some 0) ?s" by (rule inv_count_packets [OF session_server_inv session_server_at])
  have at: "heap_at (clients ?s) 0 = Some (fold count_packet (2000000001 # ?ts) ?x)"
    using session_server_at unfolding fold_append comp_def by (simp add: at_put_client)
  have one: "replicate 60 (1 :: int) = 1 # replicate 59 1" by (simp add: numeral_eq_Suc)
  have "opens_window 1 session_client" by (simp add: opens_window_def session_client_fields)
  then have "m_LastPacketSecond ?x = 1"
    unfolding one by (rule window_count(1)) (simp_all add: list_all_iff)
  then have "opens_window 2000000001 ?x" by (simp add: opens_window_def)
  from flood_disconnects [OF inv at this, where now = 2000000003 and gen = 0 and b = "StreamBuffer_data [0]"]
  have "\<exists>t y. HandleIncomingData 2000000003 0 0 (StreamBuffer_data [0]) ?s = Some (Inr t) \<and> inv_during (Some 0) t \<and>
      heap_at (clients t) 0 = Some y \<and> \<not> socket_open y \<and> m_Stage y = LOGGED_OUT \<and> 0 \<notin> set (m_Sessions t)"
    by (simp add: list_all_iff del: fold_simps fold_append fold_replicate)
  then show ?thesis by blast
qed

end
