(* ===== verification/Client_Loop.thy ===== *)
theory Client_Loop
  imports Client_Requests
begin

text \<open>
  Termination of the loop of \<open>Client::HandleIncomingData\<close>: a bounded number of iterations decides whether it ever
  ends, because an iteration either consumes input or, from then on, repeats forever.
\<close>

section \<open>Bounded iteration\<close>

text \<open>The loop with at most \<open>n\<close> iterations; \<open>None\<close> if it has not ended by then.\<close>

primrec input_steps ::
  "nat \<Rightarrow> u64 \<Rightarrow> ref \<Rightarrow> i32 \<Rightarrow> int \<Rightarrow> StreamBuffer \<Rightarrow> System \<Rightarrow> (fault + StreamBuffer \<times> System) option" where
  "input_steps 0 gen c packetOpcode packetLength inStream s = None"
| "input_steps (Suc n) gen c packetOpcode packetLength inStream s =
     (if \<not> HasRemaining inStream then Some (Inr (inStream, s))
      else case input_iteration gen c packetOpcode packetLength inStream s of
             Inl e \<Rightarrow> Some (Inl e)
           | Inr (Break inStream s) \<Rightarrow> Some (Inr (inStream, s))
           | Inr (Continue packetOpcode packetLength inStream s) \<Rightarrow>
               input_steps n gen c packetOpcode packetLength inStream s)"

lemma input_steps_loop:
  "input_steps n gen c packetOpcode packetLength b s = Some r \<Longrightarrow> input_loop gen c packetOpcode packetLength b s = Some r"
proof (induction n arbitrary: packetOpcode packetLength b s)
  case (Suc n)
  from Suc.prems show ?case
    by (subst input_loop.simps) (auto split: if_splits sum.splits iteration.splits dest: Suc.IH)
qed simp

section \<open>Handling a packet moves forward in the input\<close>

lemma outcome_any [simp]: "outcome UNIV (\<lambda>_. True) r"
  by (cases r) simp_all

abbreviation moves :: "StreamBuffer \<Rightarrow> fault + StreamBuffer \<times> System \<Rightarrow> bool" where
  "moves b \<equiv> outcome UNIV (\<lambda>(b', t). reads b b')"

lemma moves_state: "(\<And>t. moves b (k t)) \<Longrightarrow> moves b (bindR m k)"
  by (rule outcome_bind [OF outcome_any]) simp_all

lemma moves_read:
  "reads b0 b \<Longrightarrow> only_reads b m \<Longrightarrow> (\<And>v b'. reads b0 b' \<Longrightarrow> moves b0 (k v b')) \<Longrightarrow> moves b0 (bindR m (\<lambda>(v, b'). k v b'))"
  by (rule outcome_read [where F = UNIV, unfolded insert_UNIV])

lemma ReadStep_only: "only_reads b (ReadStep b)"
  by (auto simp: ReadStep_def intro!: only_reads_bind ReadByte_only)

lemma HandleMovement_moves: "reads b0 b \<Longrightarrow> moves b0 (HandleMovement c op len b s)"
  unfolding HandleMovement_def Let_def
  by (rule outcome_if, simp, rule moves_read [OF _ ReadShort_only], assumption, simp,
      rule moves_read [OF _ read_n_only [OF ReadStep_only]], assumption, rule moves_read [OF _ ReadShort_only], assumption,
      simp, rule moves_state, rule moves_read [OF _ ReadByte_only], assumption, (rule moves_state)+, simp)

lemma HandlePacket_moves: "moves b (HandlePacket c b op len s)"
proof -
  have "moves b (if op = 248 \<or> op = 164 \<or> op = 98 then HandleMovement c op len b s else Inr (b, s))"
    by (simp add: HandleMovement_moves)
  then show ?thesis
    unfolding HandlePacket_def Let_def
    by (rule outcome_bind) (auto intro!: moves_read [OF _ read_n_only [OF ReadByte_only]])
qed

section \<open>Progress\<close>

lemma decode_opcode_valid: "fst (decode_opcode byte d) \<noteq> -1" "unat (fst (decode_opcode byte d)) < 256"
proof -
  have "unat ((w :: i32) AND 0xFF) < 256" for w
    using word_and_le1 [of w "0xFF"] by (simp add: word_le_nat_alt and.commute)
  then show *: "unat (fst (decode_opcode byte d)) < 256" by (simp add: decode_opcode_def Let_def split_beta)
  show "fst (decode_opcode byte d) \<noteq> -1"
  proof
    assume eq: "fst (decode_opcode byte d) = -1"
    have max: "unat (-1 :: i32) = 4294967295" by (simp add: unsigned_minus_1_eq_mask mask_eq_exp_minus_1)
    have "(4294967295 :: nat) < 256" using * unfolding eq max .
    then show False by simp
  qed
qed

text \<open>An iteration that starts with a new packet consumes input, and goes on with a new packet or is stuck.\<close>

definition stuck :: "ref \<Rightarrow> i32 \<Rightarrow> int \<Rightarrow> StreamBuffer \<Rightarrow> System \<Rightarrow> bool" where
  "stuck c op len b s \<longleftrightarrow>
     (\<exists>x. heap_at (clients s) c = Some x \<and> m_Stage x = LOGGED_IN) \<and> op \<noteq> -1 \<and> len \<noteq> -1 \<and> Remaining b < len"

lemma ReadByte_forward: "ReadByte isSigned type b = Inr (v, b') \<Longrightarrow> reads (advance 1 b) b' \<and> HasRemaining b"
  by (auto simp: ReadByte_def HasRemaining_def reads_def advance_def Let_def fault_simps split: if_splits)

lemma iteration_progress:
  assumes "input_iteration gen c (-1) (-1) b s = Inr (Continue op len b' t)"
  shows "reads (advance 1 b) b'" "op = -1 \<and> len = -1 \<or> stuck c op len b' t"
proof -
  obtain x where x: "heap_at (clients s) c = Some x" "m_Stage x = LOGGED_IN"
    using assms by (auto simp: input_iteration_def fault_simps split: if_splits)
  obtain op1 b1 t1 where op1: "decode_packet_opcode c (-1) b s = Inr (op1, b1, t1)"
    and rest: "bindR (decode_packet_length op1 (-1) b1) (\<lambda>(packetLength, b).
         case packetLength of
           None \<Rightarrow> Inr (Break b t1)
         | Some packetLength \<Rightarrow>
             if Remaining b \<ge> packetLength
             then bindR (HandlePacket c b op1 packetLength t1) (\<lambda>(b, s). Inr (Continue (-1) (-1) b s))
             else Inr (Continue op1 packetLength b t1)) = Inr (Continue op len b' t)"
    using assms x by (auto simp: input_iteration_def deref_def fault_simps)
  obtain byte d where d: "reads (advance 1 b) b1" "op1 = fst (decode_opcode byte d)"
    "t1 = put_client c (x\<lparr>m_Decryptor := Some (snd (decode_opcode byte d))\<rparr>) s"
    using op1 x by (auto simp: decode_packet_opcode_def fault_simps deref_def Let_def split_beta dest!: ReadByte_forward)
  have at: "heap_at (clients t1) c = Some (x\<lparr>m_Decryptor := Some (snd (decode_opcode byte d))\<rparr>)"
    using x(1) by (simp add: d(3) at_put_client)
  obtain l b2 where l: "decode_packet_length op1 (-1) b1 = Inr (l, b2)"
    using rest by (auto simp: fault_simps)
  have b2: "reads b1 b2" using decode_packet_length_only [of b1 op1 "-1"] l by simp
  obtain n where n: "l = Some n" using rest l by (cases l) simp_all
  have "uint w \<noteq> -1" for w :: i32 using uint_nonnegative [of w] by linarith
  then have "n \<noteq> -1"
    using l unfolding n decode_packet_length_def Let_def by (auto simp: fault_simps split: if_splits)
  have "reads (advance 1 b) b' \<and> (op = -1 \<and> len = -1 \<or> stuck c op len b' t)"
  proof (cases "Remaining b2 \<ge> n")
    case True
    with rest l n obtain u where u: "HandlePacket c b2 op1 n t1 = Inr (b', u)" "op = -1" "len = -1"
      by (auto simp: fault_simps)
    then have "reads b2 b'" using HandlePacket_moves [of b2 c op1 n t1] by simp
    with d(1) b2 u show ?thesis
      by (auto intro: reads_trans)
  next
    case False
    with rest l n have "op = op1" "len = n" "b' = b2" "t = t1" by simp_all
    with False d b2 at x(2) \<open>n \<noteq> -1\<close> decode_opcode_valid(1)
    show ?thesis by (auto simp: stuck_def intro: reads_trans)
  qed
  then show "reads (advance 1 b) b'" "op = -1 \<and> len = -1 \<or> stuck c op len b' t" by blast+
qed

lemma input_steps_stuck:
  assumes "stuck c op len b s" "HasRemaining b"
  shows "input_loop gen c op len b s = None" "input_steps n gen c op len b s = None"
proof -
  from assms show "input_loop gen c op len b s = None" by (auto simp: stuck_def intro: input_loop_stuck)
  then show "input_steps n gen c op len b s = None"
    using input_steps_loop [of n gen c op len b s] by (cases "input_steps n gen c op len b s") auto
qed

lemma input_loop_steps:
  assumes "nat (Remaining b) < n"
  shows "input_loop gen c (-1) (-1) b s = input_steps n gen c (-1) (-1) b s"
  using assms
proof (induction n arbitrary: b s)
  case (Suc n)
  show ?case
  proof (cases "HasRemaining b")
    case True
    then have pos: "0 < Remaining b" by (simp add: HasRemaining_def Remaining_def)
    have "input_loop gen c op len b' t = input_steps n gen c op len b' t"
      if it: "input_iteration gen c (-1) (-1) b s = Inr (Continue op len b' t)" for op len b' t
    proof -
      note progress = iteration_progress [OF it]
      have "Remaining b' < Remaining b"
        using progress(1) by (auto simp: reads_def Remaining_def advance_def)
      with pos Suc.prems have less: "nat (Remaining b') < n" by simp
      show ?thesis
      proof (cases "op = -1 \<and> len = -1")
        case True
        with Suc.IH [OF less] show ?thesis by simp
      next
        case False
        with progress(2) have "stuck c op len b' t" by blast
        show ?thesis
        proof (cases "HasRemaining b'")
          case True
          with \<open>stuck c op len b' t\<close> show ?thesis by (simp only: input_steps_stuck)
        next
          case False
          with less show ?thesis by (cases n) (simp_all add: input_loop.simps)
        qed
      qed
    qed
    with True show ?thesis
      by (subst input_loop.simps) (simp split: sum.split iteration.split)
  qed (simp add: input_loop.simps)
qed simp

section \<open>Property\<close>

text \<open>
  C20: termination of the loop is decided within one iteration more than there are bytes left. From the start of a
  packet, in any state and on any data, the loop returns exactly if it returns within that many iterations, and then
  with the same result: each iteration consumes a byte, ends the loop, or leaves a state that no longer changes.
\<close>

theorem input_loop_bound:
  "input_loop gen c (-1) (-1) b s = input_steps (Suc (nat (Remaining b))) gen c (-1) (-1) b s"
  by (rule input_loop_steps) simp

end
