(* ===== verification/Client_Strand.thy ===== *)
theory Client_Strand
  imports Client_Requests
begin

text \<open>
  The handlers that run on the strand of a client (\<open>src/src/Client.cpp\<close>): the functions posted by \<open>Send\<close> and
  \<open>RequestDisconnect\<close>, and the completion handlers of reads and writes. A strand runs its handlers one at a time, in
  the order in which they were posted. Every handler keeps the invariant of the server; the handlers of the write
  path never fault, and lose and reorder no data.
\<close>

section \<open>Definitions\<close>

text \<open>The completion handler of \<open>ReadIncomingData\<close>; \<open>None\<close> stands for an error code.\<close>

definition read_done :: "int \<Rightarrow> u64 \<Rightarrow> i8 list option \<Rightarrow> ref \<Rightarrow> System \<Rightarrow> (fault + System) option" where
  "read_done now gen result c s =
     (case result of
        Some data \<Rightarrow>
          map_option (\<lambda>r. bindR r (on_client c ReadIncomingData))
            (HandleIncomingData now gen c (StreamBuffer_data data) s)
      | None \<Rightarrow> Some (Disconnect c s))"

primrec run_handler :: "int \<Rightarrow> u64 \<Rightarrow> handler \<Rightarrow> ref \<Rightarrow> System \<Rightarrow> (fault + System) option" where
  "run_handler now gen (SendTask data) c s = Some (on_client c (send_task data) s)"
| "run_handler now gen RequestDisconnectTask c s = Some (disconnect_task c s)"
| "run_handler now gen (ReadDone result) c s = read_done now gen result c s"
| "run_handler now gen (WriteDone ok) c s = Some (write_done ok c s)"

text \<open>The strand takes its first handler and runs it.\<close>

definition run_strand :: "int \<Rightarrow> u64 \<Rightarrow> ref \<Rightarrow> System \<Rightarrow> (fault + System) option" where
  "run_strand now gen c s =
     (case heap_at (clients s) c of
        None \<Rightarrow> Some (Inr s)
      | Some x \<Rightarrow>
          (case m_Strand x of
             [] \<Rightarrow> Some (Inr s)
           | h # hs \<Rightarrow> run_handler now gen h c (put_client c (x\<lparr>m_Strand := hs\<rparr>) s)))"

lemma run_strand_eq:
  "heap_at (clients s) c = Some x \<Longrightarrow> m_Strand x = h # hs \<Longrightarrow>
   run_strand now gen c s = run_handler now gen h c (put_client c (x\<lparr>m_Strand := hs\<rparr>) s)"
  by (simp add: run_strand_def)

section \<open>Taking a handler from the strand\<close>

lemma strand_ok_pop:
  assumes "strand_ok x" "m_Strand x = h # hs" "\<forall>r. h \<noteq> ReadDone r"
  shows "strand_ok (x\<lparr>m_Strand := hs\<rparr>)"
  using assms by (cases h) (auto simp: strand_ok_def split: if_splits)

lemma inv_pop:
  assumes "sys_inv s" "heap_at (clients s) c = Some x" "m_Strand x = h # hs"
    and "same_session x y" "write_wf y" "m_Strand y = hs" "reading y = reading x" "\<forall>r. h \<noteq> ReadDone r"
  shows "sys_inv (put_client c y s)"
proof (rule sys_inv_client [OF assms(1,2,4)])
  have "strand_ok x" using sys_invD(5) [OF assms(1,2)] by (simp add: io_ok_def)
  from strand_ok_pop [OF this assms(3,8)] assms(4,6,7) have "strand_ok y"
    by (auto simp: strand_ok_def same_session_def split: if_splits)
  with assms(5) show "io_ok None c y" by (simp add: io_ok_def)
qed

text \<open>Disconnecting works the same for any state of the queue and the strand.\<close>

lemma Disconnect_put:
  assumes "sys_inv s" "heap_at (clients s) c = Some x" "\<not> m_Disconnected x" "same_session x y"
    and "Disconnect c s = Inr t"
  shows "Disconnect c (put_client c y s) = Inr (put_client c (closed y) t)"
proof -
  have on: "m_OnDisconnect x = Some c" using sys_invD(6) [OF assms(1,2)] by (simp add: session_ok_def)
  have y: "\<not> m_Disconnected y" "m_OnDisconnect y = Some c" "m_ClientUsername y = m_ClientUsername x" "m_Player y = m_Player x"
    using assms(3,4) on by (simp_all add: same_session_def)
  obtain u where u: "(if GetPlayer x s = None then Inr s else RemovePlayer (m_ClientUsername x) s) = Inr u"
    "Disconnect c s = Inr ((put_client c (closed x) u)\<lparr>m_Sessions := removeAll c (m_Sessions s)\<rparr>)"
    using Disconnect_eq [OF assms(2,3) on sys_invD(3) [OF assms(1)]] .
  let ?s = "put_client c y s"
  have at: "heap_at (clients ?s) c = Some y" using assms(2) by (simp add: at_put_client)
  have wf: "registry_wf ?s" using sys_invD(3) [OF assms(1)] by simp
  obtain v where v: "(if GetPlayer y ?s = None then Inr ?s else RemovePlayer (m_ClientUsername y) ?s) = Inr v"
    "Disconnect c ?s = Inr ((put_client c (closed y) v)\<lparr>m_Sessions := removeAll c (m_Sessions ?s)\<rparr>)"
    using Disconnect_eq [OF at y(1,2) wf] .
  have "GetPlayer y ?s = GetPlayer x s" by (simp add: GetPlayer_def y(4) split: option.split)
  with u(1) v(1) have "v = put_client c y u" by (auto simp: y(3) RemovePlayer_put_client split: if_splits)
  with u(2) v(2) assms(5) show ?thesis by simp
qed

lemma inv_disconnect_pop:
  assumes "sys_inv s" "heap_at (clients s) c = Some x" "same_session x y" "io_ok None c (closed y)" "grows x y"
  obtains t where "Disconnect c (put_client c y s) = Inr t" "sys_inv t" "heap_at (clients t) c = Some (closed y)"
    "effect_of c s t"
proof (cases "m_Disconnected x")
  case True
  then have y: "m_Disconnected y" using assms(3) by (simp add: same_session_def)
  then have "closed y = y" by (simp add: closed_def)
  with assms have "sys_inv (put_client c y s)" by (intro sys_inv_client [OF assms(1,2)]) simp_all
  with y assms(2) \<open>closed y = y\<close> quiet_of [OF quiet_put_client [OF assms(2,5)]] show ?thesis
    by (intro that [of "put_client c y s"]) (simp_all add: Disconnect_def deref_def at_put_client)
next
  case False
  obtain t where t: "Disconnect c s = Inr t" "sys_inv t" "clients t = clients (put_client c (closed x) s)"
    using sys_inv_Disconnect [OF assms(1,2)] .
  have at: "heap_at (clients t) c = Some (closed x)" using assms(2) by (simp add: t(3) at_put_client)
  have "same_session (closed x) (closed y)"
    using assms(3) by (simp add: same_session_def closed_def)
  then have "sys_inv (put_client c (closed y) t)" using assms(4) by (intro sys_inv_client [OF t(2) at])
  moreover have "heap_at (clients (put_client c (closed y) t)) c = Some (closed y)" using at by (simp add: at_put_client)
  moreover have "effect_of c s (put_client c (closed y) t)"
    by (rule effect_of_put_client [OF effect_of_Disconnect [OF assms(1,2) t(1)] assms(2) at grows_trans [OF assms(5) grows_closed]])
  ultimately show ?thesis using Disconnect_put [OF assms(1,2) False assms(3) t(1)] by (intro that)
qed

section \<open>The write path\<close>

text \<open>
  A handler of the write path: it returns, keeps the invariant and the data, and disconnects the client only if
  the write failed or the queue is empty.
\<close>

definition write_handled :: "ref \<Rightarrow> System \<Rightarrow> Client \<Rightarrow> handler list \<Rightarrow> bool \<Rightarrow> fault + System \<Rightarrow> bool" where
  "write_handled c s x hs ok r \<longleftrightarrow>
     (\<exists>t y. r = Inr t \<and> sys_inv t \<and> effect_of c s t \<and> heap_at (clients t) c = Some y \<and> m_Strand y = hs \<and>
       reading y = reading x \<and> posted y = posted x \<and> sent y = sent x \<and> (m_Disconnected y \<longrightarrow> m_Disconnected x \<or> \<not> ok \<or> m_WriteQueue y = []))"

lemma write_handledI:
  assumes "sys_inv s" "heap_at (clients s) c = Some x" "m_Strand x = h # hs" "\<forall>r. h \<noteq> ReadDone r"
    and "same_session x y" "write_wf y" "m_Strand y = hs" "reading y = reading x" "posted y = posted x" "sent y = sent x"
    and "m_Encryptor y = m_Encryptor x"
  shows "write_handled c s x hs ok (Inr (put_client c y s))"
proof -
  have "grows x y" using assms(5,9-11) by (intro grows_same) (simp_all add: same_session_def)
  from quiet_of [OF quiet_put_client [OF assms(2) this]] show ?thesis
    using inv_pop [OF assms(1-3,5-8,4)] assms(2,5,7-10)
    by (auto simp: write_handled_def at_put_client same_session_def)
qed

lemma send_task_frame:
  assumes "send_task data x = Inr y"
  shows "\<exists>queue op. y = x\<lparr>m_WriteQueue := queue, m_Writing := True, write_op := op\<rparr>"
proof (cases "m_Writing x")
  case True
  with assms have "y = x\<lparr>m_WriteQueue := m_WriteQueue x @ [data], m_Writing := True, write_op := write_op x\<rparr>"
    by (cases x) (auto simp: send_task_def)
  then show ?thesis by blast
next
  case False
  with assms show ?thesis
    by (auto simp: send_task_def DoWrite_def Let_def split: list.splits if_splits)
qed

lemma send_handled:
  assumes "sys_inv s" "heap_at (clients s) c = Some x" "m_Strand x = SendTask data # hs"
  shows "write_handled c s x hs True (on_client c (send_task data) (put_client c (x\<lparr>m_Strand := hs\<rparr>) s))"
proof -
  have wf: "write_wf x" using sys_invD(5) [OF assms(1,2)] by (simp add: io_ok_def)
  obtain y where y: "send_task data (x\<lparr>m_Strand := hs\<rparr>) = Inr y" "write_wf y" "posted y = posted x" "m_Strand y = hs"
    using send_task_ok [OF wf assms(3)] by blast
  from send_task_frame [OF y(1)] have "same_session x y" "reading y = reading x" "sent y = sent x" "m_Encryptor y = m_Encryptor x"
    by (auto simp: same_session_def)
  with y write_handledI [OF assms(1-3)] show ?thesis by (simp add: on_client_put [OF assms(2)])
qed

lemma disconnect_handled:
  assumes "sys_inv s" "heap_at (clients s) c = Some x" "m_Strand x = RequestDisconnectTask # hs"
  shows "write_handled c s x hs True (disconnect_task c (put_client c (x\<lparr>m_Strand := hs\<rparr>) s))"
proof -
  let ?y = "x\<lparr>m_Strand := hs, m_PendingDisconnect := True\<rparr>"
  let ?s = "put_client c ?y s"
  have wf: "write_wf x" "strand_ok x" using sys_invD(5) [OF assms(1,2)] by (simp_all add: io_ok_def)
  have y: "write_wf ?y" "posted ?y = posted x" "same_session x ?y"
    using wf(1) assms(3) by (auto simp: write_wf_def posted_def same_session_def split: option.splits if_splits)
  have inv: "sys_inv ?s" by (rule inv_pop [OF assms(1-3) y(3,1)]) simp_all
  have at: "heap_at (clients ?s) c = Some ?y" using assms(2) by (simp add: at_put_client)
  have run: "disconnect_task c (put_client c (x\<lparr>m_Strand := hs\<rparr>) s) =
      (if \<not> m_Writing x \<and> m_WriteQueue x = [] then Disconnect c ?s else Inr ?s)"
    using assms(2) by (simp add: disconnect_task_def on_client_put deref_def at_put_client)
  obtain t where t: "Disconnect c ?s = Inr t" "sys_inv t" "clients t = clients (put_client c (closed ?y) ?s)"
    using sys_inv_Disconnect [OF inv at] .
  have "grows x ?y" using y(2) by (intro grows_same) simp_all
  then have eff: "effect_of c s t"
    by (rule quiet_effect_of [OF quiet_put_client [OF assms(2)] effect_of_Disconnect [OF inv at t(1)]])
  have "heap_at (clients t) c = Some (closed ?y)" using assms(2) by (simp add: t(3) at_put_client)
  then have "write_handled c s x hs True (Disconnect c ?s)" if "m_WriteQueue x = []"
    using t(1,2) that y(2) eff closed_ok(2) [of ?y] by (auto simp: write_handled_def)
  with run write_handledI [OF assms(1-3) _ y(3,1)] y(2) show ?thesis by auto
qed

lemma write_failed:
  assumes "sys_inv s" "heap_at (clients s) c = Some x" "m_Strand x = WriteDone False # hs"
  shows "write_handled c s x hs False (write_done False c (put_client c (x\<lparr>m_Strand := hs\<rparr>) s))"
proof -
  let ?y = "x\<lparr>m_Strand := hs\<rparr>"
  have wf: "write_wf x" "strand_ok x" using sys_invD(5) [OF assms(1,2)] by (simp_all add: io_ok_def)
  have w: "m_Writing x" "m_WriteQueue x \<noteq> []" "write_op x = None" "write_results hs = []"
    using wf(1) assms(3) by (auto simp: write_wf_def split: if_splits option.splits)
  have ses: "same_session x ?y" by (simp add: same_session_def)
  have "strand_ok ?y" by (rule strand_ok_pop [OF wf(2) assms(3)]) simp
  then have "strand_ok (closed ?y)" by (auto simp: strand_ok_def split: if_splits)
  moreover have "write_wf (closed ?y)" using w by (simp add: write_wf_def)
  ultimately have "io_ok None c (closed ?y)" by (simp add: io_ok_def)
  moreover have post: "posted ?y = posted x" using w(4) assms(3) by (simp add: posted_def)
  then have "grows x ?y" by (intro grows_same) simp_all
  ultimately obtain t where "Disconnect c (put_client c ?y s) = Inr t" "sys_inv t"
    "heap_at (clients t) c = Some (closed ?y)" "effect_of c s t"
    by (rule inv_disconnect_pop [OF assms(1,2) ses])
  moreover have "posted (closed ?y) = posted x" using post closed_ok(2) [of ?y] by simp
  ultimately show ?thesis by (simp add: write_done_def write_handled_def)
qed

lemma write_succeeded:
  assumes "sys_inv s" "heap_at (clients s) c = Some x" "m_Strand x = WriteDone True # hs"
  shows "write_handled c s x hs True (write_done True c (put_client c (x\<lparr>m_Strand := hs\<rparr>) s))"
proof -
  have wf: "write_wf x" using sys_invD(5) [OF assms(1,2)] by (simp add: io_ok_def)
  then obtain data queue where w: "m_Writing x" "m_WriteQueue x = data # queue" "write_op x = None" "write_results hs = []"
    using assms(3) by (auto simp: write_wf_def neq_Nil_conv split: if_splits option.splits)
  have at: "heap_at (clients (put_client c (x\<lparr>m_Strand := hs\<rparr>) s)) c = Some (x\<lparr>m_Strand := hs\<rparr>)"
    using assms(2) by (simp add: at_put_client)
  show ?thesis
  proof (cases queue)
    case (Cons nxt rest)
    let ?y = "x\<lparr>m_Strand := hs, m_WriteQueue := queue, m_Writing := True, write_op := Some nxt\<rparr>"
    have "write_done True c (put_client c (x\<lparr>m_Strand := hs\<rparr>) s) = Inr (put_client c ?y s)"
      using w Cons at by (simp add: write_done_def deref_def DoWrite_def Let_def)
    moreover have "write_wf ?y" "posted ?y = posted x" "same_session x ?y"
      using w assms(3) Cons by (simp_all add: write_wf_def posted_def same_session_def)
    ultimately show ?thesis using write_handledI [OF assms(1-3)] by simp
  next
    case Nil
    let ?y = "x\<lparr>m_Strand := hs, m_WriteQueue := [], m_Writing := False\<rparr>"
    let ?s = "put_client c ?y s"
    have y: "write_wf ?y" "posted ?y = posted x" "same_session x ?y"
      using w assms(3) Nil by (simp_all add: write_wf_def posted_def same_session_def)
    have run: "write_done True c (put_client c (x\<lparr>m_Strand := hs\<rparr>) s) =
        (if m_PendingDisconnect x
         then bindR (Disconnect c ?s) (on_client c (\<lambda>x. Inr (x\<lparr>m_PendingDisconnect := False\<rparr>))) else Inr ?s)"
      using w Nil at by (simp add: write_done_def deref_def Let_def)
    have inv: "sys_inv ?s" by (rule inv_pop [OF assms(1-3) y(3,1)]) simp_all
    have at': "heap_at (clients ?s) c = Some ?y" using assms(2) by (simp add: at_put_client)
    obtain t where t: "Disconnect c ?s = Inr t" "sys_inv t" "clients t = clients (put_client c (closed ?y) ?s)"
      using sys_inv_Disconnect [OF inv at'] .
    let ?z = "(closed ?y)\<lparr>m_PendingDisconnect := False\<rparr>"
    have ct: "heap_at (clients t) c = Some (closed ?y)" using assms(2) by (simp add: t(3) at_put_client)
    have "grows x ?y" using y(2) by (intro grows_same) simp_all
    then have eff: "effect_of c s t"
      by (rule quiet_effect_of [OF quiet_put_client [OF assms(2)] effect_of_Disconnect [OF inv at' t(1)]])
    have "grows (closed ?y) ?z" by (rule grows_same) (simp_all add: posted_def)
    from effect_of_quiet [OF eff quiet_put_client [OF ct this]] have eff': "effect_of c s (put_client c ?z t)" .
    have "sys_inv (put_client c ?z t)"
      by (rule sys_inv_client [OF t(2) ct])
        (auto simp: same_session_def intro: io_ok_cong [OF sys_invD(5) [OF t(2) ct]])
    moreover have "posted ?z = posted ?y" by (simp add: posted_def)
    ultimately have "write_handled c s x hs True
        (bindR (Disconnect c ?s) (on_client c (\<lambda>x. Inr (x\<lparr>m_PendingDisconnect := False\<rparr>))))"
      using t(1) ct y(2) eff' by (simp add: write_handled_def on_client_eq at_put_client)
    with run write_handledI [OF assms(1-3) _ y(3,1)] y(2) show ?thesis by simp
  qed
qed

lemma write_handler:
  assumes "sys_inv s" "heap_at (clients s) c = Some x" "m_Strand x = h # hs" "\<forall>r. h \<noteq> ReadDone r"
  shows "\<exists>r. run_strand now gen c s = Some r \<and> write_handled c s x hs (h \<noteq> WriteDone False) r"
proof (cases h)
  case (WriteDone ok)
  with assms run_strand_eq [OF assms(2,3)] write_failed write_succeeded show ?thesis by (cases ok) simp_all
qed (use assms run_strand_eq [OF assms(2,3)] send_handled disconnect_handled in simp_all)

section \<open>The read path\<close>

lemma inv_enter_read:
  assumes "sys_inv s" "heap_at (clients s) c = Some x" "m_Strand x = ReadDone result # hs"
  defines "y \<equiv> x\<lparr>m_Strand := hs\<rparr>"
  shows "inv_during (Some c) (put_client c y s)" "read_fits result" "RequestDisconnectTask \<notin> set hs" "\<not> reading x"
    "read_results hs = []" "write_wf y"
proof -
  have x: "write_wf x" "strand_ok x" using sys_invD(5) [OF assms(1,2)] by (simp_all add: io_ok_def)
  show r: "read_fits result" "RequestDisconnectTask \<notin> set hs" "\<not> reading x" "read_results hs = []"
    using x(2) assms(3) by (auto simp: strand_ok_def split: if_splits)
  show wf: "write_wf y" using x(1) assms(3) by (auto simp: y_def write_wf_def split: option.splits if_splits)
  have "io_ok (Some c) c y" using r wf by (simp add: io_ok_def strand_ok_def y_def)
  then show "inv_during (Some c) (put_client c y s)"
    by (intro inv_switch [OF assms(1,2)]) (simp_all add: same_session_def y_def)
qed

text \<open>
  The handler of a completed read: if it returns, the invariant holds, and its only faults are those of the
  received data.
\<close>

lemma read_handler:
  assumes "sys_inv s" "heap_at (clients s) c = Some x" "m_Strand x = ReadDone result # hs"
    and "run_strand now gen c s = Some r"
  shows "outcome packet_faults (\<lambda>t. sys_inv t \<and> effect_of c s t) r"
proof -
  let ?y = "x\<lparr>m_Strand := hs\<rparr>" and ?s = "put_client c (x\<lparr>m_Strand := hs\<rparr>) s"
  note enter = inv_enter_read [OF assms(1-3)]
  have at: "heap_at (clients ?s) c = Some ?y" using assms(2) by (simp add: at_put_client)
  have "grows x ?y" by (rule grows_strand) (simp_all add: assms(3))
  note quiet = quiet_put_client [OF assms(2) this]
  have run: "read_done now gen result c ?s = Some r" using run_strand_eq [OF assms(2,3)] assms(4) by simp
  show ?thesis
  proof (cases result)
    case None
    obtain t where t: "Disconnect c ?s = Inr t" "inv_during (Some c) t" "clients t = clients (put_client c (closed ?y) ?s)"
      using sys_inv_Disconnect [OF enter(1) at] .
    have ct: "heap_at (clients t) c = Some (closed ?y)" using assms(2) by (simp add: t(3) at_put_client)
    have "io_ok None c (closed ?y)"
      using enter(3-6) closed_ok(1) [of ?y] by (simp add: io_ok_def strand_ok_def)
    then have "sys_inv (put_client c (closed ?y) t)" by (intro inv_switch [OF t(2) ct]) simp_all
    with None run t(1) put_id [OF ct] quiet_effect_of [OF quiet effect_of_Disconnect [OF enter(1) at t(1)]]
    show ?thesis by (auto simp: read_done_def)
  next
    case (Some data)
    then have len: "length data \<le> 1024" using enter(2) by (simp add: read_fits_def BUFFER_SIZE_def)
    obtain r0 where r0: "HandleIncomingData now gen c (StreamBuffer_data data) ?s = Some r0"
      "r = bindR r0 (on_client c ReadIncomingData)"
      using run Some by (auto simp: read_done_def)
    have start: "outcome packet_faults (\<lambda>u. sys_inv u \<and> effect_of c s u) (on_client c ReadIncomingData t)"
      if "inv_during (Some c) t \<and> effect_of c ?s t" for t
    proof -
      from that have inv: "inv_during (Some c) t" and eff: "effect_of c s t"
        using quiet_effect_of [OF quiet] by blast+
      obtain z where z: "heap_at (clients t) c = Some z" using sys_invD(8) [OF inv] by auto
      have "grows z (z\<lparr>reading := True\<rparr>)" by (rule grows_strand) simp_all
      from effect_of_quiet [OF eff quiet_put_client [OF z this]]
      have eff': "effect_of c s (put_client c (z\<lparr>reading := True\<rparr>) t)" .
      have io: "write_wf z" "\<not> reading z" "strand_ok (z\<lparr>reading := True\<rparr>)"
        using sys_invD(5) [OF inv z] by (simp_all add: io_ok_def)
      have "io_ok None c (z\<lparr>reading := True\<rparr>)"
        using io by (simp add: io_ok_def write_wf_def cong: option.case_cong)
      then have "sys_inv (put_client c (z\<lparr>reading := True\<rparr>) t)"
        by (intro inv_switch [OF inv z]) (simp_all add: same_session_def)
      with z io(2) eff' show ?thesis by (simp add: on_client_eq ReadIncomingData_def)
    qed
    show ?thesis
      unfolding r0(2) by (rule outcome_bind [OF HandleIncomingData_outcome [OF enter(1) len r0(1)] subset_refl]) (rule start)
  qed
qed

section \<open>Completed operations\<close>

definition complete_read :: "i8 list option \<Rightarrow> Client \<Rightarrow> Client" where
  "complete_read result x = x\<lparr>reading := False, m_Strand := m_Strand x @ [ReadDone result]\<rparr>"

lemma inv_complete_read:
  assumes "sys_inv s" "heap_at (clients s) c = Some x" "reading x" "read_fits result"
  shows "sys_inv (put_client c (complete_read result x) s)"
proof (rule sys_inv_client [OF assms(1,2)])
  show "same_session x (complete_read result x)" by (simp add: same_session_def complete_read_def)
  have "write_wf x" "strand_ok x" using sys_invD(5) [OF assms(1,2)] by (simp_all add: io_ok_def)
  with assms(3,4) show "io_ok None c (complete_read result x)"
    by (auto simp: io_ok_def complete_read_def write_wf_def strand_ok_def requests_first_append
        split: option.splits if_splits)
qed

lemma inv_complete_write:
  assumes "sys_inv s" "heap_at (clients s) c = Some x"
  shows "sys_inv (put_client c (complete_write ok x) s)"
proof (rule sys_inv_client [OF assms])
  show "same_session x (complete_write ok x)" by (simp add: same_session_def complete_write_def split: option.split)
  have "write_wf x" "strand_ok x" using sys_invD(5) [OF assms] by (simp_all add: io_ok_def)
  then show "io_ok None c (complete_write ok x)"
    using complete_write_ok(1) [of x ok]
    by (auto simp: io_ok_def complete_write_def strand_ok_def requests_first_append split: option.splits if_splits)
qed

section \<open>Draining the queue\<close>

text \<open>The outstanding write completes without an error, and its handler runs.\<close>

definition write_round :: "int \<Rightarrow> u64 \<Rightarrow> ref \<Rightarrow> System \<Rightarrow> (fault + System) option" where
  "write_round now gen c s =
     (case heap_at (clients s) c of
        None \<Rightarrow> Some (Inr s)
      | Some x \<Rightarrow> run_strand now gen c (put_client c (complete_write True x) s))"

primrec write_rounds :: "nat \<Rightarrow> int \<Rightarrow> u64 \<Rightarrow> ref \<Rightarrow> System \<Rightarrow> (fault + System) option" where
  "write_rounds 0 now gen c s = Some (Inr s)"
| "write_rounds (Suc n) now gen c s =
     (case write_round now gen c s of
        Some (Inr t) \<Rightarrow> write_rounds n now gen c t
      | r \<Rightarrow> r)"

lemma write_round_ok:
  assumes "sys_inv s" "heap_at (clients s) c = Some x" "m_Strand x = []" "m_WriteQueue x = data # queue" "m_Writing x"
    and "write_op x \<noteq> None"
  obtains t y where "write_round now gen c s = Some (Inr t)" "sys_inv t" "heap_at (clients t) c = Some y"
    "m_Strand y = []" "m_WriteQueue y = queue" "sent y = sent x @ [data]" "m_Writing y \<longleftrightarrow> queue \<noteq> []"
    "write_op y = (if queue = [] then None else Some (hd queue))"
    "if queue = [] then m_PendingDisconnect x \<longrightarrow> m_Disconnected y else m_PendingDisconnect y = m_PendingDisconnect x"
proof -
  have op: "write_op x = Some data"
    using sys_invD(5) [OF assms(1,2)] assms(4-6) by (auto simp: io_ok_def write_wf_def)
  let ?x = "complete_write True x"
  let ?s = "put_client c ?x s" and ?x1 = "x\<lparr>write_op := None, sent := sent x @ [data]\<rparr>"
  have inv: "sys_inv ?s" by (rule inv_complete_write [OF assms(1,2)])
  have at: "heap_at (clients ?s) c = Some ?x" using assms(2) by (simp add: at_put_client)
  have x: "?x = x\<lparr>write_op := None, sent := sent x @ [data], m_Strand := [WriteDone True]\<rparr>"
    using op assms(3) by (simp add: complete_write_def)
  then have hd: "m_Strand ?x = WriteDone True # []" by simp
  have run: "write_round now gen c s = Some (write_done True c (put_client c (?x\<lparr>m_Strand := []\<rparr>) s))"
    using run_strand_eq [OF at hd] assms(2) by (simp add: write_round_def)
  obtain t y where t: "write_round now gen c s = Some (Inr t)" "sys_inv t" "heap_at (clients t) c = Some y" "m_Strand y = []"
    "sent y = sent ?x"
    using write_succeeded [OF inv at hd] run by (auto simp: write_handled_def)
  have at1: "heap_at (clients (put_client c (?x\<lparr>m_Strand := []\<rparr>) s)) c = Some (?x\<lparr>m_Strand := []\<rparr>)"
    using assms(2) by (simp add: at_put_client)
  show ?thesis
  proof (cases queue)
    case Nil
    let ?y = "?x\<lparr>m_Strand := [], m_WriteQueue := [], m_Writing := False\<rparr>"
    have r: "(if m_PendingDisconnect x then bindR (Disconnect c (put_client c ?y s))
        (on_client c (\<lambda>x. Inr (x\<lparr>m_PendingDisconnect := False\<rparr>))) else Inr (put_client c ?y s)) = Inr t"
      using t(1) [unfolded run] assms(4) Nil at1 by (simp add: write_done_def deref_def Let_def x split: if_splits)
    have "y = (if m_PendingDisconnect x then (closed ?y)\<lparr>m_PendingDisconnect := False\<rparr> else ?y)"
    proof (cases "m_PendingDisconnect x")
      case True
      have aty: "heap_at (clients (put_client c ?y s)) c = Some ?y" using assms(2) by (simp add: at_put_client)
      from r True obtain u where u: "Disconnect c (put_client c ?y s) = Inr u"
        "on_client c (\<lambda>x. Inr (x\<lparr>m_PendingDisconnect := False\<rparr>)) u = Inr t" by (auto simp: fault_simps)
      have "heap_at (clients u) c = Some (closed ?y)"
        using Disconnect_clients [OF aty u(1)] assms(2) by (simp add: at_put_client)
      with u(2) t(3) True show ?thesis by (auto simp: on_client_eq at_put_client)
    next
      case False
      with r t(3) assms(2) show ?thesis by (auto simp: at_put_client)
    qed
    with t Nil show ?thesis by (intro that [of t y]) (simp_all add: x)
  next
    case (Cons nxt rest)
    let ?y = "?x\<lparr>m_Strand := [], m_WriteQueue := queue, m_Writing := True, write_op := Some nxt\<rparr>"
    have "t = put_client c ?y s"
      using t(1) run assms(4) Cons at1 by (simp add: write_done_def deref_def Let_def DoWrite_def x)
    with t(3) assms(2) have "y = ?y" by (simp add: at_put_client)
    with t Cons show ?thesis by (intro that [of t y]) (simp_all add: x)
  qed
qed

section \<open>Properties\<close>

text \<open>
  C16: the handlers of the write path (the functions posted by \<open>Send\<close> and \<open>RequestDisconnect\<close> and the completion of a
  write) never fault in a state that satisfies the invariant: no write is started while another one is outstanding,
  and the queue is never accessed when it is empty. They keep the invariant; the data handed to \<open>Send\<close> so far, in its
  order (sent, queued, or waiting on the strand), stays exactly the same; and they disconnect the client only after a
  failed write or with nothing left in the queue.
\<close>

theorem write_path_keeps_data:
  assumes "sys_inv s" "heap_at (clients s) c = Some x" "m_Strand x = h # hs" "\<forall>r. h \<noteq> ReadDone r"
  shows "\<exists>t y. run_strand now gen c s = Some (Inr t) \<and> sys_inv t \<and> heap_at (clients t) c = Some y \<and> m_Strand y = hs \<and>
    posted y = posted x \<and> sent y = sent x \<and>
    (m_Disconnected y \<and> \<not> m_Disconnected x \<longrightarrow> h = WriteDone False \<or> m_WriteQueue y = [])"
  using write_handler [OF assms, of now gen] by (auto simp: write_handled_def)

text \<open>The servers of \<open>session_server\<close> and \<open>login_server\<close> at rest, the latter with a write in progress.\<close>

definition idle_server :: System where
  "idle_server = put_client 0 (session_client\<lparr>reading := True\<rparr>) session_server"

definition writing_client :: Client where
  "writing_client = login_client\<lparr>reading := True, m_WriteQueue := [[5], [7, 7]], m_Writing := True,
     write_op := Some [5], m_PendingDisconnect := True\<rparr>"

lemma idle_server_inv: "sys_inv idle_server"
proof -
  have "io_ok (Some 0) 0 session_client" by (rule sys_invD(5) [OF session_server_inv session_server_at])
  then have "io_ok None 0 (session_client\<lparr>reading := True\<rparr>)"
    by (simp add: io_ok_def write_wf_def cong: option.case_cong)
  then show ?thesis
    unfolding idle_server_def
    by (intro inv_switch [OF session_server_inv session_server_at]) (simp_all add: same_session_def)
qed

lemma idle_client: "heap_at (clients idle_server) 0 = Some (session_client\<lparr>reading := True\<rparr>)"
  using session_server_at by (simp add: idle_server_def at_put_client)

lemma session_strand: obtains packets where "m_Strand session_client = SendTask [2, 0, 0] # map SendTask packets"
proof -
  let ?y = "logging_client ''bob'' 0 (set_ciphers 1 2 login_client)"
  have "m_Encryptor ?y = Some (ISAACCipher_new 50 51 50 52)"
    by (simp add: set_ciphers_def seed_of_def SetEncryptor_def SetDecryptor_def Let_def)
  from emits_eq [OF this] show ?thesis
    by (intro that) (simp add: session_client_def logging_client_def answered_def set_ciphers_def SetEncryptor_def
        SetDecryptor_def Let_def login_client_def Client_new_def)
qed

lemma writing_server_inv: "sys_inv (put_client 0 writing_client login_server)"
proof -
  have at: "heap_at (clients login_server) 0 = Some login_client" by (simp add: login_server_def heap_at_def)
  have "io_ok None 0 writing_client"
    by (simp add: io_ok_def write_wf_def strand_ok_def writing_client_def login_client_def Client_new_def)
  then show ?thesis
    by (intro inv_switch [OF login_server_inv at]) (simp_all add: same_session_def writing_client_def)
qed

theorem write_path_keeps_data_witness:
  "\<exists>t y. run_strand 0 0 0 idle_server = Some (Inr t) \<and> sys_inv t \<and> heap_at (clients t) 0 = Some y \<and>
    posted y = posted session_client"
proof -
  obtain packets where "m_Strand session_client = SendTask [2, 0, 0] # map SendTask packets" by (rule session_strand)
  then have "m_Strand (session_client\<lparr>reading := True\<rparr>) = SendTask [2, 0, 0] # map SendTask packets" by simp
  moreover have "posted (session_client\<lparr>reading := True\<rparr>) = posted session_client" by (simp add: posted_def)
  ultimately show ?thesis using write_path_keeps_data [OF idle_server_inv idle_client, of _ _ 0 0] by fastforce
qed

text \<open>
  C22: the queue drains. If the writes of a client complete without an error, then after as many completions as the
  queue has entries, all of them have been sent, in order, no write is outstanding, and a requested disconnect has taken
  place.
\<close>

theorem queue_drains:
  assumes "sys_inv s" "heap_at (clients s) c = Some x" "m_Strand x = []" "m_Writing x" "write_op x \<noteq> None"
  shows "\<exists>t y. write_rounds (length (m_WriteQueue x)) now gen c s = Some (Inr t) \<and> sys_inv t \<and>
    heap_at (clients t) c = Some y \<and> sent y = sent x @ m_WriteQueue x \<and> m_WriteQueue y = [] \<and> \<not> m_Writing y \<and>
    write_op y = None \<and> (m_PendingDisconnect x \<longrightarrow> m_Disconnected y)"
  using assms
proof (induction "m_WriteQueue x" arbitrary: s x)
  case Nil
  then show ?case using sys_invD(5) [OF Nil(2,3)] by (auto simp: io_ok_def write_wf_def)
next
  case (Cons data queue)
  obtain t y where t: "write_round now gen c s = Some (Inr t)" "sys_inv t" "heap_at (clients t) c = Some y"
    "m_Strand y = []" "m_WriteQueue y = queue" "sent y = sent x @ [data]" "m_Writing y \<longleftrightarrow> queue \<noteq> []"
    "write_op y = (if queue = [] then None else Some (hd queue))"
    "if queue = [] then m_PendingDisconnect x \<longrightarrow> m_Disconnected y else m_PendingDisconnect y = m_PendingDisconnect x"
    using write_round_ok [OF Cons.prems(1-3) Cons.hyps(2) [symmetric] Cons.prems(4,5), where now = now and gen = gen] .
  have x: "m_WriteQueue x = data # queue" using Cons.hyps(2) by simp
  show ?case
  proof (cases "queue = []")
    case True
    with t x show ?thesis by auto
  next
    case False
    with t Cons.hyps(1) [of y t] show ?thesis by (auto simp: x)
  qed
qed

theorem queue_drains_witness:
  "\<exists>t y. write_rounds 2 0 0 0 (put_client 0 writing_client login_server) = Some (Inr t) \<and>
    heap_at (clients t) 0 = Some y \<and> sent y = [[5], [7, 7]] \<and> m_Disconnected y"
proof -
  have at: "heap_at (clients (put_client 0 writing_client login_server)) 0 = Some writing_client"
    by (simp add: put_client_def login_server_def heap_at_def)
  have w: "m_Strand writing_client = []" "m_Writing writing_client" "write_op writing_client \<noteq> None"
    "m_WriteQueue writing_client = [[5], [7, 7]]" "sent writing_client = []" "m_PendingDisconnect writing_client"
    by (simp_all add: writing_client_def login_client_def Client_new_def)
  from queue_drains [OF writing_server_inv at w(1-3), of 0 0] show ?thesis
    by (auto simp: w numeral_2_eq_2)
qed

end
