(* ===== verification/Server.thy ===== *)
theory Server
  imports Client_Strand
begin

text \<open>
  The server (\<open>src/src/Server.cpp\<close>): the accepting of connections, the cycle of \<open>Run\<close>, and the network thread as a
  state machine. A step of \<open>network_step\<close> is an accepted connection, the completion of a read or a write, one handler
  run by a strand, the destruction of a client that nothing holds any more, or the start or stop of the game loop.
  Steps interleave in any order, and each keeps the invariant \<open>sys_inv\<close>. The theory \<open>Game_Thread\<close> adds the steps of the
  other thread.

  A completed read may carry any data that fits the buffer, also after the socket was closed.
\<close>

section \<open>Definitions\<close>

definition CYCLE_RATE_MS :: int where
  "CYCLE_RATE_MS = 600"

text \<open>The process after the constructor: the world is empty and the first accept is outstanding.\<close>

definition Server_new :: System where
  "Server_new =
     \<lparr>players = [], clients = [], m_Players = [], m_OccupiedIndices = replicate MAX_PLAYERS False,
      m_Sessions = [], m_Running = False, playerList = []\<rparr>"

text \<open>The completion handler of an accept; \<open>ok\<close> is \<open>!ec\<close>. It always starts the next one.\<close>

definition AcceptClients :: "bool \<Rightarrow> System \<Rightarrow> fault + System" where
  "AcceptClients ok s =
     (if ok
      then
        let client = length (clients s);
            s = s\<lparr>clients := clients s @ [Some Client_new]\<rparr>
        in bindR (on_client client (\<lambda>x. Inr (x\<lparr>m_OnDisconnect := Some client\<rparr>)) s) (\<lambda>s.
           let s = s\<lparr>m_Sessions := List.insert client (m_Sessions s)\<rparr>
           in on_client client Client_Start s)
      else Inr s)"

definition Server_Process :: "(string \<times> ref) list \<Rightarrow> System \<Rightarrow> fault + System" where
  "Server_Process order s = World_Process order s"

text \<open>\<open>Run\<close> up to its loop, one round of the loop with the time to sleep, and \<open>Close\<close>.\<close>

definition Run :: "System \<Rightarrow> System" where
  "Run s = s\<lparr>m_Running := True\<rparr>"

definition sleep_time :: "int \<Rightarrow> int option" where
  "sleep_time elapsed = (if elapsed < CYCLE_RATE_MS then Some (CYCLE_RATE_MS - elapsed) else None)"

definition Run_cycle :: "(string \<times> ref) list \<Rightarrow> int \<Rightarrow> System \<Rightarrow> fault + (int option \<times> System)" where
  "Run_cycle order elapsed s = bindR (Server_Process order s) (\<lambda>s. Inr (sleep_time elapsed, s))"

definition Close :: "System \<Rightarrow> System" where
  "Close s = s\<lparr>m_Running := False\<rparr>"

text \<open>A client is destroyed when the last \<open>shared_ptr\<close> to it is gone.\<close>

definition destroy_client :: "ref \<Rightarrow> System \<Rightarrow> System" where
  "destroy_client c s = s\<lparr>clients := (clients s)[c := None]\<rparr>"

inductive network_step :: "System \<Rightarrow> System \<Rightarrow> bool" where
  start: "network_step s (Run s)"
| accept: "AcceptClients ok s = Inr t \<Longrightarrow> network_step s t"
| received: "heap_at (clients s) c = Some x \<Longrightarrow> reading x \<Longrightarrow> read_fits result \<Longrightarrow>
    network_step s (put_client c (complete_read result x) s)"
| written: "heap_at (clients s) c = Some x \<Longrightarrow> write_op x \<noteq> None \<Longrightarrow>
    network_step s (put_client c (complete_write ok x) s)"
| strand: "run_strand now gen c s = Some (Inr t) \<Longrightarrow> network_step s t"
| destroy: "heap_at (clients s) c = Some x \<Longrightarrow> \<not> held x \<Longrightarrow> network_step s (destroy_client c s)"
| close: "network_step s (Close s)"

inductive_cases network_stepE: "network_step s t"

section \<open>Every step keeps the invariant\<close>

lemma inv_Server_new: "sys_inv Server_new"
proof -
  have at: "heap_at (clients Server_new) c = None" "heap_at (players Server_new) c = None" "\<not> registered c Server_new" for c
    by (simp_all add: Server_new_def heap_at_def registered_def)
  have "registry_wf Server_new"
    by (simp add: registry_wf_def Server_new_def bitset_ok_def used_indices_def)
  then have "world_ok Server_new"
    by (simp add: world_ok_def at refs_ok_def) (simp add: Server_new_def rooted_def)
  then show ?thesis by (simp add: inv_during_def sessions_ok_def at) (simp add: Server_new_def)
qed

text \<open>The invariant does not depend on whether the server is running.\<close>

lemma inv_running [simp]: "inv_during h (s\<lparr>m_Running := b\<rparr>) = inv_during h s"
  by (simp add: inv_during_def world_ok_def registry_wf_def index_of_def [abs_def] refs_ok_def alive_def registered_def
      listed_ok_def player_ok_def sessions_ok_def session_ok_def cong: option.case_cong)

lemma registered_client:
  assumes "inv_during h s" "registered p s" "heap_at (players s) p = Some pl"
  obtains x where "player_ok p pl x s" "m_Stage x = LOGGED_IN"
proof -
  obtain pl' x where x: "player_ok p pl' x s" using world_ok_member [OF sys_invD(1) [OF assms(1)] assms(2)] .
  moreover from x assms(3) have "pl' = pl" by (simp add: player_ok_def)
  ultimately show ?thesis using that sys_invD(7) [OF assms(1,2)] by simp
qed

text \<open>Adding and destroying a client that no registered player refers to.\<close>

lemma inv_clients:
  assumes inv: "sys_inv s"
    and eq: "players t = players s" "m_Players t = m_Players s" "m_OccupiedIndices t = m_OccupiedIndices s"
      "playerList t = playerList s"
    and len: "length (clients s) \<le> length (clients t)"
    and at: "\<And>d. d \<noteq> c \<Longrightarrow> heap_at (clients t) d = heap_at (clients s) d"
    and free: "\<And>x. heap_at (clients s) c = Some x \<Longrightarrow> m_Disconnected x"
    and new: "\<And>y. heap_at (clients t) c = Some y \<Longrightarrow> length (clients s) \<le> c \<and> io_ok None c y \<and> session_ok c y t"
    and ses: "sessions_ok t"
  shows "sys_inv t"
proof -
  note inv' = sys_invD [OF inv]
  have reg: "registered p t = registered p s" for p by (simp add: registered_def eq)
  have away: "m_Client pl \<noteq> c" if "registered p s" "player_ok p pl x s" for p pl x
  proof
    assume c: "m_Client pl = c"
    with that have "heap_at (clients s) c = Some x" "m_Stage x = LOGGED_IN" using inv'(7) by (auto simp: player_ok_def)
    with free inv'(6) show False by (auto simp: session_ok_def)
  qed
  have ok: "player_ok p pl x t" if "registered p s" "player_ok p pl x s" for p pl x
    using that at [OF away [OF that]] by (simp add: player_ok_def eq)
  have "registry_wf t" "refs_ok t"
    using inv'(3,4) by (simp_all add: registry_wf_def refs_ok_def alive_def rooted_def index_of_def [abs_def] eq)
  moreover have "\<exists>pl x. player_ok p pl x t \<and> member_ok p pl" if "registered p s" for p
    using ok [OF that] inv'(1) that unfolding world_ok_def by blast
  moreover have "listed_ok p t" if "p \<in> set (playerList t)" for p
  proof -
    have "listed_ok p s" using that inv'(1) by (simp add: world_ok_def eq)
    then obtain pl where pl: "heap_at (players s) p = Some pl" "member_ok p pl" "m_Client pl < length (clients s)"
      "\<And>x. heap_at (clients s) (m_Client pl) = Some x \<Longrightarrow> player_ok p pl x s" by (rule listed_okE) blast
    moreover have "heap_at (clients s) (m_Client pl) = Some x" if "heap_at (clients t) (m_Client pl) = Some x" for x
      using that new [of x] at [of "m_Client pl"] pl(3) by (cases "m_Client pl = c") simp_all
    ultimately show ?thesis using len by (intro listed_okI [of _ _ pl]) (auto simp: eq player_ok_def)
  qed
  ultimately have "world_ok t" by (simp add: world_ok_def reg)
  moreover have "io_ok None d y \<and> session_ok d y t" if "heap_at (clients t) d = Some y" for d y
    using that new at [of d] inv'(5,6) [of d y]
    by (cases "d = c") (auto simp: session_ok_def eq reg split: option.splits)
  moreover have "m_Stage y = LOGGED_IN" if "registered p t" "player_ok p pl y t" for p pl y
  proof -
    have p: "registered p s" "heap_at (players s) p = Some pl" using that by (simp_all add: reg player_ok_def eq)
    obtain x where x: "player_ok p pl x s" "m_Stage x = LOGGED_IN" using registered_client [OF inv p] .
    with ok [OF p(1) x(1)] that(2) show ?thesis by (simp add: player_ok_def)
  qed
  ultimately show ?thesis using ses by (simp add: inv_during_def)
qed

definition accepted :: "ref \<Rightarrow> Client" where
  "accepted c = Client_new\<lparr>m_OnDisconnect := Some c, reading := True\<rparr>"

lemma AcceptClients_eq:
  assumes "sys_inv s"
  shows "AcceptClients True s =
    Inr (s\<lparr>clients := clients s @ [Some (accepted (length (clients s)))], m_Sessions := length (clients s) # m_Sessions s\<rparr>)"
proof -
  have "length (clients s) \<notin> set (m_Sessions s)" using sys_invD(2) [OF assms] by (simp add: sessions_ok_def)
  then show ?thesis
    by (simp add: AcceptClients_def on_client_def deref_def heap_at_append put_client_def Let_def Client_Start_def
        ReadIncomingData_def Client_new_def accepted_def)
qed

lemma inv_AcceptClients:
  assumes "sys_inv s" "AcceptClients ok s = Inr t"
  shows "sys_inv t"
proof (cases ok)
  case True
  let ?c = "length (clients s)"
  have t: "t = s\<lparr>clients := clients s @ [Some (accepted ?c)], m_Sessions := ?c # m_Sessions s\<rparr>"
    using assms AcceptClients_eq by (simp add: True)
  have ses: "sessions_ok s" using sys_invD(2) [OF assms(1)] .
  have "io_ok None ?c (accepted ?c)"
    by (simp add: io_ok_def write_wf_def strand_ok_def accepted_def Client_new_def)
  moreover have "session_ok ?c (accepted ?c) t" by (simp add: session_ok_def accepted_def Client_new_def)
  moreover have "sessions_ok t"
    using ses by (auto simp: sessions_ok_def t heap_at_append accepted_def Client_new_def)
  ultimately show ?thesis
    by (intro inv_clients [OF assms(1), where c = ?c]) (simp_all add: t heap_at_append)
next
  case False
  with assms show ?thesis by (simp add: AcceptClients_def)
qed

text \<open>A client that nothing holds has ended its connection and has no handler left.\<close>

lemma unheld_client:
  assumes "sys_inv s" "heap_at (clients s) c = Some x" "\<not> held x"
  shows "m_Disconnected x" "m_Strand x = []" "c \<notin> set (m_Sessions s)"
proof -
  have "strand_ok x" using sys_invD(5) [OF assms(1,2)] by (simp add: io_ok_def)
  from not_held [OF this assms(3)] show x: "m_Disconnected x" "m_Strand x = []" by simp_all
  with assms(2) sys_invD(2) [OF assms(1)] show "c \<notin> set (m_Sessions s)" by (simp add: sessions_ok_def)
qed

lemma inv_destroy_client:
  assumes "sys_inv s" "heap_at (clients s) c = Some x" "\<not> held x"
  shows "sys_inv (destroy_client c s)"
proof -
  have at: "heap_at (clients (destroy_client c s)) d = (if d = c then None else heap_at (clients s) d)" for d
    using assms(2) by (simp add: destroy_client_def heap_at_live)
  note x = unheld_client [OF assms]
  have "sessions_ok (destroy_client c s)"
    using sys_invD(2) [OF assms(1)] x(1,3) assms(2) unfolding sessions_ok_def at by (auto simp: destroy_client_def)
  then show ?thesis
    using assms(2) x(1) by (intro inv_clients [OF assms(1), where c = c]) (simp_all add: at, simp_all add: destroy_client_def)
qed

text \<open>One handler on a strand: it keeps the invariant, and only the handling of received data can fault.\<close>

lemma run_strand_outcome:
  assumes "sys_inv s" "run_strand now gen c s = Some r"
  shows "outcome packet_faults (\<lambda>t. sys_inv t \<and> effect_of c s t) r"
proof (cases "\<exists>x h hs. heap_at (clients s) c = Some x \<and> m_Strand x = h # hs")
  case True
  then obtain x h hs where x: "heap_at (clients s) c = Some x" "m_Strand x = h # hs" by blast
  show ?thesis
  proof (cases "\<exists>result. h = ReadDone result")
    case True
    with x assms read_handler show ?thesis by blast
  next
    case False
    with write_handler [OF assms(1) x, of now gen] assms(2) show ?thesis by (auto simp: write_handled_def)
  qed
next
  case False
  then have "run_strand now gen c s = Some (Inr s)" by (auto simp: run_strand_def split: option.split list.split)
  with assms show ?thesis by (auto simp: quiet_of)
qed

lemma inv_network: "network_step s t \<Longrightarrow> sys_inv s \<Longrightarrow> sys_inv t"
proof (induction rule: network_step.induct)
  case (received s c x result)
  then show ?case by (simp add: inv_complete_read)
next
  case (strand now gen c s t)
  then show ?case using run_strand_outcome [of s now gen c] by fastforce
qed (auto simp: Run_def Close_def inv_complete_write inv_destroy_client intro: inv_AcceptClients)

lemma inv_networks: "network_step\<^sup>*\<^sup>* s t \<Longrightarrow> sys_inv s \<Longrightarrow> sys_inv t"
  by (induction rule: rtranclp_induct) (auto intro: inv_network)

section \<open>Reached states\<close>

text \<open>The server after it has accepted one client.\<close>

definition accepting_server :: System where
  "accepting_server = Server_new\<lparr>clients := [Some (accepted 0)], m_Sessions := [0]\<rparr>"

lemma accepting_reached: "network_step\<^sup>*\<^sup>* Server_new accepting_server"
proof -
  have "AcceptClients True Server_new = Inr accepting_server"
    using AcceptClients_eq [OF inv_Server_new] by (simp add: accepting_server_def Server_new_def)
  then show ?thesis by (intro r_into_rtranclp network_step.accept)
qed

text \<open>The only client closes its connection.\<close>

lemma ended_reached:
  obtains s where "network_step\<^sup>*\<^sup>* Server_new s" "heap_at (clients s) 0 = Some (closed (accepted 0\<lparr>reading := False\<rparr>))"
proof -
  let ?x = "complete_read None (accepted 0)" and ?y = "accepted 0\<lparr>reading := False\<rparr>"
  let ?s = "put_client 0 ?x accepting_server"
  have at: "heap_at (clients accepting_server) 0 = Some (accepted 0)" by (simp add: accepting_server_def heap_at_def)
  have reading: "reading (accepted 0)" "read_fits None" by (simp_all add: accepted_def read_fits_def)
  have "network_step accepting_server ?s" using at reading by (rule network_step.received)
  with accepting_reached have s: "network_step\<^sup>*\<^sup>* Server_new ?s" by (rule rtranclp.rtrancl_into_rtrancl)
  have x: "heap_at (clients ?s) 0 = Some ?x" "m_Strand ?x = [ReadDone None]" "?x\<lparr>m_Strand := []\<rparr> = ?y"
    using at by (simp_all add: at_put_client) (simp_all add: complete_read_def accepted_def Client_new_def)
  have y: "heap_at (clients (put_client 0 ?y ?s)) 0 = Some ?y" using at by (simp add: at_put_client)
  obtain t where t: "Disconnect 0 (put_client 0 ?y ?s) = Inr t"
    "clients t = clients (put_client 0 (closed ?y) (put_client 0 ?y ?s))"
    using sys_inv_Disconnect [OF inv_enter_read(1) [OF inv_networks [OF s inv_Server_new] x(1,2), unfolded x(3)] y] .
  have "run_strand 0 0 0 ?s = Some (Inr t)" using run_strand_eq [OF x(1,2)] t(1) by (simp add: x(3) read_done_def)
  then have "network_step ?s t" by (rule network_step.strand)
  with s have "network_step\<^sup>*\<^sup>* Server_new t" by (rule rtranclp.rtrancl_into_rtrancl)
  moreover have "heap_at (clients t) 0 = Some (closed ?y)" using at by (simp add: t(2) at_put_client)
  ultimately show ?thesis by (rule that)
qed

end
