(* ===== verification/Server_Session.thy ===== *)
theory Server_Session
  imports Server
begin

text \<open>
  A whole login, from the accepted connection to the registered player, as a run of the server: the two messages of the
  client arrive, and the strand runs its handlers.
\<close>

section \<open>Runs\<close>

definition receive :: "ref \<Rightarrow> i8 list \<Rightarrow> System \<Rightarrow> fault + System" where
  "receive c data = on_client c (\<lambda>x. Inr (complete_read (Some data) x))"

definition then_run :: "(fault + System) option \<Rightarrow> (System \<Rightarrow> (fault + System) option) \<Rightarrow> (fault + System) option" where
  "then_run r k = (case r of Some (Inr s) \<Rightarrow> k s | _ \<Rightarrow> r)"

lemma then_run_ok [simp]: "then_run (Some (Inr s)) k = k s"
  by (simp add: then_run_def)

lemma then_run_assoc: "then_run (then_run r k) l = then_run r (\<lambda>s. then_run (k s) l)"
  by (cases r) (simp_all add: then_run_def split: sum.split)

definition connect_run :: "int \<Rightarrow> int \<Rightarrow> u64 \<Rightarrow> i8 \<Rightarrow> i8 list \<Rightarrow> System \<Rightarrow> (fault + System) option" where
  "connect_run now now' gen hash data s =
     (let c = length (clients s)
      in then_run (Some (AcceptClients True s)) (\<lambda>s.
         then_run (Some (receive c [14, hash] s)) (\<lambda>s.
         then_run (run_strand now gen c s) (\<lambda>s.
         then_run (run_strand now gen c s) (\<lambda>s.
         then_run (Some (receive c data s)) (run_strand now' gen c))))))"

section \<open>One message of a login\<close>

lemma run_login_message:
  assumes "sys_inv s" "heap_at (clients s) c = Some x" "reading x" "m_Strand x = []" "m_Stage x \<noteq> LOGGED_IN"
    and "data \<noteq> []" "length data \<le> BUFFER_SIZE" "m_PacketsThisSecond (count_packet now x) \<le> 100"
  defines "y \<equiv> count_packet now x\<lparr>reading := False\<rparr>"
  obtains t where "receive c data s = Inr t" "sys_inv t" "network_step s t"
    "run_strand now gen c t = Some (bindR (LoginHandler_Process gen (StreamBuffer_data data) c (put_client c y s))
       (\<lambda>(b, t). on_client c ReadIncomingData t))"
    "inv_during (Some c) (put_client c y s)"
proof -
  let ?x = "complete_read (Some data) x" and ?z = "x\<lparr>reading := False\<rparr>"
  let ?t = "put_client c ?x s"
  have fits: "read_fits (Some data)" using assms(6,7) by (simp add: read_fits_def)
  have t: "receive c data s = Inr ?t" using assms(2) by (simp add: receive_def on_client_eq)
  have inv: "sys_inv ?t" by (rule inv_complete_read [OF assms(1-3) fits])
  have step: "network_step s ?t" using assms(2,3) fits by (rule network_step.received)
  have x: "heap_at (clients ?t) c = Some ?x" "m_Strand ?x = ReadDone (Some data) # []" "?x\<lparr>m_Strand := []\<rparr> = ?z"
    using assms(2,4) by (simp_all add: at_put_client) (simp_all add: complete_read_def)
  have y: "y = count_packet now ?z" by (simp add: y_def count_packet_def Let_def)
  have z: "heap_at (clients (put_client c ?z s)) c = Some ?z" using assms(2) by (simp add: at_put_client)
  have "inv_during (Some c) (put_client c ?z ?t)" using inv_enter_read(1) [OF inv x(1,2)] x(3) by simp
  then have enter: "inv_during (Some c) (put_client c ?z s)" by simp
  have inv': "inv_during (Some c) (put_client c y s)" using inv_count_packet [OF enter z, of now] y by simp
  have rate: "m_PacketsThisSecond (count_packet now ?z) \<le> 100"
    using assms(8) by (simp add: count_packet_def Let_def split: if_splits)
  have "heap_at (clients (put_client c y s)) c = Some y" using assms(2) by (simp add: at_put_client)
  moreover have "m_Stage y \<noteq> LOGGED_IN" using assms(5) by (simp add: y)
  moreover have "HasRemaining (StreamBuffer_data data)" using assms(6) by (simp add: HasRemaining_unread)
  ultimately have "input_loop gen c (-1) (-1) (StreamBuffer_data data) (put_client c y s) =
      Some (LoginHandler_Process gen (StreamBuffer_data data) c (put_client c y s))"
    by (cases "LoginHandler_Process gen (StreamBuffer_data data) c (put_client c y s)")
      (auto simp: input_loop.simps input_iteration_def deref_def)
  then have "run_strand now gen c ?t = Some (bindR (LoginHandler_Process gen (StreamBuffer_data data) c (put_client c y s))
       (\<lambda>(b, t). on_client c ReadIncomingData t))"
    using run_strand_eq [OF x(1,2)] HandleIncomingData_eq [OF z rate]
    by (simp add: x(3) read_done_def y bindR_assoc case_prod_unfold)
  with t inv step inv' show ?thesis by (intro that)
qed

text \<open>The first message, and the answer to it.\<close>

lemma run_connect:
  assumes "sys_inv s" and c: "c = length (clients s)"
  obtains t y where
    "then_run (Some (AcceptClients True s)) (\<lambda>s. then_run (Some (receive c [14, hash] s)) (\<lambda>s.
       then_run (run_strand now gen c s) (run_strand now gen c))) = Some (Inr t)"
    "network_step\<^sup>*\<^sup>* s t" "players t = players s" "m_Players t = m_Players s" "m_OccupiedIndices t = m_OccupiedIndices s"
    "heap_at (clients t) c = Some y" "m_Stage y = LOGGING_IN" "m_Strand y = []" "reading y" "sent y = []"
    "m_WriteQueue y = [connect_answer gen]" "write_op y = Some (connect_answer gen)" "m_PacketsThisSecond y = 1"
proof -
  define s1 where "s1 = s\<lparr>clients := clients s @ [Some (accepted c)], m_Sessions := c # m_Sessions s\<rparr>"
  let ?x = "count_packet now (accepted c)"
  define y1 where "y1 = ?x\<lparr>m_Strand := [SendTask (connect_answer gen)], m_Stage := LOGGING_IN\<rparr>"
  define y where "y = y1\<lparr>m_Strand := [], m_WriteQueue := [connect_answer gen], m_Writing := True,
    write_op := Some (connect_answer gen)\<rparr>"
  have acc: "AcceptClients True s = Inr s1" using AcceptClients_eq [OF assms(1)] c by (simp add: s1_def)
  have s1: "network_step s s1" using acc by (rule network_step.accept)
  have at: "heap_at (clients s1) c = Some (accepted c)" by (simp add: s1_def c heap_at_append)
  have x: "reading (accepted c)" "m_Strand (accepted c) = []" "m_Stage (accepted c) \<noteq> LOGGED_IN" "[14, hash] \<noteq> []"
    "length [14, hash] \<le> BUFFER_SIZE" "m_PacketsThisSecond ?x \<le> 100"
    by (simp_all add: accepted_def Client_new_def BUFFER_SIZE_def count_packet_def Let_def)
  obtain t1 where t1: "receive c [14, hash] s1 = Inr t1" "network_step s1 t1"
    "run_strand now gen c t1 = Some (bindR (LoginHandler_Process gen (StreamBuffer_data [14, hash]) c
       (put_client c (?x\<lparr>reading := False\<rparr>) s1)) (\<lambda>(b, t). on_client c ReadIncomingData t))"
    using run_login_message [OF inv_network [OF s1 assms(1)] at x] .
  have at': "heap_at (clients (put_client c z s1)) c = Some z" for z using at by (simp add: at_put_client)
  have stage: "m_Stage (?x\<lparr>reading := False\<rparr>) = CONNECTED" "m_Strand (?x\<lparr>reading := False\<rparr>) = []"
    by (simp_all add: accepted_def Client_new_def)
  have "y1 = ?x\<lparr>m_Strand := [SendTask (connect_answer gen)], m_Stage := LOGGING_IN, reading := True\<rparr>"
    unfolding y1_def by (simp add: count_packet_def accepted_def Let_def)
  then have run1: "run_strand now gen c t1 = Some (Inr (put_client c y1 s1))"
    unfolding t1(3) LoginHandler_Process_def
    by (simp add: deref_def at' stage stage(2) [simplified] HandleConnectedStage_eq [OF at'] on_client_put [OF at] ReadIncomingData_def)
  have y1: "m_Strand y1 = SendTask (connect_answer gen) # []" by (simp add: y1_def)
  have "send_task (connect_answer gen) (y1\<lparr>m_Strand := []\<rparr>) = Inr y"
    by (simp add: y_def y1_def send_task_def DoWrite_def Let_def count_packet_def accepted_def Client_new_def)
  then have run2: "run_strand now gen c (put_client c y1 s1) = Some (Inr (put_client c y s1))"
    using run_strand_eq [OF at' y1] by (simp add: on_client_put [OF at])
  have "network_step\<^sup>*\<^sup>* s (put_client c y s1)"
    using s1 t1(2) network_step.strand [OF run1] network_step.strand [OF run2]
    by (meson rtranclp.rtrancl_into_rtrancl rtranclp.rtrancl_refl)
  then show ?thesis
    using acc t1(1) run1 run2 at'
    by (intro that [of "put_client c y s1" y])
      (simp_all add: s1_def y_def y1_def count_packet_def accepted_def Client_new_def Let_def)
qed

section \<open>The result of the run\<close>

lemma connect_run_result:
  assumes "sys_inv s" "World_GetPlayer username s = None" "used_indices (m_OccupiedIndices s) \<noteq> {..<2048}"
    and "data = loginType # blockLength #
      login_block magic mem sums rsaLength clientHalf serverHalf uid username password"
    and "loginType \<in> {16, 18}" "length sums = 9" "string_fits username" "string_fits password"
    and "unat blockLength \<le> length data - 2" "length data \<le> BUFFER_SIZE"
  shows "\<exists>t y p packets e'. connect_run now now' gen hash data s = Some (Inr t) \<and> network_step\<^sup>*\<^sup>* s t \<and>
    m_Players t = m_Players s @ [(username, p)] \<and> heap_at (clients t) (length (clients s)) = Some y \<and>
    m_Stage y = LOGGED_IN \<and> m_ClientUsername y = username \<and> GetPlayer y t = Some p \<and> reading y \<and>
    write_op y = Some (connect_answer gen) \<and> posted y = connect_answer gen # [2, 0, 0] # packets \<and>
    m_Encryptor y = Some e' \<and>
    (\<exists>i. {..<i} \<subseteq> used_indices (m_OccupiedIndices s) \<and> heap_at (players t) p = Some (logged_in_player ((Player_new username (length (clients s)))\<lparr>m_Index := word_of_nat i\<rparr>))) \<and>
    (let seed = seed_of clientHalf serverHalf
     in map_state dec_packet packets
          (ISAACCipher_new (seed ! 0 + 50) (seed ! 1 + 50) (seed ! 2 + 50) (seed ! 3 + 50)) =
        (login_packets (Position_new 3200 3200), e'))"
proof -
  define c where c: "c = length (clients s)"
  obtain u x where u: "then_run (Some (AcceptClients True s)) (\<lambda>s. then_run (Some (receive c [14, hash] s)) (\<lambda>s.
       then_run (run_strand now gen c s) (run_strand now gen c))) = Some (Inr u)"
    "network_step\<^sup>*\<^sup>* s u" "players u = players s" "m_Players u = m_Players s" "m_OccupiedIndices u = m_OccupiedIndices s"
    "heap_at (clients u) c = Some x" "m_Stage x = LOGGING_IN" "m_Strand x = []" "reading x" "sent x = []"
    "m_WriteQueue x = [connect_answer gen]" "write_op x = Some (connect_answer gen)" "m_PacketsThisSecond x = 1"
    using run_connect [OF assms(1) c] .
  have msg: "m_Stage x \<noteq> LOGGED_IN" "data \<noteq> []" "m_PacketsThisSecond (count_packet now' x) \<le> 100"
    using u(7,13) assms(4) by (simp_all add: count_packet_def Let_def)
  let ?x = "count_packet now' x\<lparr>reading := False\<rparr>"
  obtain v where v: "receive c data u = Inr v" "network_step u v"
    "run_strand now' gen c v = Some (bindR (LoginHandler_Process gen (StreamBuffer_data data) c (put_client c ?x u))
       (\<lambda>(b, t). on_client c ReadIncomingData t))"
    "inv_during (Some c) (put_client c ?x u)"
    using run_login_message [OF inv_networks [OF u(2) assms(1)] u(6,9,8) msg(1,2) assms(10) msg(3)] .
  have x: "heap_at (clients (put_client c ?x u)) c = Some ?x" "m_Stage ?x = LOGGING_IN"
    using u(6,7) by (simp_all add: at_put_client)
  have strand: "m_Strand ?x = []" "sent ?x = []" "m_WriteQueue ?x = [connect_answer gen]"
    "write_op ?x = Some (connect_answer gen)"
    using u(8,10-12) by (simp_all add: count_packet_def Let_def)
  have data: "unread (StreamBuffer_data data) = loginType # blockLength #
      login_block magic mem sums rsaLength clientHalf serverHalf uid username password @ []"
    using assms(4) by simp
  have len: "unat blockLength \<le> length (unread (StreamBuffer_data data)) - 2" using assms(9) by simp
  have world: "World_GetPlayer username (put_client c ?x u) = None"
    "m_OccupiedIndices (put_client c ?x u) = m_OccupiedIndices s" "m_Players (put_client c ?x u) = m_Players s"
    using assms(2) u(4,5) by (simp_all add: World_GetPlayer_def)
  obtain b' t y p packets e' i where t: "HandleLoggingInStage (StreamBuffer_data data) c (put_client c ?x u) = Inr (b', t)"
    "inv_during (Some c) t" "heap_at (clients t) c = Some y" "m_ClientUsername y = username"
    "sent y = []" "m_WriteQueue y = [connect_answer gen]" "write_op y = Some (connect_answer gen)" "m_Stage y = LOGGED_IN"
    "GetPlayer y t = Some p" "m_Players t = m_Players s @ [(username, p)]"
    "m_Strand y = SendTask [2, 0, 0] # map SendTask packets" "m_Encryptor y = Some e'"
    "{..<i} \<subseteq> used_indices (m_OccupiedIndices s)"
    "heap_at (players t) p = Some (logged_in_player ((Player_new username c)\<lparr>m_Index := word_of_nat i\<rparr>))"
    "let seed = seed_of clientHalf serverHalf
     in map_state dec_packet packets
          (ISAACCipher_new (seed ! 0 + 50) (seed ! 1 + 50) (seed ! 2 + 50) (seed ! 3 + 50)) =
        (login_packets (Position_new 3200 3200), e')"
    using login_result [OF v(4) x data assms(5-8) len]
    unfolding world strand option.case if_not_P [OF assms(3)] append_Nil by blast
  let ?y = "y\<lparr>reading := True\<rparr>"
  have "\<not> reading y" using sys_invD(5) [OF t(2,3)] by (simp add: io_ok_def)
  then have run: "run_strand now' gen c v = Some (Inr (put_client c ?y t))"
    using v(3) t(1,3) x by (simp add: LoginHandler_Process_def deref_def on_client_eq ReadIncomingData_def)
  have "connect_run now now' gen hash data s = Some (Inr (put_client c ?y t))"
    using u(1) v(1) run by (simp add: connect_run_def c [symmetric] then_run_assoc [symmetric])
  moreover have "network_step\<^sup>*\<^sup>* s (put_client c ?y t)"
    using u(2) v(2) network_step.strand [OF run] by (meson rtranclp.rtrancl_into_rtrancl)
  moreover have "heap_at (clients (put_client c ?y t)) c = Some ?y" using t(3) by (simp add: at_put_client)
  moreover have "GetPlayer ?y (put_client c ?y t) = Some p" using t(9) by (auto simp: GetPlayer_def split: option.splits)
  moreover have "posted ?y = connect_answer gen # [2, 0, 0] # packets" using t(5,6,11) by (simp add: posted_def)
  ultimately show ?thesis using t(4,7,8,10,12-15)
    by (intro exI [of _ "put_client c ?y t"] exI [of _ ?y] exI [of _ p] exI [of _ packets] exI [of _ e']) (auto simp: c)
qed

text \<open>A login to the empty server.\<close>

definition bob_data :: "i8 list" where
  "bob_data = 16 # 69 # login_block 255 0 (replicate 9 0) 0 1 2 0 ''bob'' ''pw''"

lemma bob_login:
  "sys_inv Server_new" "World_GetPlayer ''bob'' Server_new = None"
  "used_indices (m_OccupiedIndices Server_new) \<noteq> {..<2048}" "(16 :: i8) \<in> {16, 18}" "length (replicate 9 (0 :: i32)) = 9"
  "string_fits ''bob''" "string_fits ''pw''" "unat (69 :: i8) \<le> length bob_data - 2" "length bob_data \<le> BUFFER_SIZE"
proof -
  have "{} \<noteq> {..<2048 :: nat}" by (metis lessThan_iff empty_iff zero_less_numeral)
  then show "World_GetPlayer ''bob'' Server_new = None" "used_indices (m_OccupiedIndices Server_new) \<noteq> {..<2048}"
    by (simp_all add: Server_new_def World_GetPlayer_def used_none MAX_PLAYERS_def)
  show "string_fits ''bob''" "string_fits ''pw''" "unat (69 :: i8) \<le> length bob_data - 2" "length bob_data \<le> BUFFER_SIZE"
    unfolding bob_data_def by code_simp+
qed (simp_all add: inv_Server_new)

end
