(* ===== verification/Server_Refinement.thy ===== *)
theory Server_Refinement
  imports Server_Session
begin

text \<open>
  The server implements the abstract server of \<open>Session_Spec\<close>: every step of the network thread is one of its events, and
  only appends to the data of a client. The theory \<open>Process\<close> extends this to the steps of both threads.
\<close>

section \<open>Clients over time\<close>

text \<open>New clients get new addresses, a destroyed client never comes back, and data is only appended for the others.\<close>

definition evolves :: "System \<Rightarrow> System \<Rightarrow> bool" where
  "evolves s t \<longleftrightarrow> length (clients s) \<le> length (clients t) \<and>
     (\<forall>c y. c < length (clients s) \<longrightarrow> heap_at (clients t) c = Some y \<longrightarrow>
        (\<exists>x. heap_at (clients s) c = Some x \<and> appends x y))"

lemma evolves_refl [simp]: "evolves s s"
  by (simp add: evolves_def appends_def)

lemma evolves_trans:
  assumes "evolves s t" "evolves t u"
  shows "evolves s u"
  unfolding evolves_def
proof (intro conjI allI impI)
  show "length (clients s) \<le> length (clients u)" using assms by (simp add: evolves_def)
next
  fix c z
  assume "c < length (clients s)" "heap_at (clients u) c = Some z"
  with assms show "\<exists>x. heap_at (clients s) c = Some x \<and> appends x z"
    unfolding evolves_def by (meson appends_trans less_le_trans)
qed

lemma appended_evolves: "appended s t \<Longrightarrow> evolves s t"
  unfolding evolves_def appended_def by (metis option_rel_Some2 order_refl)

text \<open>What every step leaves alone.\<close>

definition settles :: "System \<Rightarrow> System \<Rightarrow> bool" where
  "settles s t \<longleftrightarrow> rests s t \<and>
     (\<forall>c x y. heap_at (clients s) c = Some x \<longrightarrow> heap_at (clients t) c = Some y \<longrightarrow> grows x y)"

lemma settles_sight:
  assumes "settles s t" "heap_at (players s) r = Some y" "heap_at (players t) r = Some z"
  shows "same_sight y z"
proof -
  have "rests s t" using assms(1) by (simp add: settles_def)
  then show ?thesis using assms(3)
    by (rule rests_at) (use assms(2) heap_at_length [OF assms(2)] in auto)
qed

lemma grow_at: "grow s t \<Longrightarrow> rel_option grows (heap_at (clients s) c) (heap_at (clients t) c)"
  by (simp add: grow_def)

lemma effect_settles: "effect e s t \<Longrightarrow> settles s t"
  unfolding settles_def effect_def by (metis grow_at option.rel_sel option.sel option.distinct(1))

section \<open>Every step is an event\<close>

lemma spec_silent: "spec_step Silent a b \<longleftrightarrow> b = a"
  by (cases a) auto

definition refines :: "System \<Rightarrow> System \<Rightarrow> bool" where
  "refines s t \<longleftrightarrow> (\<exists>e. spec_step e (abs_server s) (abs_server t)) \<and> evolves s t \<and> settles s t"

lemma effect_refines: "effect e s t \<Longrightarrow> refines s t"
  using effect_settles [of e s t] by (auto simp: effect_def refines_def intro: appended_evolves grow_appended)

lemma effect_of_refines: "effect_of c s t \<Longrightarrow> refines s t"
  by (auto simp: effect_of_def effect_refines)

lemma quiet_running [simp]: "quiet s (s\<lparr>m_Running := b\<rparr>)"
  by (simp add: quiet_iff abs_server_def online_def [abs_def] World_GetPlayer_def grow_def option.rel_refl)

text \<open>Only the tables of clients and sessions change.\<close>

lemma online_clients [simp]: "online (s\<lparr>clients := cs, m_Sessions := ses\<rparr>) = online s" "online (s\<lparr>clients := cs\<rparr>) = online s"
  by (simp_all add: online_def [abs_def] World_GetPlayer_def)

lemma refines_AcceptClients:
  assumes "sys_inv s" "AcceptClients ok s = Inr t"
  shows "refines s t"
proof (cases ok)
  case True
  let ?c = "length (clients s)"
  have t: "t = s\<lparr>clients := clients s @ [Some (accepted ?c)], m_Sessions := ?c # m_Sessions s\<rparr>"
    using assms AcceptClients_eq by (simp add: True)
  have "?c \<notin> set (m_Sessions s)" using sys_invD(2) [OF assms(1)] by (simp add: sessions_ok_def)
  then have "spec_step (Connect ?c) (abs_server s) (abs_server t)" by (simp add: abs_server_def t)
  moreover have "evolves s t" by (auto simp: evolves_def t heap_at_append appends_def)
  moreover have "settles s t" by (auto simp: settles_def t heap_at_append)
  ultimately show ?thesis by (auto simp: refines_def t)
next
  case False
  with assms show ?thesis by (auto simp: AcceptClients_def intro: effect_refines [OF quiet_refl])
qed

lemma refines_destroy: "heap_at (clients s) c = Some x \<Longrightarrow> refines s (destroy_client c s)"
  by (auto simp: refines_def destroy_client_def abs_server_def evolves_def heap_at_update settles_def appends_def
      intro!: exI [of _ Silent])

lemma grows_complete_read: "reading x \<Longrightarrow> grows x (complete_read result x)"
  by (rule grows_strand) (simp_all add: complete_read_def)

lemma grows_complete_write: "write_wf x \<Longrightarrow> grows x (complete_write ok x)"
  by (rule grows_same) (simp_all add: complete_write_ok(2), simp_all add: complete_write_def split: option.split)

lemma network_refines: "network_step s t \<Longrightarrow> sys_inv s \<Longrightarrow> refines s t"
proof (induction rule: network_step.induct)
  case (received s c x result)
  from effect_refines [OF quiet_put_client [OF received(1) grows_complete_read [OF received(2)]]] show ?case .
next
  case (written s c x ok)
  then have "write_wf x" using sys_invD(5) by (auto simp: io_ok_def)
  from effect_refines [OF quiet_put_client [OF written(1) grows_complete_write [OF this]]] show ?case .
next
  case (strand now gen c s t)
  then show ?case using run_strand_outcome [of s now gen c] by (auto intro: effect_of_refines)
qed (auto simp: Run_def Close_def refines_destroy effect_refines [OF quiet_running] refines_AcceptClients)

end
