(* ===== verification/Game_Thread.thy ===== *)
theory Game_Thread
  imports Server_Refinement
begin

text \<open>
  The two threads of the process (\<open>src/src/Server.cpp\<close>, \<open>src/src/World.cpp\<close>). \<open>Server::Run\<close> executes the cycles of the world
  on one thread, the handlers of asio run on the other, and nothing keeps handlers out of a running cycle. A cycle is
  cut into the calls for single players, with the local variable \<open>playerList\<close> of \<open>World::Process\<close> as the state of
  the game thread; handlers may run between any two of them. The loop that processes the players is still one step,
  because it walks through the registry itself.

  Without interruption the steps are exactly the cycle of \<open>World_Tick\<close>. With interruptions the invariant of the server
  still holds at every point, and the game thread has a single fault: a player that has left during the cycle and whose
  client is gone.
\<close>

section \<open>The steps of the game thread\<close>

text \<open>Where the game thread is in \<open>World::Process\<close>: the players still to do, and \<open>playerList\<close>.\<close>

datatype game = Sleeping | Updating "ref list" "ref list" | Resetting "ref list" "ref list"

type_synonym machine = "System \<times> game"

fun game_step :: "(string \<times> ref) list \<Rightarrow> machine \<Rightarrow> fault + machine" where
  "game_step order (s, Sleeping) =
     (let ps = map snd order
      in bindR (foldR Player_Process ps s) (\<lambda>s. Inr (s\<lparr>playerList := ps\<rparr>, Updating ps ps)))"
| "game_step order (s, Updating (p # ps) all) = bindR (UpdatePlayer order p s) (\<lambda>s. Inr (s, Updating ps all))"
| "game_step order (s, Updating [] all) = Inr (s, Resetting all all)"
| "game_step order (s, Resetting (p # ps) all) =
     bindR (on_player p (\<lambda>pl. Inr (Player_Reset pl)) s) (\<lambda>s. Inr (s, Resetting ps all))"
| "game_step order (s, Resetting [] all) = Inr (release_players all (s\<lparr>playerList := []\<rparr>), Sleeping)"

text \<open>Some steps in a row, without a handler in between.\<close>

primrec game_run :: "nat \<Rightarrow> (string \<times> ref) list \<Rightarrow> machine \<Rightarrow> fault + machine" where
  "game_run 0 order m = Inr m"
| "game_run (Suc n) order m = bindR (game_step order m) (game_run n order)"

text \<open>The process: handlers and steps of the game thread in any order. A cycle only begins while the loop is running.\<close>

inductive process_step :: "machine \<Rightarrow> machine \<Rightarrow> bool" where
  network: "network_step s t \<Longrightarrow> process_step (s, g) (t, g)"
| game: "enumerates order s \<Longrightarrow> (g = Sleeping \<Longrightarrow> m_Running s) \<Longrightarrow> game_step order (s, g) = Inr m \<Longrightarrow>
    process_step (s, g) m"

inductive_cases process_stepE: "process_step (s, g) (t, h)"

inductive process_reaches :: "machine \<Rightarrow> bool" where
  new: "process_reaches (Server_new, Sleeping)"
| step: "process_reaches m \<Longrightarrow> process_step m n \<Longrightarrow> process_reaches n"

lemma process_reaches_steps: "process_step\<^sup>*\<^sup>* m n \<Longrightarrow> process_reaches m \<Longrightarrow> process_reaches n"
  by (induction rule: rtranclp_induct) (auto intro: process_reaches.step)

lemma network_runs: "network_step\<^sup>*\<^sup>* s t \<Longrightarrow> process_step\<^sup>*\<^sup>* (s, g) (t, g)"
  by (induction rule: rtranclp_induct) (auto intro: process_step.network rtranclp.rtrancl_into_rtrancl)

lemma network_reaches: "process_reaches (s, g) \<Longrightarrow> network_step\<^sup>*\<^sup>* s t \<Longrightarrow> process_reaches (t, g)"
  by (rule process_reaches_steps [OF network_runs])

section \<open>A cycle without interruption\<close>

lemma game_run_add: "game_run (m + n) order a = bindR (game_run m order a) (game_run n order)"
proof (induction m arbitrary: a)
  case (Suc m)
  then have "game_run (m + n) order = (\<lambda>a. bindR (game_run m order a) (game_run n order))" by (rule ext)
  then show ?case by (simp add: bindR_assoc)
qed simp

lemma game_run_updates:
  "game_run (length ps) order (s, Updating ps all) = bindR (foldR (UpdatePlayer order) ps s) (\<lambda>s. Inr (s, Updating [] all))"
  by (induction ps arbitrary: s) (simp_all add: bindR_assoc)

lemma game_run_resets:
  "game_run (length ps) order (s, Resetting ps all) =
   bindR (foldR (\<lambda>p. on_player p (\<lambda>pl. Inr (Player_Reset pl))) ps s) (\<lambda>s. Inr (s, Resetting [] all))"
  by (induction ps arbitrary: s) (simp_all add: bindR_assoc)

lemma game_run_cycle:
  "game_run (2 * length order + 3) order (s, Sleeping) = bindR (World_Process order s) (\<lambda>t. Inr (t, Sleeping))"
proof -
  have n: "2 * length order + 3 = 1 + (length (map snd order) + (1 + (length (map snd order) + 1)))" by simp
  show ?thesis
    unfolding n game_run_add
    by (simp add: game_run_updates [of "map snd order"] game_run_resets [of "map snd order"] bindR_assoc World_Process_def
        Update_def Let_def del: length_map)
qed

section \<open>The invariant of both threads\<close>

fun game_ok :: "machine \<Rightarrow> bool" where
  "game_ok (s, Sleeping) \<longleftrightarrow> playerList s = []"
| "game_ok (s, Updating ps all) \<longleftrightarrow> playerList s = all \<and> set ps \<subseteq> set all"
| "game_ok (s, Resetting ps all) \<longleftrightarrow> playerList s = all \<and> set ps \<subseteq> set all"

definition machine_inv :: "machine \<Rightarrow> bool" where
  "machine_inv m \<longleftrightarrow> sys_inv (fst m) \<and> game_ok m"

lemma game_ok_cong: "playerList t = playerList s \<Longrightarrow> game_ok (t, g) = game_ok (s, g)"
  by (cases g) simp_all

text \<open>The other thread keeps its hands off \<open>playerList\<close>.\<close>

lemma network_list: "network_step s t \<Longrightarrow> sys_inv s \<Longrightarrow> playerList t = playerList s"
  using network_refines by (simp add: refines_def settles_def rests_def)

lemma network_machine:
  assumes "network_step s t" "machine_inv (s, g)"
  shows "machine_inv (t, g)"
  using assms inv_network [OF assms(1)] game_ok_cong [OF network_list [OF assms(1)]] by (simp add: machine_inv_def)

lemma same_entries_playerList [simp]:
  "same_entries s (t\<lparr>playerList := ps\<rparr>) = same_entries s t" "same_entries (s\<lparr>playerList := ps\<rparr>) t = same_entries s t"
  by (simp_all add: same_entries_def)

lemma same_entries_refl [simp]: "same_entries s s"
  by (auto simp: same_entries_def option.rel_refl)

text \<open>The end of the cycle destroys the players that left during it.\<close>

lemma same_entries_release: "same_entries s (release_players ps s)"
  using release_players_frame [of ps s] release_players_at [of ps s] by (auto simp: same_entries_def option.rel_refl)

lemma world_ok_release:
  assumes "world_ok s"
  shows "world_ok (release_players ps s)"
proof -
  note frame = release_players_frame [of ps s] and keeps = release_players_keeps [of _ s ps]
  have reg: "registered r (release_players ps s) = registered r s" for r using frame by (simp add: registered_def)
  have ok: "player_ok r pl x (release_players ps s) = player_ok r pl x s" if "rooted r s" for r pl x
    using frame keeps [OF that] by (simp add: player_ok_def)
  have "registry_wf (release_players ps s)"
    by (rule registry_wf_cong [of _ s])
      (use assms frame keeps in \<open>simp_all add: world_ok_def rooted_def\<close>)
  moreover have "listed_ok r (release_players ps s)" if "r \<in> set (playerList s)" for r
  proof -
    have r: "rooted r s" "listed_ok r s" using that assms by (simp_all add: rooted_def world_ok_def)
    from r(2) show ?thesis using frame keeps [OF r(1)] ok [OF r(1)] by (simp add: listed_ok_def)
  qed
  ultimately show ?thesis
    using assms frame ok by (simp add: world_ok_def reg refs_ok_release)
qed

text \<open>A step succeeds, or it is about to update a player whose client is gone.\<close>

definition abandoned :: "ref \<Rightarrow> System \<Rightarrow> bool" where
  "abandoned p s \<longleftrightarrow> (\<exists>pl. heap_at (players s) p = Some pl \<and> heap_at (clients s) (m_Client pl) = None)"

lemma abandoned_faults: "abandoned p s \<Longrightarrow> UpdatePlayer order p s = Inl NullPointer"
  by (auto simp: abandoned_def UpdatePlayer_def deref_def GetClient_def)

lemma abandoned_left:
  assumes "world_ok s" "abandoned p s"
  shows "\<not> registered p s"
proof
  assume "registered p s"
  then obtain pl x where "player_ok p pl x s" using world_ok_member [OF assms(1)] by metis
  with assms(2) show False by (auto simp: abandoned_def player_ok_def)
qed

lemma begin_step:
  assumes "sys_inv s" "enumerates order s"
  obtains t where "game_step order (s, Sleeping) = Inr (t, Updating (map snd order) (map snd order))"
    "sys_inv t" "playerList t = map snd order" "same_entries s t"
proof -
  let ?ps = "map snd order"
  have reg: "\<forall>p\<in>set ?ps. registered p s" using assms(2) by (auto simp: enumerates_def registered_def)
  from process_pass.run [of s s ?ps "{}"] sys_invD(1) [OF assms(1)] reg obtain t where
    t: "foldR Player_Process ?ps s = Inr t" "world_ok t" "same_registry s t"
    by auto
  have "\<forall>p\<in>set ?ps. registered p t" using reg t(3) by (simp add: same_registry_def registered_def)
  then have "world_ok (t\<lparr>playerList := ?ps\<rparr>)" by (rule world_ok_list [OF t(2)])
  moreover have ent: "same_entries s (t\<lparr>playerList := ?ps\<rparr>)" using same_registry_entries [OF t(3)] by simp
  ultimately have "sys_inv (t\<lparr>playerList := ?ps\<rparr>)" by (rule sys_inv_cycle [OF assms(1)])
  with t(1) ent show ?thesis by (intro that [of "t\<lparr>playerList := ?ps\<rparr>"]) (simp_all add: Let_def)
qed

lemma update_listed:
  assumes "sys_inv s" "p \<in> set (playerList s)" "enumerates order s" "\<not> abandoned p s"
  obtains t pl x x' locals where "UpdatePlayer order p s = Inr t" "player_ok p pl x s"
    "changes p pl (pl\<lparr>m_LocalPlayers := locals\<rparr>) x x' s t" "world_ok t"
proof -
  note w = sys_invD(1) [OF assms(1)]
  have "listed_ok p s" using w assms(2) by (simp add: world_ok_def)
  then obtain pl where pl: "heap_at (players s) p = Some pl" "member_ok p pl"
    "\<And>x. heap_at (clients s) (m_Client pl) = Some x \<Longrightarrow> player_ok p pl x s" by (rule listed_okE) blast
  with assms(4) obtain x where x: "player_ok p pl x s" by (auto simp: abandoned_def)
  have root: "rooted p s" using assms(2) by (simp add: rooted_def)
  have order: "set order = set (m_Players s)" "distinct (map snd order)" using assms(3) by (simp_all add: enumerates_def)
  show ?thesis by (rule update_rooted [OF w x pl(2) root order]) (erule that [OF _ x])
qed

lemma update_step:
  assumes "sys_inv s" "p \<in> set (playerList s)" "enumerates order s" "\<not> abandoned p s"
  obtains t where "UpdatePlayer order p s = Inr t" "sys_inv t" "playerList t = playerList s" "same_entries s t"
proof -
  obtain t pl x x' locals where t: "UpdatePlayer order p s = Inr t" "player_ok p pl x s"
    "changes p pl (pl\<lparr>m_LocalPlayers := locals\<rparr>) x x' s t" "world_ok t"
    using update_listed [OF assms] .
  have ent: "same_entries s t" by (rule changes_entries [OF t(3,2)])
  have "playerList t = playerList s" using t(3) by (simp add: changes_def)
  with t(1) ent sys_inv_cycle [OF assms(1) t(4) ent] show ?thesis by (intro that)
qed

lemma reset_step:
  assumes "sys_inv s" "p \<in> set (playerList s)"
  obtains t where "on_player p (\<lambda>pl. Inr (Player_Reset pl)) s = Inr t" "sys_inv t" "playerList t = playerList s"
    "same_entries s t"
proof -
  obtain pl where pl: "heap_at (players s) p = Some pl"
    "on_player p (\<lambda>pl. Inr (Player_Reset pl)) s = Inr (put_player p (Player_Reset pl) s)"
    "world_ok (put_player p (Player_Reset pl) s)"
    using reset_listed [OF sys_invD(1) [OF assms(1)] assms(2)] .
  have "m_Username (Player_Reset pl) = m_Username pl" "m_Client (Player_Reset pl) = m_Client pl"
    by (simp_all add: Player_Reset_def ClearUpdateFlags_def SetSecondaryDirection_def SetPrimaryDirection_def)
  then have ent: "same_entries s (put_player p (Player_Reset pl) s)"
    using pl(1) by (auto simp: same_entries_def at_put_player option.rel_refl)
  from pl(2) ent sys_inv_cycle [OF assms(1) pl(3) ent] show ?thesis by (intro that) simp_all
qed

lemma game_step_ok:
  assumes "machine_inv (s, g)" "enumerates order s"
  shows "(\<exists>t h. game_step order (s, g) = Inr (t, h) \<and> machine_inv (t, h) \<and> same_entries s t) \<or>
    (\<exists>p ps all. g = Updating (p # ps) all \<and> abandoned p s)"
proof -
  have inv: "sys_inv s" "game_ok (s, g)" using assms(1) by (simp_all add: machine_inv_def)
  show ?thesis
  proof (cases g)
    case Sleeping
    with begin_step [OF inv(1) assms(2)] show ?thesis by (metis machine_inv_def fst_conv game_ok.simps(2) subset_refl)
  next
    case (Updating ps all)
    show ?thesis
    proof (cases ps)
      case Nil
      with Updating inv show ?thesis by (simp add: machine_inv_def)
    next
      case (Cons p qs)
      show ?thesis
      proof (cases "abandoned p s")
        case False
        have "p \<in> set (playerList s)" using inv(2) by (simp add: Updating Cons)
        from update_step [OF inv(1) this assms(2) False] obtain t where
          "UpdatePlayer order p s = Inr t" "sys_inv t" "playerList t = playerList s" "same_entries s t" .
        with inv(2) show ?thesis by (simp add: Updating Cons machine_inv_def)
      qed (simp add: Updating Cons)
    qed
  next
    case (Resetting ps all)
    show ?thesis
    proof (cases ps)
      case Nil
      have "world_ok (release_players all (s\<lparr>playerList := []\<rparr>))"
        by (intro world_ok_release world_ok_list [OF sys_invD(1) [OF inv(1)]]) simp
      moreover have "same_entries s (release_players all (s\<lparr>playerList := []\<rparr>))"
        using same_entries_release [of "s\<lparr>playerList := []\<rparr>" all] by simp
      moreover have "playerList (release_players all (s\<lparr>playerList := []\<rparr>)) = []"
        using release_players_frame [of all "s\<lparr>playerList := []\<rparr>"] by simp
      ultimately show ?thesis
        using sys_inv_cycle [OF inv(1)] by (simp add: Resetting Nil machine_inv_def)
    next
      case (Cons p qs)
      have "p \<in> set (playerList s)" using inv(2) by (simp add: Resetting Cons)
      from reset_step [OF inv(1) this] obtain t where "on_player p (\<lambda>pl. Inr (Player_Reset pl)) s = Inr t" "sys_inv t"
        "playerList t = playerList s" "same_entries s t" .
      with inv(2) show ?thesis by (simp add: Resetting Cons machine_inv_def)
    qed
  qed
qed

lemma process_step_ok:
  assumes "process_step m n" "machine_inv m"
  shows "machine_inv n \<and> (network_step (fst m) (fst n) \<or> same_entries (fst m) (fst n))"
  using assms
proof (induction rule: process_step.induct)
  case (network s t g)
  then show ?case using network_machine by auto
next
  case (game order s g m)
  from game_step_ok [OF game(4,1)] show ?case
    using game(3) by (auto simp: abandoned_faults)
qed

lemma process_inv: "process_reaches m \<Longrightarrow> machine_inv m"
proof (induction rule: process_reaches.induct)
  case new
  then show ?case by (simp add: machine_inv_def inv_Server_new) (simp add: Server_new_def)
qed (use process_step_ok in blast)

lemma process_sys_inv: "process_reaches (s, g) \<Longrightarrow> sys_inv s"
  using process_inv [of "(s, g)"] by (simp add: machine_inv_def)

end
