(* ===== verification/Process.thy ===== *)
theory Process
  imports Game_Thread
begin

text \<open>
  What holds in every reachable state of the process, with handlers between the steps of a running cycle: the consistency
  of its state, the refinement of the abstract server, the outcome of handlers and of the steps of the game
  thread, the order of the data of a client, and what happens to a player that leaves during a cycle.
\<close>

section \<open>Every step is an event\<close>

lemma process_step_refines:
  assumes "process_step (s, g) (t, h)" "machine_inv (s, g)"
  shows "(\<exists>e. spec_step e (abs_server s) (abs_server t)) \<and> evolves s t"
proof -
  note ok = process_step_ok [OF assms]
  have inv: "sys_inv s" "sys_inv t" using assms(2) ok by (simp_all add: machine_inv_def)
  from ok have "network_step s t \<or> same_entries s t" by simp
  then show ?thesis
  proof
    assume "network_step s t"
    from network_refines [OF this inv(1)] show ?thesis by (simp add: refines_def)
  next
    assume "same_entries s t"
    from quiet_entries [OF inv this] show ?thesis
      by (auto simp: spec_silent appended_evolves intro!: exI [of _ Silent])
  qed
qed

lemma process_evolves:
  assumes "process_step\<^sup>*\<^sup>* m n" "machine_inv m"
  shows "machine_inv n \<and> evolves (fst m) (fst n)"
  using assms
proof (induction rule: rtranclp_induct)
  case (step n k)
  then show ?case
    using process_step_ok [OF step(2)] process_step_refines [of "fst n" "snd n" "fst k" "snd k"]
    by (auto intro: evolves_trans)
qed simp

section \<open>A cycle is a run of the game thread\<close>

lemma game_run_steps:
  "game_run n order m = Inr m' \<Longrightarrow> machine_inv m \<Longrightarrow> enumerates order (fst m) \<Longrightarrow> m_Running (fst m) \<Longrightarrow>
   process_step\<^sup>*\<^sup>* m m'"
proof (induction n arbitrary: m)
  case (Suc n)
  obtain s g where m: "m = (s, g)" by (cases m)
  from Suc.prems(1) obtain k where k: "game_step order m = Inr k" "game_run n order k = Inr m'"
    by (auto simp: fault_simps)
  have step: "process_step m k" using Suc.prems(3,4) k(1) by (auto simp: m intro: process_step.game)
  obtain t h where t: "game_step order (s, g) = Inr (t, h)" "same_entries s t"
    using game_step_ok [of s g order] Suc.prems(2,3) k(1) by (auto simp: m abandoned_faults)
  with k(1) have "k = (t, h)" by (simp add: m)
  with t(2) Suc.prems(3,4) have "enumerates order (fst k)" "m_Running (fst k)"
    by (simp_all add: m enumerates_def same_entries_def)
  moreover have "machine_inv k" using process_step_ok [OF step Suc.prems(2)] by simp
  ultimately have "process_step\<^sup>*\<^sup>* k m'" by (intro Suc.IH [OF k(2)])
  with step show ?case by (rule converse_rtranclp_into_rtranclp)
qed simp

lemma cycle_steps:
  assumes "machine_inv (s, Sleeping)" "m_Running s" "enumerates order s" "World_Process order s = Inr t"
  shows "process_step\<^sup>*\<^sup>* (s, Sleeping) (t, Sleeping)"
  by (rule game_run_steps [of "2 * length order + 3" order]) (use assms in \<open>simp_all add: game_run_cycle\<close>)

lemma new_process: "network_step\<^sup>*\<^sup>* Server_new s \<Longrightarrow> process_reaches (s, Sleeping)"
  by (rule network_reaches [OF process_reaches.new])

lemma accepting_process: "process_reaches (accepting_server, Sleeping)"
  by (rule new_process [OF accepting_reached])

section \<open>A client leaves\<close>

text \<open>
  Once a read has failed, the handlers on the strand of a client run out: they start at most one more write, and if that
  fails as well, nothing holds the client any more.
\<close>

lemma strand_handler_runs:
  assumes "sys_inv s" "heap_at (clients s) c = Some x" "m_Strand x = h # hs" "\<forall>data. h \<noteq> ReadDone (Some data)"
  obtains t y where "network_step s t" "sys_inv t" "heap_at (clients t) c = Some y" "m_Strand y = hs" "reading y = reading x"
proof (cases "h = ReadDone None")
  case True
  let ?y = "x\<lparr>m_Strand := hs\<rparr>" and ?s = "put_client c (x\<lparr>m_Strand := hs\<rparr>) s"
  note x = assms(3) [unfolded True]
  have at: "heap_at (clients ?s) c = Some ?y" using assms(2) by (simp add: at_put_client)
  obtain t where t: "Disconnect c ?s = Inr t" "clients t = clients (put_client c (closed ?y) ?s)"
    using sys_inv_Disconnect [OF inv_enter_read(1) [OF assms(1,2) x] at] .
  have "run_strand 0 0 c s = Some (Inr t)" using run_strand_eq [OF assms(2) x] t(1) by (simp add: read_done_def)
  then have step: "network_step s t" by (rule network_step.strand)
  have "heap_at (clients t) c = Some (closed ?y)" using assms(2) by (simp add: t(2) at_put_client)
  then show ?thesis by (rule that [OF step inv_network [OF step assms(1)]]) simp_all
next
  case False
  with assms(4) have "\<forall>r. h \<noteq> ReadDone r" by (metis option.exhaust)
  from write_handler [OF assms(1-3) this, of 0 0] obtain t y where
    t: "run_strand 0 0 c s = Some (Inr t)" "sys_inv t" "heap_at (clients t) c = Some y" "m_Strand y = hs" "reading y = reading x"
    by (auto simp: write_handled_def)
  from t(1) have "network_step s t" by (rule network_step.strand)
  with t show ?thesis by (intro that)
qed

lemma strand_drains:
  assumes "sys_inv s" "heap_at (clients s) c = Some x" "\<forall>data. ReadDone (Some data) \<notin> set (m_Strand x)"
  shows "\<exists>t y. network_step\<^sup>*\<^sup>* s t \<and> sys_inv t \<and> heap_at (clients t) c = Some y \<and> m_Strand y = [] \<and> reading y = reading x"
  using assms
proof (induction "m_Strand x" arbitrary: s x)
  case Nil
  then show ?case by (intro exI [of _ s] exI [of _ x]) simp
next
  case (Cons h hs)
  have x: "m_Strand x = h # hs" using Cons.hyps(2) by simp
  then have "\<forall>data. h \<noteq> ReadDone (Some data)" using Cons.prems(3) by auto
  from strand_handler_runs [OF Cons.prems(1,2) x this] obtain t y where
    t: "network_step s t" "sys_inv t" "heap_at (clients t) c = Some y" "m_Strand y = hs" "reading y = reading x" .
  moreover have "\<forall>data. ReadDone (Some data) \<notin> set (m_Strand y)" using Cons.prems(3) x by (simp add: t(4))
  ultimately obtain u z where "network_step\<^sup>*\<^sup>* t u" "sys_inv u" "heap_at (clients u) c = Some z" "m_Strand z = []"
    "reading z = reading y"
    using Cons.hyps(1) [OF t(4) [symmetric]] by blast
  with t(1,5) show ?case by (metis converse_rtranclp_into_rtranclp)
qed

lemma read_results_mem: "ReadDone r \<in> set hs \<longleftrightarrow> r \<in> set (read_results hs)"
  by (induction hs rule: read_results.induct) auto

lemma client_vanishes:
  assumes "sys_inv s" "heap_at (clients s) c = Some x" "reading x"
  shows "\<exists>t. network_step\<^sup>*\<^sup>* s t \<and> heap_at (clients t) c = None"
proof -
  let ?x = "complete_read None x" and ?s = "put_client c (complete_read None x) s"
  have "read_fits None" by (simp add: read_fits_def)
  with assms(2,3) have step: "network_step s ?s" by (intro network_step.received)
  have at: "heap_at (clients ?s) c = Some ?x" using assms(2) by (simp add: at_put_client)
  have "read_results (m_Strand x) = []"
    using sys_invD(5) [OF assms(1,2)] assms(3) by (simp add: io_ok_def strand_ok_def)
  then have "\<forall>data. ReadDone (Some data) \<notin> set (m_Strand ?x)" by (simp add: complete_read_def read_results_mem)
  from strand_drains [OF inv_network [OF step assms(1)] at this] obtain t y where
    t: "network_step\<^sup>*\<^sup>* ?s t" "sys_inv t" "heap_at (clients t) c = Some y" "m_Strand y = []" "\<not> reading y"
    by (auto simp: complete_read_def)
  from step t(1) have run: "network_step\<^sup>*\<^sup>* s t" by (rule converse_rtranclp_into_rtranclp)
  show ?thesis
  proof (cases "write_op y")
    case None
    with t(4,5) have "\<not> held y" by (simp add: held_def)
    with t(3) have "network_step t (destroy_client c t)" by (rule network_step.destroy)
    with run have "network_step\<^sup>*\<^sup>* s (destroy_client c t)" by (rule rtranclp.rtrancl_into_rtrancl)
    moreover have "heap_at (clients (destroy_client c t)) c = None" using t(3) by (simp add: destroy_client_def heap_at_live)
    ultimately show ?thesis by blast
  next
    case (Some data)
    let ?z = "complete_write False y" and ?t = "put_client c (complete_write False y) t"
    have fail: "network_step t ?t" using t(3) Some by (intro network_step.written) simp_all
    have atz: "heap_at (clients ?t) c = Some ?z" "m_Strand ?z = [WriteDone False]" "write_op ?z = None" "\<not> reading ?z"
      using t(3-5) Some by (simp_all add: at_put_client complete_write_def)
    let ?w = "?z\<lparr>m_Strand := []\<rparr>"
    have io: "io_ok None c ?z" using sys_invD(5) [OF inv_network [OF fail t(2)] atz(1)] .
    then have "io_ok None c (closed ?w)" "grows ?z ?w"
      using atz(2,3) by (auto simp: io_ok_def write_wf_def strand_ok_def posted_def intro!: grows_same)
    moreover have "same_session ?z ?w" by (simp add: same_session_def)
    ultimately obtain u where u: "Disconnect c (put_client c ?w ?t) = Inr u" "heap_at (clients u) c = Some (closed ?w)"
      using inv_disconnect_pop [OF inv_network [OF fail t(2)] atz(1), of ?w] by metis
    have "run_strand 0 0 c ?t = Some (Inr u)" using run_strand_eq [OF atz(1,2)] u(1) by (simp add: write_done_def)
    then have ended: "network_step ?t u" by (rule network_step.strand)
    have "\<not> held (closed ?w)" using atz(3,4) by (simp add: held_def)
    with u(2) have "network_step u (destroy_client c u)" by (rule network_step.destroy)
    with run fail ended have "network_step\<^sup>*\<^sup>* s (destroy_client c u)" by (meson rtranclp.rtrancl_into_rtrancl)
    moreover have "heap_at (clients (destroy_client c u)) c = None" using u(2) by (simp add: destroy_client_def heap_at_live)
    ultimately show ?thesis by blast
  qed
qed

text \<open>A player of \<open>playerList\<close> outlives its client.\<close>

lemma network_settles: "network_step s t \<Longrightarrow> sys_inv s \<Longrightarrow> settles s t"
  using network_refines by (simp add: refines_def)

lemma network_player:
  assumes "network_step\<^sup>*\<^sup>* s t" "sys_inv s" "p \<in> set (playerList s)" "heap_at (players s) p = Some pl"
  shows "sys_inv t \<and> playerList t = playerList s \<and> (\<exists>pl'. heap_at (players t) p = Some pl' \<and> m_Client pl' = m_Client pl)"
  using assms
proof (induction rule: rtranclp_induct)
  case (step t u)
  then obtain pl' where t: "sys_inv t" "playerList t = playerList s" "heap_at (players t) p = Some pl'" "m_Client pl' = m_Client pl"
    by blast
  have u: "sys_inv u" "playerList u = playerList t"
    using inv_network [OF step(2) t(1)] network_list [OF step(2) t(1)] by simp_all
  then have "listed_ok p u" using sys_invD(1) [OF u(1)] t(2) step.prems(2) by (simp add: world_ok_def)
  then obtain pl2 where pl2: "heap_at (players u) p = Some pl2" by (auto simp: listed_ok_def)
  have "m_Client pl2 = m_Client pl'"
    using settles_sight [OF network_settles [OF step(2) t(1)] t(3) pl2] by (simp add: same_sight_def)
  with u t pl2 show ?case by simp
qed simp

lemma chain_directions:
  "chain x y ws \<Longrightarrow> w \<in> set ws \<Longrightarrow> m_Direction w \<noteq> -1 \<Longrightarrow> unat (m_Direction w) < 8"
  by (induction ws arbitrary: x y) (auto simp: adjacent_def)

section \<open>A player in the middle of a cycle\<close>

text \<open>A concrete run: bob has logged in, the loop is started, and a cycle has come to his update.\<close>

lemma updating_reached:
  obtains s p pl x where "process_reaches (s, Updating [p] [p])" "m_Players s = [(''bob'', p)]"
    "heap_at (players s) p = Some pl" "heap_at (clients s) (m_Client pl) = Some x" "reading x" "m_Running s"
    "enumerates [(''bob'', p)] s"
proof -
  obtain s y p where reached: "network_step\<^sup>*\<^sup>* Server_new s" and
    s: "m_Players s = [(''bob'', p)]" "heap_at (clients s) 0 = Some y" "GetPlayer y s = Some p" "reading y"
    using connect_run_result [OF bob_login(1-3) bob_data_def bob_login(4-9), of 1 2 7 0] by (auto simp: Server_new_def)
  let ?r = "Run s" and ?order = "[(''bob'', p)]"
  have run: "process_reaches (?r, Sleeping)"
    by (rule process_reaches.step [OF new_process [OF reached] process_step.network [OF network_step.start]])
  have order: "enumerates ?order ?r" "m_Running ?r" using s(1) by (simp_all add: enumerates_def Run_def)
  note inv = process_sys_inv [OF run]
  obtain t where t: "game_step ?order (?r, Sleeping) = Inr (t, Updating [p] [p])" "sys_inv t" "same_entries ?r t"
    using begin_step [OF inv order(1)] by auto
  have "process_step (?r, Sleeping) (t, Updating [p] [p])" using order t(1) by (intro process_step.game)
  then have reaches: "process_reaches (t, Updating [p] [p])" by (rule process_reaches.step [OF run])
  have reg: "m_Players t = [(''bob'', p)]" "m_Running t" "enumerates ?order t"
    using t(3) s(1) order by (simp_all add: same_entries_def enumerates_def) (simp add: Run_def)
  have p: "registered p t" using reg(1) by (simp add: registered_def)
  obtain pl x where pl: "player_ok p pl x t" using sys_invD(1) [OF t(2)] p by (rule world_ok_member)
  then have at: "heap_at (players t) p = Some pl" "heap_at (clients t) (m_Client pl) = Some x" by (simp_all add: player_ok_def)
  have "m_Client pl = 0"
  proof -
    obtain pl0 where "heap_at (players ?r) p = Some pl0" "m_Client pl = m_Client pl0"
      using t(3) at(1) unfolding same_entries_def by blast
    moreover have "m_Player y = Some p" using s(3) by (auto simp: GetPlayer_def split: option.splits)
    ultimately show ?thesis using sys_invD(6) [OF inv, of 0 y] s(2) by (auto simp: session_ok_def Run_def)
  qed
  moreover have "rel_option sends (heap_at (clients ?r) 0) (heap_at (clients t) 0)" using t(3) by (simp add: same_entries_def)
  ultimately have "reading x" using at(2) s(2,4) by (auto simp: Run_def sends_def)
  then show ?thesis using reaches reg at by (intro that)
qed

section \<open>Properties\<close>

text \<open>
  C1: the state of the server is consistent in every reachable state, also in the middle of a cycle. The table of sessions holds exactly the clients
  whose connection has not ended; usernames and indices of the registered players are unique, and at most \<open>MAX_PLAYERS\<close>
  are registered; every registered player belongs to a live, logged-in client of the table that refers back to it under
  the same username.
\<close>

theorem reachable_consistent:
  assumes "process_reaches (s, g)"
  shows "distinct (m_Sessions s) \<and>
    (\<forall>c. c \<in> set (m_Sessions s) \<longleftrightarrow> (\<exists>x. heap_at (clients s) c = Some x \<and> \<not> m_Disconnected x)) \<and>
    distinct (map fst (m_Players s)) \<and> inj_on (index_of s) (snd ` set (m_Players s)) \<and>
    length (m_Players s) \<le> MAX_PLAYERS \<and>
    (\<forall>(name, p) \<in> set (m_Players s). \<exists>pl x.
       heap_at (players s) p = Some pl \<and> m_Username pl = name \<and> unat (m_Index pl) < MAX_PLAYERS \<and>
       heap_at (clients s) (m_Client pl) = Some x \<and> m_Client pl \<in> set (m_Sessions s) \<and>
       m_Stage x = LOGGED_IN \<and> m_Player x = Some p \<and> m_ClientUsername x = name)"
proof -
  note inv = sys_invD [OF process_sys_inv [OF assms]]
  have "\<exists>pl x. heap_at (players s) p = Some pl \<and> m_Username pl = name \<and> unat (m_Index pl) < MAX_PLAYERS \<and>
       heap_at (clients s) (m_Client pl) = Some x \<and> m_Client pl \<in> set (m_Sessions s) \<and>
       m_Stage x = LOGGED_IN \<and> m_Player x = Some p \<and> m_ClientUsername x = name"
    if e: "(name, p) \<in> set (m_Players s)" for name p
  proof -
    have reg: "registered p s" using e by (force simp: registered_def)
    obtain pl where pl: "heap_at (players s) p = Some pl" "m_Username pl = name" "unat (m_Index pl) < MAX_PLAYERS"
      using registry_entry [OF inv(3) e] .
    obtain x where ok: "player_ok p pl x s" and stage: "m_Stage x = LOGGED_IN"
      using registered_client [OF process_sys_inv [OF assms] reg pl(1)] .
    then have x: "heap_at (clients s) (m_Client pl) = Some x" "m_Player x = Some p" by (simp_all add: player_ok_def)
    with inv(6) [OF x(1)] have "\<not> m_Disconnected x" "m_ClientUsername x = name"
      using x(2) pl(1,2) stage by (auto simp: session_ok_def)
    with pl x stage inv(2) show ?thesis by (auto simp: sessions_ok_def)
  qed
  moreover have "distinct (map fst (m_Players s))" "inj_on (index_of s) (snd ` set (m_Players s))"
    using inv(3) by (simp_all add: registry_wf_def)
  moreover have "length (m_Players s) \<le> MAX_PLAYERS" using inv(3) by (rule registry_size)
  moreover have "distinct (m_Sessions s)"
    "\<forall>c. c \<in> set (m_Sessions s) \<longleftrightarrow> (\<exists>x. heap_at (clients s) c = Some x \<and> \<not> m_Disconnected x)"
    using inv(2) by (simp_all add: sessions_ok_def)
  ultimately show ?thesis by blast
qed

theorem reachable_consistent_witness:
  "m_Sessions accepting_server = [0] \<and> (\<exists>x. heap_at (clients accepting_server) 0 = Some x \<and> \<not> m_Disconnected x)"
proof -
  have m: "m_Sessions accepting_server = [0]" by (simp add: accepting_server_def)
  have "\<forall>c. c \<in> set (m_Sessions accepting_server) \<longleftrightarrow>
      (\<exists>x. heap_at (clients accepting_server) c = Some x \<and> \<not> m_Disconnected x)"
    using reachable_consistent [OF accepting_process] by (elim conjE)
  from this [THEN spec, of 0] m show ?thesis by simp
qed

text \<open>
  C2: the server refines the abstract server. It starts with no sessions and no users. Every step of a reachable state, be it a handler
  or a step of the game thread in the middle of a cycle, is one event: nothing visible happens, a new session is opened, a user comes online in a session that has none
  while at most 2047 others are, or a session ends and takes its user offline. In particular a
  cycle of the world, a completed operation and the destruction of a client change neither sessions nor users.
\<close>

theorem server_refines:
  assumes "process_reaches (s, g)" "process_step (s, g) (t, h)"
  shows "abs_server Server_new = ({}, Map.empty) \<and> (\<exists>e. spec_step e (abs_server s) (abs_server t))"
proof
  show "abs_server Server_new = ({}, Map.empty)"
    by (simp add: abs_server_def online_def [abs_def] World_GetPlayer_def) (simp add: Server_new_def)
  show "\<exists>e. spec_step e (abs_server s) (abs_server t)"
    using process_step_refines [OF assms(2) process_inv [OF assms(1)]] by (elim conjE)
qed

theorem server_refines_witness:
  "\<exists>e. spec_step e ({}, Map.empty) (abs_server accepting_server)"
proof -
  have "AcceptClients True Server_new = Inr accepting_server"
    using AcceptClients_eq [OF inv_Server_new] by (simp add: accepting_server_def Server_new_def)
  then have "process_step (Server_new, Sleeping) (accepting_server, Sleeping)"
    by (intro process_step.network network_step.accept)
  from server_refines [OF process_reaches.new this] show ?thesis by auto
qed

text \<open>
  C4: a cycle that no handler interrupts never faults. From every reachable state in which the game thread sleeps, a round
  of \<open>Run\<close> returns and leads to such a state again, for every order in which the players are enumerated; it neither
  adds nor removes players or sessions and does not stop the loop. The time it takes and the pause after it make up the cycle time, unless the round alone takes longer.
\<close>

theorem cycles_run:
  assumes "process_reaches (s, Sleeping)" "m_Running s" "enumerates order s"
  shows "\<exists>pause t. Run_cycle order elapsed s = Inr (pause, t) \<and> process_reaches (t, Sleeping) \<and> m_Running t \<and>
    m_Players t = m_Players s \<and> m_Sessions t = m_Sessions s \<and>
    elapsed + (case pause of Some p \<Rightarrow> p | None \<Rightarrow> 0) = max elapsed CYCLE_RATE_MS"
proof -
  obtain t where t: "World_Process order s = Inr t" "same_registry s t"
    using sys_inv_World_Process [OF process_sys_inv [OF assms(1)] assms(3)] .
  then have run: "Run_cycle order elapsed s = Inr (sleep_time elapsed, t)" by (simp add: Run_cycle_def Server_Process_def)
  have "process_step\<^sup>*\<^sup>* (s, Sleeping) (t, Sleeping)" by (rule cycle_steps [OF process_inv [OF assms(1)] assms(2,3) t(1)])
  then have "process_reaches (t, Sleeping)" by (rule process_reaches_steps [OF _ assms(1)])
  moreover have "elapsed + (case sleep_time elapsed of Some p \<Rightarrow> p | None \<Rightarrow> 0) = max elapsed CYCLE_RATE_MS"
    by (simp add: sleep_time_def max_def)
  ultimately show ?thesis using run t(2) assms(2) by (auto simp: same_registry_def)
qed

theorem cycles_run_witness:
  "\<exists>t. Run_cycle [] 25 (Run accepting_server) = Inr (Some 575, t) \<and> process_reaches (t, Sleeping)"
proof -
  have "process_reaches (Run accepting_server, Sleeping)"
    by (rule process_reaches.step [OF accepting_process process_step.network [OF network_step.start]])
  moreover have "m_Running (Run accepting_server)" "enumerates [] (Run accepting_server)"
    by (simp_all add: Run_def enumerates_def accepting_server_def Server_new_def)
  ultimately show ?thesis using cycles_run [of "Run accepting_server" "[]" 25]
    by (auto simp: CYCLE_RATE_MS_def split: option.splits)
qed

text \<open>
  C5: in a reachable state, a handler on a strand either returns and leads to a reachable state, or it is the completion
  of a successful read. So a fault or a handler that does not return is caused by the received data; no other handler,
  and no history of accepted, failed and ended connections, can stop the server. The faults are out-of-range reads
  of the input, a negative count of path steps, a missing player, and signed overflow: an operation is never started
  twice.
\<close>

theorem strand_outcome:
  assumes "process_reaches (s, g)"
  shows "(\<exists>t. run_strand now gen c s = Some (Inr t) \<and> process_reaches (t, g)) \<or>
    (\<exists>x data hs. heap_at (clients s) c = Some x \<and> m_Strand x = ReadDone (Some data) # hs \<and>
       length data \<le> BUFFER_SIZE \<and>
       (run_strand now gen c s = None \<or>
        (\<exists>e \<in> {OutOfBounds, LengthError, NullPointer, SignedOverflow}. run_strand now gen c s = Some (Inl e))))"
proof (cases "\<exists>t. run_strand now gen c s = Some (Inr t)")
  case True
  then obtain t where t: "run_strand now gen c s = Some (Inr t)" by blast
  then have "process_step (s, g) (t, g)" by (intro process_step.network network_step.strand)
  with assms have "process_reaches (t, g)" by (rule process_reaches.step)
  with t show ?thesis by blast
next
  case False
  note inv = process_sys_inv [OF assms]
  from False obtain x h hs where x: "heap_at (clients s) c = Some x" "m_Strand x = h # hs"
    by (auto simp: run_strand_def split: option.splits list.splits)
  have ok: "strand_ok x" using sys_invD(5) [OF inv x(1)] by (simp add: io_ok_def)
  have "\<exists>result. h = ReadDone result"
    using write_handler [OF inv x, of now gen] False by (auto simp: write_handled_def)
  then obtain result where h: "h = ReadDone result" by blast
  obtain t where "Disconnect c (put_client c (x\<lparr>m_Strand := hs\<rparr>) s) = Inr t"
    using inv_enter_read(1) [OF inv x(1) x(2) [unfolded h]] x(1) sys_inv_Disconnect by (metis at_put_client)
  then obtain data where data: "result = Some data"
    using False run_strand_eq [OF x] h by (cases result) (auto simp: read_done_def)
  have "length data \<le> BUFFER_SIZE"
    using inv_enter_read(2) [OF inv x(1) x(2) [unfolded h]] by (simp add: data read_fits_def)
  moreover have "run_strand now gen c s = None \<or> (\<exists>e\<in>packet_faults. run_strand now gen c s = Some (Inl e))"
    using False run_strand_outcome [OF inv, of now gen c]
    by (cases "run_strand now gen c s") (auto elim!: outcome_cases)
  ultimately show ?thesis using x h data unfolding packet_faults_def by blast
qed

theorem strand_outcome_witness:
  "\<exists>t. run_strand 0 0 0 accepting_server = Some (Inr t) \<and> process_reaches (t, Sleeping)"
  using strand_outcome [OF accepting_process, of 0 0 0] by (simp add: accepting_server_def heap_at_def accepted_def Client_new_def)

text \<open>
  C12: a client can log in. From every reachable state in which the name is not online and an index is free: the server
  accepts a connection, receives the request 14, runs the two handlers this puts on the strand, receives a well-formed
  login block, and runs its handler. This never faults and leads to a reachable state in which the name is registered to
  a new player of the client, the client is logged in and waits for more data, the answer to the first message is
  being written, and the response 2 with the packets of the login follow it, encrypted under the session key.
\<close>

theorem connect_and_login:
  assumes "process_reaches (s, g)" "World_GetPlayer username s = None" "used_indices (m_OccupiedIndices s) \<noteq> {..<2048}"
    and "data = loginType # blockLength #
      login_block magic mem sums rsaLength clientHalf serverHalf uid username password"
    and "loginType \<in> {16, 18}" "length sums = 9" "string_fits username" "string_fits password"
    and "unat blockLength \<le> length data - 2" "length data \<le> BUFFER_SIZE"
  shows "\<exists>t y p packets e'. connect_run now now' gen hash data s = Some (Inr t) \<and> process_reaches (t, g) \<and>
    m_Players t = m_Players s @ [(username, p)] \<and> heap_at (clients t) (length (clients s)) = Some y \<and>
    m_Stage y = LOGGED_IN \<and> m_ClientUsername y = username \<and> GetPlayer y t = Some p \<and> reading y \<and>
    write_op y = Some (connect_answer gen) \<and> posted y = connect_answer gen # [2, 0, 0] # packets \<and>
    (let seed = seed_of clientHalf serverHalf
     in map_state dec_packet packets
          (ISAACCipher_new (seed ! 0 + 50) (seed ! 1 + 50) (seed ! 2 + 50) (seed ! 3 + 50)) =
        (login_packets (Position_new 3200 3200), e'))"
  using connect_run_result [OF process_sys_inv [OF assms(1)] assms(2-), of now now' gen hash]
    network_reaches [OF assms(1)] by blast

theorem connect_and_login_witness:
  "\<exists>t y p. connect_run 1 2 7 0 bob_data Server_new = Some (Inr t) \<and>
    m_Players t = [(''bob'', p)] \<and> heap_at (clients t) 0 = Some y \<and> m_Stage y = LOGGED_IN"
  using connect_and_login [OF process_reaches.new bob_login(2,3) bob_data_def bob_login(4-9), of 1 2 7 0] by (auto simp: Server_new_def)

text \<open>
  C10: data is sent in the order in which it was posted, and nothing is sent twice or invented. For a client that is alive
  in a reachable state and in any later one, the data posted to it and the data sent to it have only been appended to,
  what is sent is the beginning of what was posted, and an ended connection stays ended. This holds across every
  interleaving of steps of the game thread, handlers, completed and failed operations and other connections.
\<close>

theorem wire_order:
  assumes "process_reaches (s, g)" "process_step\<^sup>*\<^sup>* (s, g) (t, h)"
    and "heap_at (clients s) c = Some x" "heap_at (clients t) c = Some y"
  shows "prefix (posted x) (posted y) \<and> prefix (sent x) (sent y) \<and> prefix (sent y) (posted y) \<and>
    (m_Disconnected x \<longrightarrow> m_Disconnected y)"
proof -
  have "evolves s t" using process_evolves [OF assms(2) process_inv [OF assms(1)]] by simp
  with assms(3,4) heap_at_length [OF assms(3)] have "appends x y" by (auto simp: evolves_def)
  then show ?thesis by (auto simp: appends_def posted_def)
qed

theorem wire_order_witness:
  "\<exists>s t x y. process_reaches (s, Sleeping) \<and> process_step (s, Sleeping) (t, Sleeping) \<and> heap_at (clients s) 0 = Some x \<and> heap_at (clients t) 0 = Some y \<and>
     sent y = sent x @ [connect_answer 7] \<and> prefix (posted x) (posted y)"
proof -
  obtain s x where reached: "network_step\<^sup>*\<^sup>* Server_new s" and
    x: "heap_at (clients s) 0 = Some x" "write_op x = Some (connect_answer 7)"
    using connect_run_result [OF bob_login(1-3) bob_data_def bob_login(4-9), of 1 2 7 0] by (auto simp: Server_new_def)
  let ?y = "complete_write True x"
  note s = new_process [OF reached] x
  have step: "process_step (s, Sleeping) (put_client 0 ?y s, Sleeping)"
    using x by (intro process_step.network network_step.written) simp_all
  have y: "heap_at (clients (put_client 0 ?y s)) 0 = Some ?y" using s(2) by (simp add: at_put_client)
  from step have "process_step\<^sup>*\<^sup>* (s, Sleeping) (put_client 0 ?y s, Sleeping)" by (rule r_into_rtranclp [where r = process_step])
  from wire_order [OF s(1) this s(2) y] have "prefix (posted x) (posted ?y)" by (elim conjE)
  moreover have "sent ?y = sent x @ [connect_answer 7]" using s(3) by (simp add: complete_write_def)
  ultimately show ?thesis using s(1,2) step y by (intro exI conjI)
qed

text \<open>
  C11: a handler acts only for its own client. Whatever a client sends, a handler on its strand changes neither the
  sessions nor the users of the others: the client itself may log in under a name that is not online, or leave. Every
  other client keeps what was posted and sent to it, and is not disconnected by it unless it already was.
\<close>

theorem strand_isolated:
  assumes "process_reaches (s, g)" "run_strand now gen c s = Some (Inr t)"
  shows "(abs_server t = abs_server s \<or> (\<exists>name. spec_step (Login c name) (abs_server s) (abs_server t)) \<or>
      spec_step (Leave c) (abs_server s) (abs_server t)) \<and>
    (\<forall>d x. heap_at (clients s) d = Some x \<longrightarrow> (\<exists>y. heap_at (clients t) d = Some y \<and>
       prefix (posted x) (posted y) \<and> prefix (sent x) (sent y) \<and> (d \<noteq> c \<longrightarrow> m_Disconnected y = m_Disconnected x)))"
proof -
  have "effect_of c s t" and inv: "sys_inv t"
    using run_strand_outcome [OF process_sys_inv [OF assms(1)] assms(2)] by simp_all
  then obtain e where e: "effect e s t" "e = Silent \<or> e = Leave c \<or> (\<exists>name. e = Login c name)"
    by (auto simp: effect_of_def)
  have ses: "d \<in> set (m_Sessions t) \<longleftrightarrow> d \<in> set (m_Sessions s)" if "d \<noteq> c" for d
    using e that by (auto simp: effect_def abs_server_def)
  have "\<exists>y. heap_at (clients t) d = Some y \<and> prefix (posted x) (posted y) \<and> prefix (sent x) (sent y) \<and>
      (d \<noteq> c \<longrightarrow> m_Disconnected y = m_Disconnected x)" if d: "heap_at (clients s) d = Some x" for d x
  proof -
    have "rel_option grows (Some x) (heap_at (clients t) d)" using grow_at [of s t d] e(1) d by (simp add: effect_def)
    then obtain y where y: "heap_at (clients t) d = Some y" "grows x y" by (auto simp: option_rel_Some1)
    then have "m_Disconnected y = m_Disconnected x" if "d \<noteq> c"
      using ses [OF that] d sys_invD(2) [OF inv] sys_invD(2) [OF process_sys_inv [OF assms(1)]] by (auto simp: sessions_ok_def)
    with y show ?thesis by (auto simp: grows_def appends_def)
  qed
  then show ?thesis using e by (auto simp: effect_def spec_silent simp del: spec_step.simps)
qed

theorem strand_isolated_witness:
  "\<exists>t. run_strand 0 0 0 accepting_server = Some (Inr t) \<and>
    (\<exists>y. heap_at (clients t) 0 = Some y \<and> prefix (posted (accepted 0)) (posted y))"
proof -
  have at: "heap_at (clients accepting_server) 0 = Some (accepted 0)" by (simp add: accepting_server_def heap_at_def)
  then have run: "run_strand 0 0 0 accepting_server = Some (Inr accepting_server)"
    by (simp add: run_strand_def accepted_def Client_new_def)
  from strand_isolated [OF accepting_process run] at run show ?thesis by blast
qed

text \<open>
  C18: no client is used after it was destroyed. \<open>RequestDisconnect\<close> posts a function that captures \<open>this\<close> without
  holding a \<open>shared_ptr\<close>; still, in every reachable state a client that no operation or other handler holds
  has no function left on its strand. Its connection has ended, it is not in the table of sessions, and no registered
  player refers to it.
\<close>

theorem client_lifetime:
  assumes "process_reaches (s, g)" "heap_at (clients s) c = Some x"
    and "\<not> reading x" "write_op x = None" "\<forall>h \<in> set (m_Strand x). h = RequestDisconnectTask"
  shows "m_Strand x = [] \<and> m_Disconnected x \<and> \<not> socket_open x \<and> c \<notin> set (m_Sessions s) \<and>
    (\<forall>(name, p) \<in> set (m_Players s). \<forall>pl. heap_at (players s) p = Some pl \<longrightarrow> m_Client pl \<noteq> c)"
proof -
  note inv = process_sys_inv [OF assms(1)]
  have held: "\<not> held x" using assms(3-5) by (auto simp: held_def list_ex_iff)
  note x = unheld_client [OF inv assms(2) held]
  have open': "\<not> socket_open x" "m_Stage x = LOGGED_OUT" using sys_invD(6) [OF inv assms(2)] x(1) by (simp_all add: session_ok_def)
  have "m_Client pl \<noteq> c" if e: "(name, p) \<in> set (m_Players s)" and pl: "heap_at (players s) p = Some pl" for name p pl
  proof
    assume c: "m_Client pl = c"
    have reg: "registered p s" using e by (force simp: registered_def)
    obtain y where "player_ok p pl y s" "m_Stage y = LOGGED_IN" using registered_client [OF inv reg pl] .
    with c assms(2) open' show False by (simp add: player_ok_def)
  qed
  with x open' show ?thesis by blast
qed

theorem client_lifetime_witness:
  "\<exists>s x. process_reaches (s, Sleeping) \<and> heap_at (clients s) 0 = Some x \<and> m_Disconnected x \<and> 0 \<notin> set (m_Sessions s)"
proof -
  let ?x = "closed (accepted 0\<lparr>reading := False\<rparr>)"
  obtain s where s: "process_reaches (s, Sleeping)" "heap_at (clients s) 0 = Some ?x"
    using ended_reached new_process by blast
  moreover have "\<not> reading ?x" "write_op ?x = None" "\<forall>h \<in> set (m_Strand ?x). h = RequestDisconnectTask"
    by (simp_all add: accepted_def Client_new_def)
  ultimately show ?thesis using client_lifetime [OF s] by blast
qed

text \<open>
  C23: the bounds on which the packets of the client protocol rely. In every reachable state a registered player has an
  index below 2048; its path has at most 100 waypoints, is a chain of adjacent tiles that starts next to the
  player, and has a direction for every step; and it has at most 255 local players, all of them alive, and not itself.
\<close>

theorem reachable_bounds:
  assumes "process_reaches (s, g)" "(name, p) \<in> set (m_Players s)" "heap_at (players s) p = Some pl"
  shows "unat (m_Index pl) < 2048 \<and> length (waypoints pl) \<le> 100 \<and>
    chain (pos_x (m_Position pl)) (pos_y (m_Position pl)) (waypoints pl) \<and>
    list_all (\<lambda>w. m_Direction w \<noteq> -1) (waypoints pl) \<and>
    length (m_LocalPlayers pl) \<le> 255 \<and> p \<notin> set (m_LocalPlayers pl) \<and>
    (\<forall>q \<in> set (m_LocalPlayers pl). \<exists>ql. heap_at (players s) q = Some ql)"
proof -
  note inv = sys_invD [OF process_sys_inv [OF assms(1)]]
  have "registered p s" using assms(2) by (force simp: registered_def)
  then obtain pl' x where "player_ok p pl' x s" "member_ok p pl'" using inv(1) unfolding world_ok_def by blast
  with assms(3) have "member_ok p pl" by (simp add: player_ok_def)
  moreover have "unat (m_Index pl) < 2048"
    using registry_entry [OF inv(3) assms(2)] assms(3) by (metis MAX_PLAYERS_def option.inject)
  moreover have "\<forall>q \<in> set (m_LocalPlayers pl). \<exists>ql. heap_at (players s) q = Some ql"
    using inv(4) assms(3) by (auto simp: refs_ok_def alive_def)
  ultimately show ?thesis by (simp add: member_ok_def settled_def movement_wf_def)
qed

theorem reachable_bounds_witness:
  "\<exists>s p pl. process_reaches (s, Sleeping) \<and> m_Players s = [(''bob'', p)] \<and> heap_at (players s) p = Some pl \<and> unat (m_Index pl) < 2048"
proof -
  obtain s y p where reached: "network_step\<^sup>*\<^sup>* Server_new s" and s: "m_Players s = [(''bob'', p)]" "GetPlayer y s = Some p"
    using connect_run_result [OF bob_login(1-3) bob_data_def bob_login(4-9), of 1 2 7 0] by (auto simp: Server_new_def)
  then obtain pl where pl: "heap_at (players s) p = Some pl" by (auto simp: GetPlayer_def split: option.splits)
  have "(''bob'', p) \<in> set (m_Players s)" using s(1) by simp
  from reachable_bounds [OF new_process [OF reached] this pl] new_process [OF reached] s pl show ?thesis by blast
qed

text \<open>
  C7: the game thread between handlers. In every reachable state, with a cycle at any point and whatever the handlers did
  since it began, the next step of the game thread succeeds and leads to a reachable state, or it dereferences a null
  pointer. The latter happens in one situation only: the step is the update of a player that was in the world when the
  cycle began, has left it since, and whose client has been destroyed.
\<close>

theorem game_thread_outcome:
  assumes "process_reaches (s, g)" "enumerates order s" "g = Sleeping \<longrightarrow> m_Running s"
  shows "(\<exists>m. game_step order (s, g) = Inr m \<and> process_reaches m) \<or>
    (\<exists>p ps all pl. g = Updating (p # ps) all \<and> p \<in> set all \<and> p \<notin> snd ` set (m_Players s) \<and>
       heap_at (players s) p = Some pl \<and> heap_at (clients s) (m_Client pl) = None \<and>
       game_step order (s, g) = Inl NullPointer)"
proof -
  have inv: "machine_inv (s, g)" by (rule process_inv [OF assms(1)])
  from game_step_ok [OF this assms(2)] show ?thesis
  proof
    assume "\<exists>t h. game_step order (s, g) = Inr (t, h) \<and> machine_inv (t, h) \<and> same_entries s t"
    then obtain m where m: "game_step order (s, g) = Inr m" by blast
    have "process_step (s, g) m" using assms(2,3) m by (intro process_step.game) auto
    with assms(1) have "process_reaches m" by (rule process_reaches.step)
    with m show ?thesis by blast
  next
    assume "\<exists>p ps all. g = Updating (p # ps) all \<and> abandoned p s"
    then obtain p ps all where g: "g = Updating (p # ps) all" "abandoned p s" by blast
    have "p \<notin> snd ` set (m_Players s)" "p \<in> set all"
      using abandoned_left [OF sys_invD(1) [OF process_sys_inv [OF assms(1)]] g(2)] inv g(1)
      by (simp_all add: registered_def machine_inv_def)
    with g show ?thesis by (auto simp: abandoned_faults abandoned_def)
  qed
qed

theorem game_thread_outcome_witness:
  "\<exists>s p m. process_reaches (s, Updating [p] [p]) \<and> game_step [(''bob'', p)] (s, Updating [p] [p]) = Inr m \<and> process_reaches m"
proof -
  obtain s p pl x where s: "process_reaches (s, Updating [p] [p])" "m_Players s = [(''bob'', p)]" "enumerates [(''bob'', p)] s"
    by (rule updating_reached)
  with game_thread_outcome [OF s(1,3)] show ?thesis by force
qed

text \<open>
  C8: a player that leaves during a cycle crashes the server. Take any reachable state in which the game thread is about
  to update a player whose client still receives. Then handlers alone (the connection fails, the handlers on the strand
  of the client run, and the client is destroyed) can lead to a reachable state from which the next step of the
  game thread dereferences a null pointer: \<open>playerList\<close> keeps the player alive, but its \<open>GetClient()\<close> is null.
\<close>

theorem leaving_crashes:
  assumes "process_reaches (s, Updating (p # ps) all)"
    and "heap_at (players s) p = Some pl" "heap_at (clients s) (m_Client pl) = Some x" "reading x"
  shows "\<exists>t. network_step\<^sup>*\<^sup>* s t \<and> process_reaches (t, Updating (p # ps) all) \<and>
    (\<forall>order. game_step order (t, Updating (p # ps) all) = Inl NullPointer)"
proof -
  note inv = process_sys_inv [OF assms(1)]
  obtain t where t: "network_step\<^sup>*\<^sup>* s t" "heap_at (clients t) (m_Client pl) = None"
    using client_vanishes [OF inv assms(3,4)] by blast
  have "p \<in> set (playerList s)" using process_inv [OF assms(1)] by (simp add: machine_inv_def)
  from network_player [OF t(1) inv this assms(2)] t(2) have "abandoned p t" by (auto simp: abandoned_def)
  moreover have "process_reaches (t, Updating (p # ps) all)"
    by (rule network_reaches [OF assms(1) t(1)])
  ultimately show ?thesis using t(1) by (intro exI [of _ t]) (simp add: abandoned_faults)
qed

theorem leaving_crashes_witness:
  "\<exists>t p order. process_reaches (t, Updating [p] [p]) \<and> game_step order (t, Updating [p] [p]) = Inl NullPointer"
proof -
  obtain s p pl x where s: "process_reaches (s, Updating [p] [p])" "heap_at (players s) p = Some pl"
    "heap_at (clients s) (m_Client pl) = Some x" "reading x"
    by (rule updating_reached)
  from leaving_crashes [OF s] show ?thesis by blast
qed

text \<open>
  C9: pointers conform to their types in every reachable state. Every \<open>shared_ptr\<close> is to a live object: the players of
  the registry, of \<open>playerList\<close> and of all \<open>m_LocalPlayers\<close>, and the clients of the table of sessions. Every client has its own session as
  \<open>m_OnDisconnect\<close>, and if the player of a client is alive then it refers back to the client; a logged-in client has both
  ciphers. The players that the game thread has still to do are among those of \<open>playerList\<close>. A chunk that waits on a strand fits the
  buffer, the bit set has its \<open>MAX_PLAYERS\<close> bits, and the directions of the waypoints of a registered player are
  below 8.
\<close>

theorem reachable_typed:
  assumes "process_reaches (s, g)"
  shows "(\<forall>p \<in> snd ` set (m_Players s) \<union> set (playerList s). heap_at (players s) p \<noteq> None) \<and>
    (\<forall>p pl. heap_at (players s) p = Some pl \<longrightarrow> (\<forall>q \<in> set (m_LocalPlayers pl). heap_at (players s) q \<noteq> None)) \<and>
    (\<forall>c \<in> set (m_Sessions s). heap_at (clients s) c \<noteq> None) \<and>
    (\<forall>c x. heap_at (clients s) c = Some x \<longrightarrow> m_OnDisconnect x = Some c \<and>
       (\<forall>p pl. m_Player x = Some p \<longrightarrow> heap_at (players s) p = Some pl \<longrightarrow> m_Client pl = c) \<and>
       (m_Stage x = LOGGED_IN \<longrightarrow> m_Player x \<noteq> None \<and> m_Encryptor x \<noteq> None \<and> m_Decryptor x \<noteq> None) \<and>
       (\<forall>data. ReadDone (Some data) \<in> set (m_Strand x) \<longrightarrow> length data \<le> BUFFER_SIZE)) \<and>
    (case g of Sleeping \<Rightarrow> playerList s = []
     | Updating ps all \<Rightarrow> playerList s = all \<and> set ps \<subseteq> set all
     | Resetting ps all \<Rightarrow> playerList s = all \<and> set ps \<subseteq> set all) \<and>
    length (m_OccupiedIndices s) = MAX_PLAYERS \<and>
    (\<forall>(name, p) \<in> set (m_Players s). \<forall>pl. heap_at (players s) p = Some pl \<longrightarrow>
       (\<forall>w \<in> set (waypoints pl). unat (m_Direction w) < 8))"
proof -
  note inv = sys_invD [OF process_sys_inv [OF assms]]
  have refs: "refs_ok s" using inv(1) by (simp add: world_ok_def)
  then have rooted: "\<forall>p \<in> snd ` set (m_Players s) \<union> set (playerList s). heap_at (players s) p \<noteq> None"
    "\<forall>p pl. heap_at (players s) p = Some pl \<longrightarrow> (\<forall>q \<in> set (m_LocalPlayers pl). heap_at (players s) q \<noteq> None)"
    by (auto simp: refs_ok_def rooted_def alive_def)
  have sessions: "\<forall>c \<in> set (m_Sessions s). heap_at (clients s) c \<noteq> None" using inv(2) by (auto simp: sessions_ok_def)
  have client: "m_OnDisconnect x = Some c \<and>
       (\<forall>p pl. m_Player x = Some p \<longrightarrow> heap_at (players s) p = Some pl \<longrightarrow> m_Client pl = c) \<and>
       (m_Stage x = LOGGED_IN \<longrightarrow> m_Player x \<noteq> None \<and> m_Encryptor x \<noteq> None \<and> m_Decryptor x \<noteq> None) \<and>
       (\<forall>data. ReadDone (Some data) \<in> set (m_Strand x) \<longrightarrow> length data \<le> BUFFER_SIZE)"
    if x: "heap_at (clients s) c = Some x" for c x
    using inv(5,6) [OF x] by (auto simp: session_ok_def io_ok_def strand_ok_def read_results_mem list_all_iff read_fits_def split: option.splits)
  have "unat (m_Direction w) < 8"
    if "(name, p) \<in> set (m_Players s)" "heap_at (players s) p = Some pl" "w \<in> set (waypoints pl)" for name p pl w
  proof -
    have "registered p s" using that(1) by (force simp: registered_def)
    then obtain pl' x where "player_ok p pl' x s" "member_ok p pl'" using inv(1) unfolding world_ok_def by blast
    with that(2) have "settled pl" by (simp add: player_ok_def member_ok_def)
    with that(3) show ?thesis by (auto simp: settled_def movement_wf_def list_all_iff intro: chain_directions)
  qed
  moreover have "game_ok (s, g)" using process_inv [OF assms] by (simp add: machine_inv_def)
  moreover have "length (m_OccupiedIndices s) = MAX_PLAYERS" using inv(3) by (simp add: registry_wf_def bitset_ok_def)
  ultimately show ?thesis using rooted sessions client by (auto split: game.split)
qed

theorem reachable_typed_witness:
  "\<exists>s p. process_reaches (s, Updating [p] [p]) \<and> playerList s = [p] \<and> heap_at (players s) p \<noteq> None"
proof -
  obtain s p where s: "process_reaches (s, Updating [p] [p])" by (rule updating_reached)
  from reachable_typed [OF this] have "playerList s = [p]" "\<forall>q \<in> set (playerList s). heap_at (players s) q \<noteq> None" by auto
  with s show ?thesis by auto
qed

end
