(* ===== verification/Update_View.thy ===== *)
theory Update_View
  imports Update_Loops
begin

text \<open>
  The other end of the update packet: a reader of its bit fields and of its block of attributes, written from the protocol and not
  from the code that writes it. A client knows its own tile and, in order, the index, the appearance and the tile of
  every local player. Reading a packet of \<open>PlayerUpdating::UpdatePlayer\<close> turns what it knew before into what the server has
  after.
\<close>

section \<open>The reader\<close>

type_synonym tile = "u32 \<times> u32"

text \<open>A local player: its index and the bytes of its appearance, and its tile.\<close>

type_synonym label = "nat \<times> i8 list"
type_synonym sighting = "label \<times> tile"

definition get :: "nat \<Rightarrow> bool list \<Rightarrow> nat \<times> bool list" where
  "get n bs = (from_bits (take n bs), drop n bs)"

text \<open>
  What is reported of a player: up to two steps, a new place on the loaded map, or that it is out of view; and whether
  the block has attributes of it.
\<close>

datatype report = Steps "nat list" bool | Place nat nat bool | Gone

fun has_block :: "report \<Rightarrow> bool" where
  "has_block (Steps ds u) = u"
| "has_block (Place x y u) = u"
| "has_block Gone = False"

definition get_report :: "(bool list \<Rightarrow> report \<times> bool list) \<Rightarrow> bool list \<Rightarrow> report \<times> bool list" where
  "get_report third bs =
     (let (moved, bs) = get 1 bs
      in if moved = 0 then (Steps [] False, bs)
         else let (kind, bs) = get 2 bs
              in if kind = 0 then (Steps [] True, bs)
                 else if kind = 1 then let (d, bs) = get 3 bs; (u, bs) = get 1 bs in (Steps [d] (u = 1), bs)
                 else if kind = 2 then
                   let (d, bs) = get 3 bs; (e, bs) = get 3 bs; (u, bs) = get 1 bs in (Steps [d, e] (u = 1), bs)
                 else third bs)"

definition get_place :: "bool list \<Rightarrow> report \<times> bool list" where
  "get_place bs = (let (u, bs) = get 1 (drop 3 bs); (y, bs) = get 7 bs; (x, bs) = get 7 bs in (Place x y (u = 1), bs))"

definition go :: "nat list \<Rightarrow> tile \<Rightarrow> tile" where
  "go ds t = fold (\<lambda>d (x, y). (x + DIRECTION_DELTA_X ! d, y + DIRECTION_DELTA_Y ! d)) ds t"

primrec get_seen :: "sighting list \<Rightarrow> bool list \<Rightarrow> (sighting \<times> bool) list \<times> bool list" where
  "get_seen [] bs = ([], bs)"
| "get_seen (v # vs) bs =
     (let (r, bs) = get_report (Pair Gone) bs; (vs, bs) = get_seen vs bs
      in (case r of Steps ds u \<Rightarrow> ((fst v, go ds (snd v)), u) # vs | _ \<Rightarrow> vs, bs))"

text \<open>Five bits with a sign.\<close>

definition delta5 :: "nat \<Rightarrow> u32" where
  "delta5 v = (if v < 16 then word_of_nat v else word_of_nat v - 32)"

text \<open>New players follow until the marker, or until fewer bits are left than an index takes.\<close>

fun get_new :: "tile \<Rightarrow> bool list \<Rightarrow> (sighting \<times> bool) list \<times> bool list" where
  "get_new own bs =
     (if length bs < 11 then ([], bs)
      else if from_bits (take 11 bs) = 2047 then ([], drop 11 bs)
      else let fs = read_fields [11, 1, 1, 5, 5] bs; (vs, rest) = get_new own (drop 23 bs)
           in ((((fs ! 0, []), fst own + delta5 (fs ! 4), snd own + delta5 (fs ! 3)), fs ! 1 = 1) # vs, rest))"

declare get_new.simps [simp del]

text \<open>The block has, for every player it is about, a mask and, if the mask says so, the negated length and the bytes of its appearance.\<close>

fun get_states :: "bool list \<Rightarrow> i8 list \<Rightarrow> i8 list option list option" where
  "get_states [] bytes = (if bytes = [] then Some [] else None)"
| "get_states (False # fs) bytes = map_option (Cons None) (get_states fs bytes)"
| "get_states (True # fs) (m # bytes) =
     (if m = 0 then map_option (Cons None) (get_states fs bytes)
      else if m = 16 \<and> bytes \<noteq> [] then
        let n = unat (- hd bytes) in map_option (Cons (Some (take n (tl bytes)))) (get_states fs (drop n (tl bytes)))
      else None)"
| "get_states (True # fs) [] = None"

definition put_state :: "sighting \<Rightarrow> i8 list option \<Rightarrow> sighting" where
  "put_state v state = (case state of None \<Rightarrow> v | Some bytes \<Rightarrow> ((fst (fst v), bytes), snd v))"

definition bits_of :: "i8 list \<Rightarrow> bool list" where
  "bits_of bytes = map (buf_bit bytes) [0..<8 * length bytes]"

definition see_update :: "tile \<Rightarrow> tile \<times> sighting list \<Rightarrow> i8 list \<Rightarrow> (tile \<times> sighting list) option" where
  "see_update corner view body =
     (let (own, others) = view;
          (r, bs) = get_report get_place (bits_of body);
          own = (case r of
                   Steps ds u \<Rightarrow> go ds own
                 | Place x y u \<Rightarrow> (fst corner + word_of_nat x, snd corner + word_of_nat y)
                 | Gone \<Rightarrow> own);
          (n, bs) = get 8 bs
      in if n \<noteq> length others then None
         else let (kept, bs) = get_seen others bs;
                  (new, bs) = get_new own bs;
                  block = drop (length body - length bs div 8) body
              in map_option (\<lambda>states. (own, map2 put_state (map fst (kept @ new)) (tl states)))
                   (get_states (has_block r # map snd (kept @ new)) block))"

section \<open>Reading back the fields\<close>

lemma get_field [simp]: "n \<le> 32 \<Longrightarrow> get n (to_bits n v @ bs) = (unat v mod 2 ^ n, bs)"
  by (simp add: get_def from_to_bits)

lemma drop_field [simp]: "drop n (to_bits n v @ bs) = bs" "drop n (to_bits n v) = []"
  by simp_all

definition tile_of :: "Player \<Rightarrow> tile" where
  "tile_of pl = (pos_x (m_Position pl), pos_y (m_Position pl))"

definition corner_of :: "Player \<Rightarrow> tile" where
  "corner_of pl = (8 * GetRegionX (m_CurrentRegion pl), 8 * GetRegionY (m_CurrentRegion pl))"

definition directions :: "Player \<Rightarrow> nat list" where
  "directions pl =
     (if m_PrimaryDirection pl = -1 then []
      else if m_SecondaryDirection pl = -1 then [unat (m_PrimaryDirection pl)]
      else [unat (m_PrimaryDirection pl), unat (m_SecondaryDirection pl)])"

definition directions_ok :: "Player \<Rightarrow> bool" where
  "directions_ok pl \<longleftrightarrow>
     (m_PrimaryDirection pl = -1 \<or> unat (m_PrimaryDirection pl) < 8) \<and>
     (m_SecondaryDirection pl = -1 \<or> unat (m_SecondaryDirection pl) < 8)"

definition index_num :: "Player \<Rightarrow> nat" where
  "index_num pl = unat (m_Index pl)"

definition label_of :: "Player \<Rightarrow> label" where
  "label_of pl = (index_num pl, appearance_bytes pl)"

lemma label_cong:
  assumes "m_Index pl' = m_Index pl" "m_Equipment pl' = m_Equipment pl" "m_Colors pl' = m_Colors pl"
    "m_Appearance pl' = m_Appearance pl" "m_NPCCosplayId pl' = m_NPCCosplayId pl" "m_Username pl' = m_Username pl"
  shows "label_of pl' = label_of pl"
  using assms by (simp add: label_of_def index_num_def appearance_bytes_def appearance_parts_def look_bytes_def
      item_bytes_def body_bytes_def)

lemma label_index: "label_of pl' = label_of pl \<Longrightarrow> index_num pl' = index_num pl"
  by (simp add: label_of_def)

lemma flag_NeedsUpdate: "NeedsUpdate_flag flag pl \<Longrightarrow> NeedsUpdate pl"
  by (auto simp: NeedsUpdate_flag_def NeedsUpdate_def hasFlag_def flag_and_def)

lemma get_movement:
  assumes "directions_ok pl"
  shows "get_report third (enc_fields (movement_fields pl) @ bs) = (Steps (directions pl) (NeedsUpdate pl), bs)"
  using assms
  by (auto simp: get_report_def movement_fields_def directions_def directions_ok_def flag_field_def Let_def)

lemma get_own:
  assumes "NeedsUpdate_flag Flag_NeedsPlacement pl" "in_region pl"
  shows "get_report get_place (enc_fields (local_fields pl) @ bs) =
    (Place (unat (GetLocalX (m_Position pl) (m_CurrentRegion pl))) (unat (GetLocalY (m_Position pl) (m_CurrentRegion pl)))
       (NeedsUpdate pl), bs)"
  using assms in_region_unat [OF assms(2)] flag_NeedsUpdate [OF assms(1)]
  by (simp add: get_report_def get_place_def local_fields_def placement_fields_def flag_field_def Let_def)

text \<open>What the client is told about the local players: those that stay, where they are now.\<close>

lemma get_seen_fields:
  assumes "\<forall>q \<in> set qs. stays pl (f q) \<longrightarrow> directions_ok (f q) \<and> go (directions (f q)) (old q) = tile_of (f q)"
  shows "get_seen (map (\<lambda>q. (g q, old q)) qs) (enc_fields (concat (map (\<lambda>q. seen_fields pl (f q)) qs)) @ bs) =
    (map (\<lambda>q. ((g q, tile_of (f q)), NeedsUpdate (f q))) (filter (\<lambda>q. stays pl (f q)) qs), bs)"
  using assms
proof (induction qs)
  case (Cons q qs)
  let ?rest = "enc_fields (concat (map (\<lambda>q. seen_fields pl (f q)) qs)) @ bs"
  show ?case
  proof (cases "stays pl (f q)")
    case True
    with Cons.prems have "get_report (Pair Gone) (enc_fields (seen_fields pl (f q)) @ ?rest) =
        (Steps (directions (f q)) (NeedsUpdate (f q)), ?rest)"
      by (simp add: seen_fields_def get_movement)
    with Cons True show ?thesis by simp
  next
    case False
    then have "get_report (Pair Gone) (enc_fields (seen_fields pl (f q)) @ ?rest) = (Gone, ?rest)"
      by (simp add: seen_fields_def removal_fields_def get_report_def Let_def)
    with Cons False show ?thesis by simp
  qed
qed simp

lemma uint_sint_cases: "uint (d :: i32) = (if sint d < 0 then sint d + 2 ^ 32 else sint d)"
proof (cases "sint d < 0")
  case True
  have "uint d = (sint d + 2 ^ 32) mod 2 ^ 32" using uint_sint [of d] by (simp add: take_bit_eq_mod)
  also have "\<dots> = sint d + 2 ^ 32" using True sint_ge [of d] by (intro mod_pos_pos_trivial) simp_all
  finally show ?thesis using True by simp
next
  case False
  then have "sint d mod 2 ^ 32 = sint d" using sint_lt [of d] by (intro mod_pos_pos_trivial) simp_all
  with False uint_sint [of d] show ?thesis by (simp add: take_bit_eq_mod)
qed

lemma delta5_signed:
  assumes "-16 \<le> sint d" "sint d < 16"
  shows "delta5 (unat d mod 32) = d"
proof -
  have "int (unat d mod 32) = uint d mod 32" by (simp add: zmod_int)
  also have "\<dots> = (if sint d < 0 then sint d + 32 else sint d)"
  proof (cases "sint d < 0")
    case True
    have "(sint d + 2 ^ 32) mod 32 = (sint d + 32 + 32 * 134217727) mod 32" by (rule arg_cong [where f = "\<lambda>i. i mod 32"]) simp
    also have "\<dots> = (sint d + 32) mod 32" by (rule mod_mult_self2)
    also have "\<dots> = sint d + 32" using True assms by (intro mod_pos_pos_trivial) simp_all
    finally show ?thesis using True by (simp add: uint_sint_cases)
  next
    case False
    with assms show ?thesis by (simp add: uint_sint_cases)
  qed
  finally have v: "int (unat d mod 32) = (if sint d < 0 then sint d + 32 else sint d)" .
  have "(word_of_nat k :: i32) = word_of_int (int k)" for k by simp
  from this [of "unat d mod 32"]
  have "(word_of_nat (unat d mod 32) :: i32) = word_of_int (if sint d < 0 then sint d + 32 else sint d)"
    by (simp only: v)
  moreover have "unat d mod 32 < 16 \<longleftrightarrow> \<not> sint d < 0"
  proof (cases "sint d < 0")
    case True
    with v have "int (unat d mod 32) = sint d + 32" by (simp only: if_True)
    with True assms show ?thesis by linarith
  next
    case False
    with v have "int (unat d mod 32) = sint d" by (simp only: if_False)
    with False assms show ?thesis by linarith
  qed
  moreover have "word_of_int (sint d + 32) = (d + 32 :: i32)" by simp
  ultimately show ?thesis by (cases "sint d < 0") (simp_all add: delta5_def)
qed

lemma sint_neg:
  assumes "-15 \<le> sint (w :: i32)" "sint w \<le> 14"
  shows "sint (- w) = - sint w"
proof -
  have "- w = word_of_int (- sint w)" by simp
  also have "sint \<dots> = - sint w" using assms by (subst sint_sbintrunc') (simp add: signed_take_bit_int_eq_self)
  finally show ?thesis .
qed

text \<open>A newcomer can be told from the marker, and is close enough for five bits.\<close>

lemma get_new_fields:
  assumes "\<forall>q \<in> set qs. in_view pl (f q) \<and> index_num (f q) < 2047" "get_new (tile_of pl) bs = ([], rest)"
  shows "get_new (tile_of pl) (enc_fields (concat (map (\<lambda>q. add_fields pl (f q)) qs)) @ bs) =
    (map (\<lambda>q. (((index_num (f q), []), tile_of (f q)), True)) qs, rest)"
  using assms(1)
proof (induction qs)
  case (Cons q qs)
  let ?rest = "enc_fields (concat (map (\<lambda>q. add_fields pl (f q)) qs)) @ bs"
  let ?dx = "pos_x (m_Position (f q)) - pos_x (m_Position pl)" and ?dy = "pos_y (m_Position (f q)) - pos_y (m_Position pl)"
  let ?bs = "enc_fields (add_fields pl (f q)) @ ?rest"
  have d: "-16 \<le> sint ?dx" "sint ?dx < 16" "-16 \<le> sint ?dy" "sint ?dy < 16"
    using Cons.prems sint_neg [of "- ?dx"] sint_neg [of "- ?dy"] by (auto simp: in_view_def IsViewableFrom_def Let_def)
  have i: "unat (m_Index (f q)) mod 2048 = index_num (f q)" "index_num (f q) \<noteq> 2047"
    using Cons.prems by (auto simp: index_num_def)
  have f: "read_fields [11, 1, 1, 5, 5] ?bs = [index_num (f q), 1, 1, unat ?dy mod 32, unat ?dx mod 32]"
    using read_enc_fields [of "add_fields pl (f q)" ?rest] i(1) by (simp add: add_fields_def)
  have "from_bits (take 11 ?bs) = index_num (f q)" using i(1) by (simp add: add_fields_def from_to_bits)
  moreover have "drop 23 ?bs = ?rest" by (simp add: add_fields_def)
  moreover have "\<not> length ?bs < 11" by (simp add: add_fields_def)
  moreover have "tile_of (f q) = (fst (tile_of pl) + ?dx, snd (tile_of pl) + ?dy)" by (simp add: tile_of_def)
  ultimately have "get_new (tile_of pl) ?bs = (case get_new (tile_of pl) ?rest of
      (vs, rest) \<Rightarrow> ((((index_num (f q), []), tile_of (f q)), True) # vs, rest))"
    using i(2) f delta5_signed [OF d(1,2)] delta5_signed [OF d(3,4)] by (subst get_new.simps) (simp add: Let_def)
  with Cons show ?case by simp
qed (simp add: assms(2))

section \<open>Reading back the block\<close>

definition state_of :: "bool \<Rightarrow> Player \<Rightarrow> i8 list option" where
  "state_of force pl = (if NeedsUpdate_flag Flag_Appearance pl \<or> force then Some (appearance_bytes pl) else None)"

lemma get_state:
  "get_states (True # fs) (state_bytes force pl @ bytes) = map_option (Cons (state_of force pl)) (get_states fs bytes)"
proof -
  have "unat (word_of_nat (length (appearance_bytes pl)) :: i8) = length (appearance_bytes pl)"
    using length_appearance [of pl] by (simp add: unat_of_nat)
  then show ?thesis by (simp add: state_bytes_def state_of_def)
qed

lemma get_state_if:
  "get_states (NeedsUpdate pl # fs) ((if NeedsUpdate pl then state_bytes False pl else []) @ bytes) =
   map_option (Cons (state_of False pl)) (get_states fs bytes)"
  using get_state [of fs False pl bytes] flag_NeedsUpdate [of Flag_Appearance pl]
  by (auto simp: state_of_def)

lemma get_states_seen:
  "get_states (map (\<lambda>q. NeedsUpdate (f q)) (filter (\<lambda>q. stays pl (f q)) qs) @ fs) (concat (map (\<lambda>q. seen_bytes pl (f q)) qs) @ bytes) =
   map_option (append (map (\<lambda>q. state_of False (f q)) (filter (\<lambda>q. stays pl (f q)) qs))) (get_states fs bytes)"
proof (induction qs)
  case (Cons q qs)
  then show ?case
    using get_state_if [of "f q"] by (cases "stays pl (f q)") (simp_all add: seen_bytes_def option.map_comp comp_def)
qed (simp add: option.map_ident)

lemma get_states_new:
  "get_states (map (\<lambda>q. True) qs) (concat (map (\<lambda>q. state_bytes True (f q)) qs)) = Some (map (\<lambda>q. Some (appearance_bytes (f q))) qs)"
proof (induction qs)
  case (Cons q qs)
  then show ?case using get_state [of _ True "f q"] by (simp add: state_of_def)
qed simp

lemma put_state_of:
  "fst v = label_of pl \<Longrightarrow> put_state v (state_of force pl) = v"
  "put_state ((index_num pl, bs), t) (Some (appearance_bytes pl)) = (label_of pl, t)"
  by (cases v; simp add: put_state_def state_of_def label_of_def; force)+

section \<open>Reading back the packet\<close>

lemma bits_of_append: "bits_of (xs @ ys) = bits_of xs @ bits_of ys"
proof -
  have "[0..<8 * length (xs @ ys)] = [0..<8 * length xs] @ map (\<lambda>i. 8 * length xs + i) [0..<8 * length ys]"
    using upt_add_eq_append [of 0 "8 * length xs" "8 * length ys"] map_add_upt [of "8 * length xs" "8 * length ys"]
    by (simp add: distrib_left add.commute)
  moreover have "buf_bit (xs @ ys) (8 * length xs + i) = buf_bit ys i" for i by (simp add: buf_bit_def nth_append)
  moreover have "buf_bit (xs @ ys) i = buf_bit xs i" if "i < 8 * length xs" for i
  proof -
    have "i div 8 < length xs" using that by linarith
    then show ?thesis by (simp add: buf_bit_def nth_append)
  qed
  ultimately show ?thesis by (simp add: bits_of_def)
qed

lemma packed_bits:
  assumes "packed bs xs"
  obtains pad where "bits_of xs = bs @ pad" "length pad < 8"
proof -
  have len: "length (bits_of xs) = 8 * ((length bs + 7) div 8)" using assms by (simp add: packed_def bits_of_def)
  have "take (length bs) (bits_of xs) = bs"
    using assms len by (intro nth_equalityI) (auto simp: packed_def bits_of_def)
  then have "bits_of xs = bs @ drop (length bs) (bits_of xs)" by (metis append_take_drop_id)
  moreover have "length (drop (length bs) (bits_of xs)) < 8" using len by simp
  ultimately show ?thesis by (rule that)
qed

lemma body_bits:
  assumes "body_of fs block body"
  obtains bs rest where "bits_of body = enc_fields fs @ bs" "get_new own bs = ([], rest)"
    "drop (length body - length rest div 8) body = block"
proof -
  let ?marker = "if block = [] then [] else [(11, 2047)] :: (nat \<times> i32) list"
  obtain zs where zs: "packed (enc_fields (fs @ ?marker)) zs" "body = zs @ block" using assms by (auto simp: body_of_def)
  obtain pad where pad: "bits_of zs = enc_fields (fs @ ?marker) @ pad" "length pad < 8" using packed_bits [OF zs(1)] .
  let ?rest = "pad @ bits_of block" and ?bs = "enc_fields ?marker @ pad @ bits_of block"
  have "bits_of body = enc_fields fs @ ?bs" using zs(2) pad(1) by (simp add: bits_of_append)
  moreover have "get_new own ?bs = ([], ?rest)"
  proof (cases "block = []")
    case True
    with pad(2) have "?bs = ?rest" "length ?rest < 11" by (simp_all add: bits_of_def)
    then show ?thesis by (subst get_new.simps) (simp only: if_True)
  next
    case False
    then have "from_bits (take 11 ?bs) = 2047" "\<not> length ?bs < 11" "drop 11 ?bs = ?rest" by (simp_all add: from_to_bits)
    then show ?thesis by (subst get_new.simps) (simp only: simp_thms if_True if_False)
  qed
  moreover have "length ?rest div 8 = length block" using pad(2) by (simp add: bits_of_def)
  ultimately show ?thesis using that zs(2) by simp
qed

text \<open>
  The client has read the packet: it knows the tile of its player and the index, appearance and tile of every local player in the
  new list. \<open>old\<close> are the tiles before, \<open>t\<close> the tile of the player itself.
\<close>

lemma see_packet:
  assumes "body_of (update_fields pl s new) (update_block pl s new) body"
    and "NeedsUpdate_flag Flag_NeedsPlacement pl \<longrightarrow> in_region pl"
    and "\<not> NeedsUpdate_flag Flag_NeedsPlacement pl \<longrightarrow> directions_ok pl \<and> go (directions pl) t = tile_of pl"
    and "\<forall>q \<in> set (m_LocalPlayers pl). stays pl (look s q) \<longrightarrow>
      directions_ok (look s q) \<and> go (directions (look s q)) (old q) = tile_of (look s q)"
    and "\<forall>q \<in> set new. in_view pl (look s q) \<and> index_num (look s q) < 2047"
    and "length (m_LocalPlayers pl) \<le> 255"
  shows "see_update (corner_of pl) (t, map (\<lambda>q. (label_of (look s q), old q)) (m_LocalPlayers pl)) body =
    Some (tile_of pl, map (\<lambda>q. (label_of (look s q), tile_of (look s q))) (kept_locals pl s @ new))"
proof -
  let ?n = "length (m_LocalPlayers pl)"
  obtain bs rest where rest: "bits_of body = enc_fields (update_fields pl s new) @ bs" "get_new (tile_of pl) bs = ([], rest)"
    "drop (length body - length rest div 8) body = update_block pl s new"
    using body_bits [OF assms(1)] .
  let ?bs2 = "enc_fields (concat (map (\<lambda>q. add_fields pl (look s q)) new)) @ bs"
  let ?bs1 = "enc_fields (concat (map (\<lambda>q. seen_fields pl (look s q)) (m_LocalPlayers pl))) @ ?bs2"
  let ?bs0 = "to_bits 8 (word_of_nat ?n) @ ?bs1"
  have bits: "bits_of body = enc_fields (local_fields pl) @ ?bs0" using rest(1) by (simp add: update_fields_def)
  have n: "unat (word_of_nat ?n :: i32) mod 2 ^ 8 = ?n" using assms(6) by (simp add: unat_of_nat)
  obtain r where r: "get_report get_place (bits_of body) = (r, ?bs0)" "has_block r = NeedsUpdate pl"
    "(case r of Steps ds u \<Rightarrow> go ds t
      | Place x y u \<Rightarrow> (fst (corner_of pl) + word_of_nat x, snd (corner_of pl) + word_of_nat y) | Gone \<Rightarrow> t) = tile_of pl"
  proof (cases "NeedsUpdate_flag Flag_NeedsPlacement pl")
    case True
    with get_own assms(2) that show ?thesis
      unfolding bits by (simp add: corner_of_def tile_of_def GetLocalX_def GetLocalY_def)
  next
    case False
    with get_movement assms(3) that show ?thesis unfolding bits by (simp add: local_fields_def)
  qed
  let ?kept = "map (\<lambda>q. ((label_of (look s q), tile_of (look s q)), NeedsUpdate (look s q))) (kept_locals pl s)"
  let ?new = "map (\<lambda>q. (((index_num (look s q), []), tile_of (look s q)), True)) new"
  have states: "get_states (NeedsUpdate pl # map snd (?kept @ ?new)) (update_block pl s new) =
      Some (state_of False pl # map (\<lambda>q. state_of False (look s q)) (kept_locals pl s) @
        map (\<lambda>q. Some (appearance_bytes (look s q))) new)"
    by (simp add: update_block_def get_state_if kept_locals_def comp_def get_states_seen get_states_new)
  have "map2 put_state (map fst (?kept @ ?new)) (map (\<lambda>q. state_of False (look s q)) (kept_locals pl s) @
        map (\<lambda>q. Some (appearance_bytes (look s q))) new) =
      map (\<lambda>q. (label_of (look s q), tile_of (look s q))) (kept_locals pl s @ new)"
    by (simp add: comp_def zip_map_map zip_same_conv_map put_state_of)
  moreover have "get 8 ?bs0 = (?n, ?bs1)" using n by simp
  moreover have "get_seen (map (\<lambda>q. (label_of (look s q), old q)) (m_LocalPlayers pl)) ?bs1 = (?kept, ?bs2)"
    using get_seen_fields [OF assms(4)] by (simp only: kept_locals_def)
  moreover note get_new_fields [OF assms(5) rest(2)]
  ultimately show ?thesis
    by (simp only: see_update_def Let_def prod.case r length_map not_True_eq_False simp_thms if_False rest(3) states
        option.map list.sel)
qed

end
