(* ===== verification/World_View.thy ===== *)
theory World_View
  imports Session_Spec Update_View
begin

text \<open>
  A cycle, seen from the other end: what the client of a player knows, what the first pass posts to it, and how the
  update of the player turns what was true before the cycle into what is true after it. The theory \<open>Process_View\<close> puts
  them together for any interleaving of the two threads.
\<close>

section \<open>Operations on different objects\<close>

text \<open>
  The operations of a pass are each about one object: \<open>at\<close> is what the others leave alone. In a pass over different
  objects, each operation finds its own object as it was before the pass, and what it does is still there at the end.
\<close>

locale local_steps = steps +
  fixes at :: "'a \<Rightarrow> 'b \<Rightarrow> 'c"
  assumes step_at: "inv s \<Longrightarrow> valid a s \<Longrightarrow> step a s = Inr t \<Longrightarrow> valid b s \<Longrightarrow> b \<noteq> a \<Longrightarrow> at b t = at b s"
begin

lemma run_at:
  assumes "inv s" "\<forall>a \<in> set as. valid a s" "distinct as"
  shows "\<exists>t. foldR step as s = Inr t \<and> inv t \<and>
    (\<forall>b. valid b s \<longrightarrow> valid b t \<and> (b \<notin> set as \<longrightarrow> at b t = at b s)) \<and>
    (\<forall>a \<in> set as. \<exists>u v. inv u \<and> valid a u \<and> at a u = at a s \<and> step a u = Inr v \<and> inv v \<and> at a t = at a v)"
  using assms
proof (induction as arbitrary: s)
  case (Cons a as)
  from Cons.prems(2) have a: "valid a s" by simp
  from step_ok [OF Cons.prems(1) a] obtain u where u: "step a s = Inr u" "inv u" by blast
  have valid: "valid b s \<Longrightarrow> valid b u" for b using step_valid [OF Cons.prems(1) a u(1)] by blast
  have same: "valid b s \<Longrightarrow> b \<noteq> a \<Longrightarrow> at b u = at b s" for b using step_at [OF Cons.prems(1) a u(1)] by blast
  have "\<forall>b \<in> set as. valid b u" "distinct as" using Cons.prems(2,3) valid by simp_all
  from Cons.IH [OF u(2) this] obtain t where t: "foldR step as u = Inr t" "inv t"
    "\<forall>b. valid b u \<longrightarrow> valid b t \<and> (b \<notin> set as \<longrightarrow> at b t = at b u)"
    "\<forall>b \<in> set as. \<exists>v w. inv v \<and> valid b v \<and> at b v = at b u \<and> step b v = Inr w \<and> inv w \<and> at b t = at b w"
    by blast
  have "a \<notin> set as" using Cons.prems(3) by simp
  then have "at a t = at a u" using t(3) valid [OF a] by blast
  moreover have "\<exists>v w. inv v \<and> valid b v \<and> at b v = at b s \<and> step b v = Inr w \<and> inv w \<and> at b t = at b w"
    if "b \<in> set as" for b
    using t(4) that same [of b] Cons.prems(2) \<open>a \<notin> set as\<close> by (metis list.set_intros(2))
  ultimately have "\<forall>b \<in> set (a # as). \<exists>v w. inv v \<and> valid b v \<and> at b v = at b s \<and> step b v = Inr w \<and> inv w \<and>
      at b t = at b w"
    using u Cons.prems(1) a by (metis set_ConsD)
  moreover have "\<forall>b. valid b s \<longrightarrow> valid b t \<and> (b \<notin> set (a # as) \<longrightarrow> at b t = at b s)"
    using t(3) valid same by simp
  ultimately show ?case using t(1,2) u(1) by auto
qed simp

end

text \<open>A player and its client.\<close>

definition here :: "ref \<Rightarrow> System \<Rightarrow> Player option \<times> Client option" where
  "here p s = (heap_at (players s) p, Option.bind (heap_at (players s) p) (\<lambda>pl. heap_at (clients s) (m_Client pl)))"

lemma here_ok: "player_ok p pl x s \<Longrightarrow> here p s = (Some pl, Some x)"
  by (simp add: here_def player_ok_def)

lemma here_at: "here p s = (Some pl, Some x) \<Longrightarrow> heap_at (players s) p = Some pl \<and> heap_at (clients s) (m_Client pl) = Some x"
  by (auto simp: here_def)

lemma changes_at:
  "changes p pl pl' x x' s t \<Longrightarrow> heap_at (players t) r = Some y \<Longrightarrow> r = p \<and> y = pl' \<or> heap_at (players s) r = Some y"
  unfolding changes_def by (metis option.inject)

lemma here_member:
  assumes "world_ok s" "registered p s" "here p s = (Some pl, Some x)" "player_ok p pl' x' s"
  shows "pl' = pl" "x' = x"
  using assms(3) here_ok [OF assms(4)] by simp_all

lemma here_changes:
  assumes "world_ok s" "changes p pl pl' x x' s t" "player_ok p pl x s" "registered r s" "r \<noteq> p"
  shows "here r t = here r s"
proof -
  obtain plr xr where r: "player_ok r plr xr s" using world_ok_member [OF assms(1,4)] by metis
  from here_ok [OF this] here_ok [OF changes_others [OF assms(2,3) r assms(5) registered_rooted [OF assms(4)]]] show ?thesis by simp
qed

lemma here_changed: "changes p pl pl' x x' s t \<Longrightarrow> here p t = (Some pl', Some x')"
  by (simp add: here_def changes_def)

lemma here_playerList [simp]: "here p (s\<lparr>playerList := ps\<rparr>) = here p s"
  by (simp add: here_def)

section \<open>The first pass\<close>

interpretation process_at: local_steps Player_Process "\<lambda>s. world_ok s \<and> same_registry s0 s" registered player_in_region here
  for s0
proof unfold_locales
  fix s t :: System and p q :: ref
  assume s: "world_ok s \<and> same_registry s0 s" "registered p s" "Player_Process p s = Inr t"
    and q: "registered q s" "q \<noteq> p"
  obtain u pl pl' x x' where "Player_Process p s = Inr u" "player_ok p pl x s" "changes p pl pl' x x' s u"
    using process_member [of s p] s(1,2) by metis
  with s q show "here q t = here q s" by (auto intro: here_changes)
qed

section \<open>What a client knows\<close>

text \<open>The corner of the loaded map, the tile of its player, and the index, appearance and tile of every local player.\<close>

type_synonym knowledge = "tile \<times> tile \<times> sighting list"

text \<open>The region packet has two shorts, the first with 128 added to its low byte.\<close>

definition short_at :: "ValueType \<Rightarrow> i8 list \<Rightarrow> u32" where
  "short_at type bs = word_of_nat (256 * unat (bs ! 0) + unat (dec_value type (bs ! 1)))"

definition see_corner :: "i8 list \<Rightarrow> tile" where
  "see_corner body = (8 * (short_at VT_A body - 6), 8 * (short_at VT_STANDARD (drop 2 body) - 6))"

text \<open>Packets other than the map region and the update tell nothing of this.\<close>

fun sees :: "i32 \<times> i8 list \<Rightarrow> knowledge \<Rightarrow> knowledge option" where
  "sees (opcode, body) (corner, view) =
     (if opcode = 73 then Some (see_corner body, view)
      else if opcode = 81 then map_option (Pair corner) (see_update corner view (drop 2 body))
      else Some (corner, view))"

primrec sees_all :: "(i32 \<times> i8 list) list \<Rightarrow> knowledge \<Rightarrow> knowledge option" where
  "sees_all [] k = Some k"
| "sees_all (m # ms) k = Option.bind (sees m k) (sees_all ms)"

definition known :: "ref \<Rightarrow> System \<Rightarrow> knowledge" where
  "known p s = (corner_of (look s p), tile_of (look s p),
     map (\<lambda>q. (label_of (look s q), tile_of (look s q))) (m_LocalPlayers (look s p)))"

lemma known_playerList [simp]: "known p (s\<lparr>playerList := ps\<rparr>) = known p s" "look (s\<lparr>playerList := ps\<rparr>) q = look s q"
  by (simp_all add: known_def look_def)

lemma short_at_enc:
  assumes "unat v < 2 ^ 16"
  shows "short_at type (enc_short type BIG v @ bs) = v"
proof -
  have "unat (byte_at 8 v) = unat v div 256"
    using assms by (simp add: byte_at_def unsigned_ucast_eq drop_bit_eq_div take_bit_eq_mod unat_div_distrib)
  moreover have "unat (ucast v :: i8) = unat v mod 256" by (simp add: unsigned_ucast_eq take_bit_eq_mod)
  ultimately have "256 * unat (byte_at 8 v) + unat (ucast v :: i8) = unat v" by simp
  then show ?thesis by (simp add: short_at_def enc_short_def)
qed

lemma see_corner_region:
  assumes "unat (pos_x (m_Position pl)) < 2 ^ 19" "unat (pos_y (m_Position pl)) < 2 ^ 19"
    and "m_CurrentRegion pl = m_Position pl"
  shows "see_corner (region_body (m_Position pl)) = corner_of pl"
proof -
  have "unat (drop_bit 3 v) < 2 ^ 16" if "unat v < 2 ^ 19" for v :: u32
    using that by (simp add: drop_bit_eq_div unat_div_distrib)
  from short_at_enc [OF this [OF assms(1)], of VT_A] short_at_enc [OF this [OF assms(2)], of VT_STANDARD "[]"] assms(3)
  show ?thesis by (simp add: see_corner_def region_body_def corner_of_def GetRegionX_def GetRegionY_def)
qed

section \<open>One player\<close>

text \<open>A move is reported exactly.\<close>

lemma move_report:
  assumes "settled pl" "still pl" "Process_move pl = Inr pl1"
  shows "directions_ok pl1" "go (directions pl1) (tile_of pl) = tile_of pl1"
    "label_of pl1 = label_of pl" "m_LocalPlayers pl1 = m_LocalPlayers pl" "m_CurrentRegion pl1 = m_CurrentRegion pl"
proof -
  have wf: "chain (pos_x (m_Position pl)) (pos_y (m_Position pl)) (waypoints pl)"
    "list_all (\<lambda>w. m_Direction w \<noteq> -1) (waypoints pl)"
    using assms(1) by (simp_all add: settled_def movement_wf_def)
  consider "waypoints pl = []" | w where "waypoints pl = [w]" | w v vs where "waypoints pl = w # v # vs"
    by (cases "waypoints pl" rule: remdups_adj.cases) auto
  then have "directions_ok pl1 \<and> go (directions pl1) (tile_of pl) = tile_of pl1"
    using assms(2,3) wf by cases (auto simp: Process_move_eq [OF assms(1)] tile_after_def reported_def adjacent_def
        set_waypoints_def still_def directions_ok_def directions_def go_def tile_of_def split: if_splits)
  then show "directions_ok pl1" "go (directions pl1) (tile_of pl) = tile_of pl1" by simp_all
  show "label_of pl1 = label_of pl" "m_LocalPlayers pl1 = m_LocalPlayers pl" "m_CurrentRegion pl1 = m_CurrentRegion pl"
    using assms(3) Process_move_eq [OF assms(1)] by (auto simp: set_waypoints_def intro: label_cong)
qed

section \<open>The first pass for one player\<close>

text \<open>After the first pass: the move is reported by directions, a new region by a packet.\<close>

definition processed :: "ref \<Rightarrow> System \<Rightarrow> System \<Rightarrow> bool" where
  "processed q s t \<longleftrightarrow> (\<exists>pl x pl' ms. here q s = (Some pl, Some x) \<and> here q t = (Some pl', Some (emits ms x)) \<and>
     in_region pl' \<and> directions_ok pl' \<and> go (directions pl') (tile_of pl) = tile_of pl' \<and>
     label_of pl' = label_of pl \<and> m_LocalPlayers pl' = m_LocalPlayers pl \<and>
     (ms = [] \<and> m_CurrentRegion pl' = m_CurrentRegion pl \<or>
      ms = [(73, region_body (m_Position pl'))] \<and> m_CurrentRegion pl' = m_Position pl'))"

lemma process_processed:
  assumes "world_ok u" "registered q u" "here q u = here q s" "idle s" "Player_Process q u = Inr v" "here q t = here q v"
  shows "processed q s t"
proof -
  obtain w pl pl' x x' pl1 where w: "Player_Process q u = Inr w" "player_ok q pl x u" "changes q pl pl' x x' u w"
    "in_region pl'" "settled pl" "Process_move pl = Inr pl1"
    "pl' = (if in_region pl1 then pl1
       else pl1\<lparr>m_CurrentRegion := m_Position pl1, m_UpdateFlags := flag_or (m_UpdateFlags pl1) Flag_NeedsPlacement\<rparr>)"
    "x' = (if in_region pl1 then x else emit 73 (region_body (m_Position pl1)) x)"
    using process_member [OF assms(1,2)] by metis
  have here: "here q s = (Some pl, Some x)" "here q t = (Some pl', Some x')"
    using here_ok [OF w(2)] here_changed [OF w(3)] assms(3,5,6) w(1) by simp_all
  then have "still pl" using assms(4) by (auto simp: idle_def here_def)
  note r = move_report [OF w(5) this w(6)]
  have pl': "directions pl' = directions pl1" "directions_ok pl' = directions_ok pl1" "tile_of pl' = tile_of pl1"
    "label_of pl' = label_of pl1" "m_LocalPlayers pl' = m_LocalPlayers pl1" "m_Position pl' = m_Position pl1"
    by (simp_all add: w(7) directions_def directions_ok_def tile_of_def) (intro impI label_cong; simp)
  show ?thesis
  proof (cases "in_region pl1")
    case True
    then show ?thesis unfolding processed_def
      using here w(4,7,8) r by (intro exI [of _ pl] exI [of _ x] exI [of _ pl1] exI [of _ "[]"]) simp
  next
    case False
    then show ?thesis unfolding processed_def
      using here w(4,8) r pl' by (intro exI [of _ pl] exI [of _ x] exI [of _ pl'] exI [of _ "[(73, region_body (m_Position pl1))]"])
        (simp add: w(7))
  qed
qed

lemma first_pass:
  assumes "world_ok s" "enumerates order s" "idle s"
  obtains t where "foldR Player_Process (map snd order) s = Inr t" "world_ok t" "same_registry s t" "all_in_region t"
    "\<forall>q. registered q s \<longrightarrow> processed q s t"
proof -
  let ?ps = "map snd order"
  have reg: "\<forall>p \<in> set ?ps. registered p s" and all: "registered p s \<Longrightarrow> p \<in> set ?ps" and dist: "distinct ?ps" for p
    using assms(2) by (auto simp: enumerates_def registered_def)
  from process_at.run_at [of s s, OF _ reg dist] assms(1) obtain t where t: "foldR Player_Process ?ps s = Inr t"
    "world_ok t" "same_registry s t"
    "\<forall>q \<in> set ?ps. \<exists>u v. (world_ok u \<and> same_registry s u) \<and> registered q u \<and> here q u = here q s \<and>
       Player_Process q u = Inr v \<and> (world_ok v \<and> same_registry s v) \<and> here q t = here q v"
    by auto
  have each: "processed q s t" if q: "registered q s" for q
  proof -
    obtain u v where "world_ok u" "registered q u" "here q u = here q s" "Player_Process q u = Inr v" "here q t = here q v"
      using t(4) all [OF q] by blast
    then show ?thesis using process_processed assms(3) by blast
  qed
  have "registered q t = registered q s" for q using t(3) by (simp add: same_registry_def registered_def)
  then have "all_in_region t" using each unfolding all_in_region_def processed_def here_def by fastforce
  with t(1-3) each that show ?thesis by blast
qed

text \<open>Also a player that has logged out is reported as it is, as long as somebody sees it.\<close>

lemma first_pass_at:
  assumes "\<forall>q. registered q s \<longrightarrow> processed q s t" "same_registry s t" "idle s" "heap_at (players t) q = Some y"
  shows "directions_ok y" "go (directions y) (tile_of (look s q)) = tile_of y" "label_of y = label_of (look s q)"
proof -
  obtain y0 where y0: "heap_at (players s) q = Some y0" "registered q s \<or> y = y0"
    using assms(2,4) unfolding same_registry_def by blast
  have "directions_ok y \<and> go (directions y) (tile_of y0) = tile_of y \<and> label_of y = label_of y0"
  proof (cases "registered q s")
    case True
    with assms(1) have "processed q s t" by blast
    with y0(1) assms(4) show ?thesis unfolding processed_def here_def by auto
  next
    case False
    with y0 assms(3) have "y = y0" "still y0" by (auto simp: idle_def)
    then show ?thesis by (simp add: directions_ok_def directions_def go_def still_def)
  qed
  with y0(1) show "directions_ok y" "go (directions y) (tile_of (look s q)) = tile_of y"
    "label_of y = label_of (look s q)" by simp_all
qed

lemma newcomers_in_view: "q \<in> set (newcomers p pl s qs) \<Longrightarrow> q \<in> set qs \<and> in_view pl (look s q)"
  by (auto simp: newcomers_def dest: in_set_takeD)

lemma refs_alive:
  assumes "world_ok s"
  shows "heap_at (players s) p = Some pl \<Longrightarrow> q \<in> set (m_LocalPlayers pl) \<Longrightarrow> \<exists>y. heap_at (players s) q = Some y"
    and "registered q s \<Longrightarrow> \<exists>y. heap_at (players s) q = Some y"
  using assms by (force simp: world_ok_def refs_ok_def alive_def registered_def)+

section \<open>The update of one player\<close>

text \<open>\<open>old\<close> gives the tiles that the client knows. Where a player has moved since, its directions report the way.\<close>

lemma update_known:
  assumes w: "world_ok u" and order: "enumerates order u" and reg: "registered p u"
    and p: "here p u = (Some pl, Some x)" "in_region pl" "length (m_LocalPlayers pl) < 255"
    and marker: "\<forall>q. registered q u \<longrightarrow> index_num (look u q) < 2047"
    and old: "\<forall>q \<in> insert p (set (m_LocalPlayers pl)).
      directions_ok (look u q) \<and> go (directions (look u q)) (old q) = tile_of (look u q)"
    and run: "UpdatePlayer order p u = Inr v"
  obtains body qs where "changes p pl (pl\<lparr>m_LocalPlayers := qs\<rparr>) x (emit 81 (frame_size_bytes HS_SHORT (length body) @ body) x) u v"
    "see_update (corner_of pl) (old p, map (\<lambda>q. (label_of (look u q), old q)) (m_LocalPlayers pl)) body =
      Some (tile_of pl, map (\<lambda>q. (label_of (look u q), tile_of (look u q))) qs)"
proof -
  have members: "set order = set (m_Players u)" "distinct (map snd order)" using order by (simp_all add: enumerates_def)
  have pl: "heap_at (players u) p = Some pl" using p(1) by (simp add: here_def)
  let ?new = "added_locals p pl u order"
  obtain pl' x' y locals where m: "player_ok p pl' x' u" "changes p pl' (pl'\<lparr>m_LocalPlayers := locals\<rparr>) x' y u v"
    "length (kept_locals pl' u) < 255 \<longrightarrow> locals = kept_locals pl' u @ added_locals p pl' u order \<and>
      (\<exists>body. body_of (update_fields pl' u (added_locals p pl' u order)) (update_block pl' u (added_locals p pl' u order)) body \<and>
         y = emit 81 (frame_size_bytes HS_SHORT (length body) @ body) x')"
    using update_member [OF w reg members] run by (metis sum.inject(2))
  have eq: "pl' = pl" "x' = x" using here_ok [OF m(1)] p(1) by simp_all
  have "length (kept_locals pl u) < 255"
    using p(3) by (simp add: kept_locals_def le_less_trans [OF length_filter_le])
  with m(3) obtain body where body: "locals = kept_locals pl u @ ?new"
    "body_of (update_fields pl u ?new) (update_block pl u ?new) body"
    "y = emit 81 (frame_size_bytes HS_SHORT (length body) @ body) x"
    unfolding eq by blast
  have new: "registered q u \<and> in_view pl (look u q)" if "q \<in> set ?new" for q
    using newcomers_in_view [OF that [unfolded added_locals_def]] members by (auto simp: registered_def)
  have "see_update (corner_of pl) (old p, map (\<lambda>q. (label_of (look u q), old q)) (m_LocalPlayers pl)) body =
      Some (tile_of pl, map (\<lambda>q. (label_of (look u q), tile_of (look u q))) (kept_locals pl u @ ?new))"
  proof (rule see_packet [OF body(2)])
    show "\<not> NeedsUpdate_flag Flag_NeedsPlacement pl \<longrightarrow> directions_ok pl \<and> go (directions pl) (old p) = tile_of pl"
      using old pl by simp
    show "\<forall>q \<in> set ?new. in_view pl (look u q) \<and> index_num (look u q) < 2047" using new marker by blast
  qed (use p(2,3) old in simp_all)
  then show ?thesis using that m(2) body(1,3) eq by simp
qed

end
