(* ===== verification/Process_View.thy ===== *)
theory Process_View
  imports Process World_View
begin

text \<open>
  What the clients see of the world while both threads run. Between the beginning of a cycle and its own update, a client
  knows where everybody was when the cycle began; after its update it knows the truth, and handlers do not change
  it. So what is posted to a client always tells it the truth, as of its last update.
\<close>

section \<open>Packets\<close>

lemma posted_emits:
  assumes "m_Encryptor x = Some e"
  shows "posted (emits ms x) = posted x @ fst (map_state enc_packet ms e)"
    "m_Encryptor (emits ms x) = Some (snd (map_state enc_packet ms e))"
  by (simp_all add: emits_eq [OF assms] posted_def)

lemma emitted_decodes:
  assumes "set (map fst ms) \<subseteq> {73, 81}"
  shows "map_state dec_packet (fst (map_state enc_packet ms e)) e = (ms, snd (map_state enc_packet ms e))"
proof -
  have "map (\<lambda>(opcode, body). (opcode AND 0xFF, body)) ms = map id ms" using assms by (intro map_cong) auto
  then show ?thesis using chan.in_step [of ms e "fst (map_state enc_packet ms e)"] by simp
qed

lemma sees_all_append: "sees_all (ms @ ns) k = Option.bind (sees_all ms k) (sees_all ns)"
  by (induction ms arbitrary: k) (auto split: bind_splits)

lemma map_state_append:
  "map_state f (xs @ ys) s = (case map_state f xs s of (us, s) \<Rightarrow> case map_state f ys s of (vs, s) \<Rightarrow> (us @ vs, s))"
  by (induction xs arbitrary: s) (simp_all split: prod.split)

lemma member_here:
  assumes "sys_inv s" "registered p s"
  obtains pl x e where "heap_at (players s) p = Some pl" "heap_at (clients s) (m_Client pl) = Some x"
    "m_Encryptor x = Some e" "m_Stage x = LOGGED_IN"
proof -
  obtain pl x e where ok: "player_ok p pl x s" "m_Encryptor x = Some e"
    using world_ok_member [OF sys_invD(1) [OF assms(1)] assms(2)] .
  with sys_invD(7) [OF assms ok(1)] that show ?thesis by (simp add: player_ok_def)
qed

text \<open>
  What client \<open>c\<close> of a player has been sent since a state with key \<open>e\<close> and posted data \<open>old\<close> leads it from the knowledge
  \<open>k\<close> to the knowledge \<open>v\<close>.
\<close>

definition told :: "ref \<Rightarrow> ref \<Rightarrow> knowledge \<Rightarrow> i8 list list \<Rightarrow> ISAACCipher \<Rightarrow> knowledge \<Rightarrow> System \<Rightarrow> bool" where
  "told p c k old e v t \<longleftrightarrow> m_Client (look t p) = c \<and> (\<exists>y packets msgs e'. heap_at (clients t) c = Some y \<and>
     posted y = old @ packets \<and> m_Encryptor y = Some e' \<and> map_state dec_packet packets e = (msgs, e') \<and>
     sees_all msgs k = Some v)"

lemma told_now: "heap_at (clients s) (m_Client (look s p)) = Some x \<Longrightarrow> m_Encryptor x = Some e \<Longrightarrow>
    told p (m_Client (look s p)) k (posted x) e k s"
  by (auto simp: told_def intro!: exI [of _ "[]"])

lemma told_same:
  assumes "told p c k old e v s" "m_Client (look t p) = m_Client (look s p)"
    and "\<And>x. heap_at (clients s) c = Some x \<Longrightarrow>
      \<exists>y. heap_at (clients t) c = Some y \<and> posted y = posted x \<and> m_Encryptor y = m_Encryptor x"
  shows "told p c k old e v t"
  using assms unfolding told_def by metis

lemma told_emits:
  assumes "told p c k old e v s" "m_Client (look t p) = m_Client (look s p)" "heap_at (clients s) c = Some x"
    and "heap_at (clients t) c = Some (emits ms x)" "set (map fst ms) \<subseteq> {73, 81}" "sees_all ms v = Some w"
  shows "told p c k old e w t"
proof -
  obtain packets msgs e' where s: "posted x = old @ packets" "m_Encryptor x = Some e'"
    "map_state dec_packet packets e = (msgs, e')" "sees_all msgs k = Some v" "m_Client (look s p) = c"
    using assms(1,3) by (auto simp: told_def)
  let ?new = "fst (map_state enc_packet ms e')"
  have "posted (emits ms x) = old @ (packets @ ?new)" "m_Encryptor (emits ms x) = Some (snd (map_state enc_packet ms e'))"
    using posted_emits [OF s(2)] s(1) by simp_all
  moreover have "map_state dec_packet (packets @ ?new) e = (msgs @ ms, snd (map_state enc_packet ms e'))"
    using s(3) emitted_decodes [OF assms(5), of e'] by (simp add: map_state_append)
  moreover have "sees_all (msgs @ ms) k = Some w" using s(4) assms(6) by (simp add: sees_all_append)
  ultimately show ?thesis using assms(2,4) s(5) unfolding told_def by metis
qed

section \<open>What a client is expected to know\<close>

text \<open>The player has still to be updated in the running cycle.\<close>

fun pending :: "ref \<Rightarrow> game \<Rightarrow> bool" where
  "pending p (Updating ps all) = (p \<in> set ps)"
| "pending p _ = False"

text \<open>\<open>s0\<close> is the state in which the cycle began.\<close>

definition expects :: "System \<Rightarrow> ref \<Rightarrow> System \<Rightarrow> game \<Rightarrow> knowledge" where
  "expects s0 p s g =
     (if pending p g
      then (corner_of (look s p), tile_of (look s0 p),
        map (\<lambda>q. (label_of (look s0 q), tile_of (look s0 q))) (m_LocalPlayers (look s p)))
      else known p s)"

text \<open>A player that has moved since then reports its way by its directions.\<close>

definition moved :: "System \<Rightarrow> ref \<Rightarrow> Player \<Rightarrow> bool" where
  "moved s0 q y \<longleftrightarrow> directions_ok y \<and> go (directions y) (tile_of (look s0 q)) = tile_of y \<and> label_of y = label_of (look s0 q)"

definition stage_set :: "System \<Rightarrow> System \<Rightarrow> ref list \<Rightarrow> ref list \<Rightarrow> bool" where
  "stage_set s0 s ps all \<longleftrightarrow> distinct ps \<and> length (players s0) \<le> length (players s) \<and>
     (\<forall>q y. heap_at (players s) q = Some y \<longrightarrow> (q < length (players s0) \<longrightarrow> moved s0 q y) \<and>
        (if q \<in> set all then in_region y else still y) \<and>
        (q \<in> set ps \<longrightarrow> q < length (players s0) \<and> (\<forall>r \<in> set (m_LocalPlayers y). r < length (players s0))))"

fun scene :: "System \<Rightarrow> System \<Rightarrow> game \<Rightarrow> bool" where
  "scene s0 s Sleeping = idle s"
| "scene s0 s (Updating ps all) = stage_set s0 s ps all"
| "scene s0 s (Resetting ps all) = (\<forall>q y. heap_at (players s) q = Some y \<longrightarrow> q \<notin> set ps \<longrightarrow> still y)"

lemma stage_setD:
  assumes "stage_set s0 s ps all" "heap_at (players s) q = Some y"
  shows "q < length (players s0) \<Longrightarrow> moved s0 q y" "q \<in> set all \<Longrightarrow> in_region y" "q \<notin> set all \<Longrightarrow> still y"
    "q \<in> set ps \<Longrightarrow> q < length (players s0)" "q \<in> set ps \<Longrightarrow> r \<in> set (m_LocalPlayers y) \<Longrightarrow> r < length (players s0)"
  using assms unfolding stage_set_def by metis+

lemma known_cong:
  assumes "world_ok s" "world_ok t" "heap_at (players s) p = Some pl" "heap_at (players t) p = Some pl'"
    and "corner_of pl' = corner_of pl" "m_LocalPlayers pl' = m_LocalPlayers pl"
    and "\<And>q y z. heap_at (players s) q = Some y \<Longrightarrow> heap_at (players t) q = Some z \<Longrightarrow>
      tile_of z = tile_of y \<and> label_of z = label_of y"
  shows "known p t = known p s"
proof -
  have "tile_of (look t q) = tile_of (look s q) \<and> label_of (look t q) = label_of (look s q)"
    if q: "q \<in> set (m_LocalPlayers pl)" for q
  proof -
    obtain y z where "heap_at (players s) q = Some y" "heap_at (players t) q = Some z"
      using refs_alive(1) [OF assms(1,3) q] refs_alive(1) [OF assms(2,4), of q] q assms(6) by auto
    then show ?thesis using assms(7) by simp
  qed
  then show ?thesis using assms(3-7) by (simp add: known_def)
qed

section \<open>Handlers\<close>

lemma sight_views:
  assumes "same_sight y z"
  shows "tile_of z = tile_of y" "label_of z = label_of y" "corner_of z = corner_of y" "directions z = directions y"
    "directions_ok z = directions_ok y" "in_region z = in_region y" "m_LocalPlayers z = m_LocalPlayers y"
    "m_Client z = m_Client y" "moved s0 q z = moved s0 q y"
proof -
  note eq = assms [unfolded same_sight_def]
  show label: "label_of z = label_of y" using eq by (intro label_cong) simp_all
  show "tile_of z = tile_of y" "corner_of z = corner_of y" "directions z = directions y"
    "directions_ok z = directions_ok y" "in_region z = in_region y" "m_LocalPlayers z = m_LocalPlayers y"
    "m_Client z = m_Client y"
    using eq by (simp_all add: tile_of_def corner_of_def directions_def directions_ok_def in_region_def)
  then show "moved s0 q z = moved s0 q y" by (simp add: moved_def label)
qed

lemma network_scene:
  assumes "network_step s t" "machine_inv (s, g)" "scene s0 s g"
  shows "scene s0 t g"
proof -
  have inv: "sys_inv s" "game_ok (s, g)" using assms(2) by (simp_all add: machine_inv_def)
  have rests: "rests s t" using network_settles [OF assms(1) inv(1)] by (simp add: settles_def)
  have listed: "q < length (players s)" if "q \<in> set (playerList s)" for q
    using that sys_invD(1) [OF inv(1)] heap_at_length by (fastforce simp: world_ok_def listed_ok_def)
  show ?thesis
  proof (cases g)
    case Sleeping
    with assms(3) idle_rests [OF rests] show ?thesis by simp
  next
    case (Updating ps all)
    with inv(2) have all: "playerList s = all" "set ps \<subseteq> set all" by simp_all
    have set: "stage_set s0 s ps all" using assms(3) Updating by simp
    have len: "length (players s0) \<le> length (players s)" using set by (simp add: stage_set_def)
    have "(q < length (players s0) \<longrightarrow> moved s0 q z) \<and> (if q \<in> set all then in_region z else still z) \<and>
        (q \<in> set ps \<longrightarrow> q < length (players s0) \<and> (\<forall>r \<in> set (m_LocalPlayers z). r < length (players s0)))"
      if z: "heap_at (players t) q = Some z" for q z
      using rests z
    proof (cases rule: rests_at)
      case (old y)
      from stage_setD [OF set old(1)] show ?thesis by (auto simp: sight_views [OF old(2)] still_sight [OF old(2)])
    next
      case fresh
      then have "q \<notin> set all" "\<not> q < length (players s0)" using listed [of q] all(1) len by auto
      with fresh(2) all(2) show ?thesis by auto
    qed
    with set len rests show ?thesis by (simp add: Updating stage_set_def rests_def)
  next
    case (Resetting ps all)
    with assms(3) show ?thesis by (auto simp: still_sight elim!: rests_at [OF rests])
  qed
qed

lemma network_told:
  assumes "network_step s t" "machine_inv (s, g)" "registered p s" "registered p t" "told p c k old e (expects s0 p s g) s"
  shows "told p c k old e (expects s0 p t g) t"
proof -
  have inv: "sys_inv s" "sys_inv t" using assms(2) inv_network [OF assms(1)] by (simp_all add: machine_inv_def)
  have settles: "settles s t" by (rule network_settles [OF assms(1) inv(1)])
  obtain pl x e1 where s: "heap_at (players s) p = Some pl" "heap_at (clients s) (m_Client pl) = Some x"
    "m_Stage x = LOGGED_IN" "m_Encryptor x = Some e1"
    using member_here [OF inv(1) assms(3)] .
  obtain pl' y where t: "heap_at (players t) p = Some pl'" "heap_at (clients t) (m_Client pl') = Some y"
    using member_here [OF inv(2) assms(4)] .
  note sight = sight_views [OF settles_sight [OF settles s(1) t(1)]]
  have "known p t = known p s"
    by (rule known_cong [OF sys_invD(1) [OF inv(1)] sys_invD(1) [OF inv(2)] s(1) t(1) sight(3,7)])
      (use settles_sight [OF settles] sight_views(1,2) in blast)
  then have expects: "expects s0 p t g = expects s0 p s g" using s(1) t(1) sight(3,7) by (simp add: expects_def)
  have "grows x y" using settles s(2) t(2) sight(8) unfolding settles_def by metis
  with s(3) have same: "posted y = posted x" "m_Encryptor y = m_Encryptor x" by (simp_all add: grows_def entered_def)
  have "m_Client pl = c" using assms(5) s(1) by (simp add: told_def)
  then show ?thesis
    unfolding expects by (intro told_same [OF assms(5)]) (use s t sight(8) same in auto)
qed

section \<open>The first pass\<close>

text \<open>The bounds of the protocol, for a player of the world.\<close>

definition in_bounds :: "ref \<Rightarrow> System \<Rightarrow> bool" where
  "in_bounds p s \<longleftrightarrow> registered p s \<and> length (m_LocalPlayers (look s p)) < 255 \<and>
     (\<forall>q. registered q s \<longrightarrow> index_num (look s q) < 2047) \<and>
     unat (fst (tile_of (look s p))) < 2 ^ 19 \<and> unat (snd (tile_of (look s p))) < 2 ^ 19"

lemma begin_passes:
  assumes "game_step order (s, Sleeping) = Inr (t, h)" "world_ok s" "enumerates order s" "idle s"
  obtains s1 where "t = s1\<lparr>playerList := map snd order\<rparr>" "h = Updating (map snd order) (map snd order)" "world_ok s1"
    "same_registry s s1" "all_in_region s1" "\<forall>q. registered q s \<longrightarrow> processed q s s1"
proof -
  obtain s1 where s1: "foldR Player_Process (map snd order) s = Inr s1" "world_ok s1" "same_registry s s1" "all_in_region s1"
    "\<forall>q. registered q s \<longrightarrow> processed q s s1"
    using first_pass [OF assms(2-4)] .
  moreover have "t = s1\<lparr>playerList := map snd order\<rparr>" "h = Updating (map snd order) (map snd order)"
    using assms(1) s1(1) by (simp_all add: Let_def)
  ultimately show ?thesis by (intro that)
qed

lemma begin_scene:
  assumes "game_step order (s, Sleeping) = Inr (t, h)" "world_ok s" "enumerates order s" "idle s"
  shows "scene s t h"
proof -
  let ?ps = "map snd order"
  obtain s1 where t: "t = s1\<lparr>playerList := ?ps\<rparr>" "h = Updating ?ps ?ps" and s1: "world_ok s1"
    "same_registry s s1" "all_in_region s1" "\<forall>q. registered q s \<longrightarrow> processed q s s1"
    using begin_passes [OF assms] .
  have len: "length (players s1) = length (players s)" using s1(2) by (simp add: same_registry_def)
  have reg: "q \<in> set ?ps \<longleftrightarrow> registered q s" "registered q s1 = registered q s" for q
    using assms(3) s1(2) by (auto simp: enumerates_def registered_def same_registry_def)
  have "(q < length (players s) \<longrightarrow> moved s q y) \<and> (if q \<in> set ?ps then in_region y else still y) \<and>
      (q \<in> set ?ps \<longrightarrow> q < length (players s) \<and> (\<forall>r \<in> set (m_LocalPlayers y). r < length (players s)))"
    if y: "heap_at (players s1) q = Some y" for q y
  proof -
    have "moved s q y" using first_pass_at [OF s1(4,2) assms(4) y] by (simp add: moved_def)
    moreover have "in_region y" if "registered q s" using that s1(3) y reg(2) by (simp add: all_in_region_def)
    moreover have "still y" if "\<not> registered q s"
    proof -
      obtain y0 where "heap_at (players s) q = Some y0" "registered q s \<or> y = y0"
        using s1(2) y unfolding same_registry_def by blast
      with that assms(4) show ?thesis by (auto simp: idle_def)
    qed
    moreover have "r < length (players s)" if "r \<in> set (m_LocalPlayers y)" for r
      using refs_alive(1) [OF s1(1) y that] heap_at_length len by metis
    ultimately show ?thesis using heap_at_length [OF y] len unfolding reg by auto
  qed
  with assms(3) len show ?thesis unfolding t by (simp add: stage_set_def enumerates_def)
qed

lemma begin_told:
  assumes "game_step order (s, Sleeping) = Inr (t, h)" "sys_inv s" "enumerates order s" "idle s"
    and "in_bounds p s" "in_bounds p t" "told p c k old e (expects s0 p s Sleeping) s"
  shows "told p c k old e (expects s p t h) t"
proof -
  let ?ps = "map snd order"
  obtain s1 where t: "t = s1\<lparr>playerList := ?ps\<rparr>" "h = Updating ?ps ?ps" and s1: "world_ok s1"
    "same_registry s s1" "all_in_region s1" "\<forall>q. registered q s \<longrightarrow> processed q s s1"
    using begin_passes [OF assms(1) sys_invD(1) [OF assms(2)] assms(3,4)] .
  have reg: "registered p s" using assms(5) by (simp add: in_bounds_def)
  then have p: "p \<in> set ?ps" using assms(3) by (force simp: enumerates_def registered_def)
  have "processed p s s1" using s1(4) reg by blast
  then obtain pl x pl1 ms where pl: "here p s = (Some pl, Some x)" "here p s1 = (Some pl1, Some (emits ms x))"
    "m_LocalPlayers pl1 = m_LocalPlayers pl"
    "ms = [] \<and> m_CurrentRegion pl1 = m_CurrentRegion pl \<or>
     ms = [(73, region_body (m_Position pl1))] \<and> m_CurrentRegion pl1 = m_Position pl1"
    unfolding processed_def by blast
  have at: "heap_at (players s) p = Some pl" "heap_at (clients s) (m_Client pl) = Some x"
    "heap_at (players t) p = Some pl1" "heap_at (clients t) (m_Client pl1) = Some (emits ms x)"
    using here_at [OF pl(1)] here_at [OF pl(2)] by (simp_all add: t)
  have client: "m_Client pl1 = m_Client pl" using s1(2) at(1,3) unfolding same_registry_def t by fastforce
  have sees: "sees_all ms (known p s) = Some (expects s p t h)"
    using pl(4)
  proof
    assume "ms = [] \<and> m_CurrentRegion pl1 = m_CurrentRegion pl"
    then show ?thesis using p pl(3) at(1,3) by (simp add: expects_def t(2) known_def corner_of_def)
  next
    assume ms: "ms = [(73, region_body (m_Position pl1))] \<and> m_CurrentRegion pl1 = m_Position pl1"
    then have "see_corner (region_body (m_Position pl1)) = corner_of pl1"
      using assms(6) at(3) by (intro see_corner_region) (simp_all add: in_bounds_def tile_of_def)
    then show ?thesis using ms p pl(3) at(1,3) by (simp add: expects_def t(2) known_def)
  qed
  have ms: "set (map fst ms) \<subseteq> {73, 81}" using pl(4) by auto
  have told: "told p c k old e (known p s) s" using assms(7) by (simp add: expects_def)
  then have c: "c = m_Client pl" using at(1) by (simp add: told_def)
  show ?thesis
    by (rule told_emits [OF told _ _ _ ms sees]) (simp_all only: c at look_at client at(4) [unfolded client])
qed

section \<open>The update of a player\<close>

lemma update_changes:
  assumes "machine_inv (s, Updating (q # ps) all)" "enumerates order s" "UpdatePlayer order q s = Inr t"
  obtains pl x x' locals where "player_ok q pl x s" "changes q pl (pl\<lparr>m_LocalPlayers := locals\<rparr>) x x' s t" "world_ok t"
proof -
  have inv: "sys_inv s" "q \<in> set (playerList s)" using assms(1) by (simp_all add: machine_inv_def)
  have "\<not> abandoned q s" using assms(3) abandoned_faults [of q s order] by auto
  note listed = update_listed [OF inv assms(2) this]
  obtain t' pl x x' locals where t': "UpdatePlayer order q s = Inr t'" "player_ok q pl x s"
    "changes q pl (pl\<lparr>m_LocalPlayers := locals\<rparr>) x x' s t'" "world_ok t'"
    using listed .
  from t'(1) assms(3) have "t' = t" by simp
  show ?thesis by (rule that [OF t'(2-4) [unfolded \<open>t' = t\<close>]])
qed

lemma label_locals [simp]: "label_of (pl\<lparr>m_LocalPlayers := qs\<rparr>) = label_of pl"
  by (rule label_cong) simp_all

lemma locals_views [simp]:
  "tile_of (pl\<lparr>m_LocalPlayers := qs\<rparr>) = tile_of pl" "corner_of (pl\<lparr>m_LocalPlayers := qs\<rparr>) = corner_of pl"
  "directions (pl\<lparr>m_LocalPlayers := qs\<rparr>) = directions pl"
  "directions_ok (pl\<lparr>m_LocalPlayers := qs\<rparr>) = directions_ok pl" "in_region (pl\<lparr>m_LocalPlayers := qs\<rparr>) = in_region pl"
  "still (pl\<lparr>m_LocalPlayers := qs\<rparr>) = still pl" "moved s0 q (pl\<lparr>m_LocalPlayers := qs\<rparr>) = moved s0 q pl"
  by (simp_all add: tile_of_def corner_of_def directions_def directions_ok_def in_region_def still_def moved_def)

text \<open>An update changes nothing of any player but its list of local players, and that only for its own player.\<close>

lemma update_at:
  assumes "changes q pl (pl\<lparr>m_LocalPlayers := locals\<rparr>) x x' s t" "player_ok q pl x s" "heap_at (players t) r = Some z"
  obtains y qs where "heap_at (players s) r = Some y" "z = y\<lparr>m_LocalPlayers := qs\<rparr>" "r \<noteq> q \<longrightarrow> z = y"
proof (cases "r = q")
  case True
  with assms have "heap_at (players s) r = Some pl" "z = pl\<lparr>m_LocalPlayers := locals\<rparr>"
    by (simp_all add: changes_def player_ok_def)
  with True show ?thesis by (intro that [of pl locals]) simp_all
next
  case False
  with changes_at [OF assms(1,3)] have "heap_at (players s) r = Some z" by simp
  then show ?thesis by (intro that [of z "m_LocalPlayers z"]) simp_all
qed

lemma update_scene:
  assumes "machine_inv (s, Updating (q # ps) all)" "enumerates order s" "UpdatePlayer order q s = Inr t"
    and "scene s0 s (Updating (q # ps) all)"
  shows "scene s0 t (Updating ps all)"
proof -
  obtain pl x x' locals where u: "player_ok q pl x s" "changes q pl (pl\<lparr>m_LocalPlayers := locals\<rparr>) x x' s t"
    using update_changes [OF assms(1-3)] .
  have set: "stage_set s0 s (q # ps) all" using assms(4) by simp
  have "length (players t) = length (players s)" using u(2) by (simp add: changes_def)
  moreover have "(r < length (players s0) \<longrightarrow> moved s0 r z) \<and> (if r \<in> set all then in_region z else still z) \<and>
      (r \<in> set ps \<longrightarrow> r < length (players s0) \<and> (\<forall>r' \<in> set (m_LocalPlayers z). r' < length (players s0)))"
    if z: "heap_at (players t) r = Some z" for r z
  proof -
    obtain y qs where y: "heap_at (players s) r = Some y" "z = y\<lparr>m_LocalPlayers := qs\<rparr>" "r \<noteq> q \<longrightarrow> z = y"
      using update_at [OF u(2,1) z] .
    have "r \<in> set ps \<Longrightarrow> z = y" using y(3) set by (auto simp: stage_set_def)
    then show ?thesis using stage_setD [OF set y(1)] y(2) by auto
  qed
  ultimately show ?thesis using set by (simp add: stage_set_def)
qed

lemma update_told:
  assumes "machine_inv (s, Updating (q # ps) all)" "enumerates order s" "UpdatePlayer order q s = Inr t"
    and "scene s0 s (Updating (q # ps) all)" "in_bounds p s" "told p c k old e (expects s0 p s (Updating (q # ps) all)) s"
  shows "told p c k old e (expects s0 p t (Updating ps all)) t"
proof -
  have inv: "sys_inv s" using assms(1) by (simp add: machine_inv_def)
  have reg: "registered p s" using assms(5) by (simp add: in_bounds_def)
  have set: "stage_set s0 s (q # ps) all" using assms(4) by simp
  obtain pl x x' locals where u: "player_ok q pl x s" "changes q pl (pl\<lparr>m_LocalPlayers := locals\<rparr>) x x' s t" "world_ok t"
    using update_changes [OF assms(1-3)] .
  note at = update_at [OF u(2,1)]
  have same: "tile_of z = tile_of y \<and> label_of z = label_of y"
    if "heap_at (players s) r = Some y" "heap_at (players t) r = Some z" for r y z
    by (rule at [OF that(2)]) (use that(1) in simp)
  show ?thesis
  proof (cases "p = q")
    case False
    obtain pl' y where p: "player_ok p pl' y s" using world_ok_member [OF sys_invD(1) [OF inv] reg] .
    have stay: "player_ok p pl' y t" by (rule changes_others [OF u(2,1) p False registered_rooted [OF reg]])
    from p stay have eq: "heap_at (players s) p = Some pl'" "heap_at (players t) p = Some pl'"
      "heap_at (clients s) (m_Client pl') = Some y" "heap_at (clients t) (m_Client pl') = Some y"
      by (simp_all add: player_ok_def)
    have "known p t = known p s" by (rule known_cong [OF sys_invD(1) [OF inv] u(3) eq(1,2) refl refl same])
    then have expects: "expects s0 p t (Updating ps all) = expects s0 p s (Updating (q # ps) all)"
      using eq(1,2) False by (simp add: expects_def)
    have "c = m_Client pl'" using assms(6) eq(1) by (simp add: told_def)
    then show ?thesis unfolding expects by (intro told_same [OF assms(6)]) (use eq in simp_all)
  next
    case True
    have p: "heap_at (players s) p = Some pl" "heap_at (clients s) (m_Client pl) = Some x"
      using u(1) True by (simp_all add: player_ok_def)
    have moved: "moved s0 r (look s r)" if r: "r = p \<or> r \<in> set (m_LocalPlayers pl)" for r
    proof -
      obtain y where "heap_at (players s) r = Some y"
        using r p(1) refs_alive(1) [OF sys_invD(1) [OF inv] p(1), of r] by auto
      with r stage_setD(1) [OF set, of r] stage_setD(4,5) [OF set p(1)] True show ?thesis by auto
    qed
    have here: "here p s = (Some pl, Some x)" using p by (simp add: here_def)
    have region: "in_region pl"
    proof -
      have "q \<in> set all" using assms(1) by (simp add: machine_inv_def)
      with True stage_setD(2) [OF set p(1)] show ?thesis by simp
    qed
    have bounds: "length (m_LocalPlayers pl) < 255" "\<forall>q. registered q s \<longrightarrow> index_num (look s q) < 2047"
      using assms(5) p(1) by (simp_all add: in_bounds_def)
    have old: "\<forall>r \<in> insert p (set (m_LocalPlayers pl)).
        directions_ok (look s r) \<and> go (directions (look s r)) (tile_of (look s0 r)) = tile_of (look s r)"
      using moved by (auto simp: moved_def)
    have run: "UpdatePlayer order p s = Inr t" using assms(3) True by simp
    obtain body qs where b:
      "changes p pl (pl\<lparr>m_LocalPlayers := qs\<rparr>) x (emit 81 (frame_size_bytes HS_SHORT (length body) @ body) x) s t"
      "see_update (corner_of pl) (tile_of (look s0 p), map (\<lambda>q. (label_of (look s q), tile_of (look s0 q))) (m_LocalPlayers pl)) body =
        Some (tile_of pl, map (\<lambda>q. (label_of (look s q), tile_of (look s q))) qs)"
      using update_known [OF sys_invD(1) [OF inv] assms(2) reg here region bounds old run] .
    have t: "heap_at (players t) p = Some (pl\<lparr>m_LocalPlayers := qs\<rparr>)"
      "heap_at (clients t) (m_Client pl) = Some (emit 81 (frame_size_bytes HS_SHORT (length body) @ body) x)"
      using b(1) by (simp_all add: changes_def)
    have "label_of (look t r) = label_of (look s r) \<and> tile_of (look t r) = tile_of (look s r)" if r: "r \<in> set qs" for r
    proof -
      obtain z where z: "heap_at (players t) r = Some z" using refs_alive(1) [OF u(3) t(1), of r] r by auto
      obtain y qs where "heap_at (players s) r = Some y" "z = y\<lparr>m_LocalPlayers := qs\<rparr>" using at [OF z] .
      with z show ?thesis by simp
    qed
    then have "known p t = (corner_of pl, tile_of pl, map (\<lambda>q. (label_of (look s q), tile_of (look s q))) qs)"
      using t(1) by (simp add: known_def)
    moreover have "p \<notin> set ps" using set True by (simp add: stage_set_def)
    moreover have view: "map (\<lambda>q. (label_of (look s q), tile_of (look s0 q))) (m_LocalPlayers pl) =
        map (\<lambda>q. (label_of (look s0 q), tile_of (look s0 q))) (m_LocalPlayers pl)"
      using moved by (simp add: moved_def)
    ultimately have sees: "sees_all [(81, frame_size_bytes HS_SHORT (length body) @ body)] (expects s0 p s (Updating (q # ps) all)) =
        Some (expects s0 p t (Updating ps all))"
      using b(2) [unfolded view] p(1) True by (simp add: expects_def del: map_eq_conv)
    have c: "c = m_Client pl" using assms(6) p(1) by (simp add: told_def)
    show ?thesis
      by (rule told_emits [OF assms(6) _ _ _ _ sees]) (simp_all add: c p t)
  qed
qed

section \<open>The rest of the cycle\<close>

text \<open>The reset of a player and the end of the cycle show nothing.\<close>

lemma quiet_told:
  assumes "told p c k old e (expects s0 p s g) s" "sys_inv s" "sys_inv t" "registered p s" "clients t = clients s"
    and "\<not> pending p g" "\<not> pending p h"
    and "\<And>r z. heap_at (players t) r = Some z \<Longrightarrow> \<exists>y. heap_at (players s) r = Some y \<and> tile_of z = tile_of y \<and>
      label_of z = label_of y \<and> corner_of z = corner_of y \<and> m_LocalPlayers z = m_LocalPlayers y \<and> m_Client z = m_Client y"
    and "registered p t"
  shows "told p c k old e (expects s0 p t h) t"
proof -
  obtain pl where pl: "heap_at (players t) p = Some pl" using member_here [OF assms(3,9)] .
  then obtain pl0 where pl0: "heap_at (players s) p = Some pl0" "corner_of pl = corner_of pl0"
    "m_LocalPlayers pl = m_LocalPlayers pl0" "m_Client pl = m_Client pl0"
    using assms(8) by blast
  have "known p t = known p s"
    by (rule known_cong [OF sys_invD(1) [OF assms(2)] sys_invD(1) [OF assms(3)] pl0(1) pl pl0(2,3)])
      (metis assms(8) option.inject)
  then have "expects s0 p t h = expects s0 p s g" using assms(6,7) by (simp add: expects_def)
  then show ?thesis using told_same [OF assms(1)] pl pl0 assms(5) by simp
qed

lemma reset_views [simp]:
  "corner_of (Player_Reset pl) = corner_of pl" "m_LocalPlayers (Player_Reset pl) = m_LocalPlayers pl"
  "m_Client (Player_Reset pl) = m_Client pl" "still (Player_Reset pl)"
  "tile_of (Player_Reset pl) = tile_of pl"
  by (simp_all add: corner_of_def tile_of_def still_def Player_Reset_def ClearUpdateFlags_def SetSecondaryDirection_def SetPrimaryDirection_def)

lemma label_reset [simp]: "label_of (Player_Reset pl) = label_of pl"
  by (rule label_cong; simp add: Player_Reset_def ClearUpdateFlags_def SetSecondaryDirection_def SetPrimaryDirection_def)

lemma game_view:
  assumes "game_step order (s, g) = Inr (t, h)" "machine_inv (s, g)" "machine_inv (t, h)" "enumerates order s" "scene s0 s g"
  obtains s1 where "scene s1 t h"
    "\<And>p c k old e. in_bounds p s \<Longrightarrow> in_bounds p t \<Longrightarrow> told p c k old e (expects s0 p s g) s \<Longrightarrow>
       told p c k old e (expects s1 p t h) t"
proof -
  have inv: "sys_inv s" "sys_inv t" using assms(2,3) by (simp_all add: machine_inv_def)
  have reg: "in_bounds p u \<Longrightarrow> registered p u" for p u by (simp add: in_bounds_def)
  show ?thesis
  proof (cases g)
    case Sleeping
    with assms(1,5) have step: "game_step order (s, Sleeping) = Inr (t, h)" "idle s" by simp_all
    show ?thesis
      by (rule that [OF begin_scene [OF step(1) sys_invD(1) [OF inv(1)] assms(4) step(2)]])
        (use begin_told [OF step(1) inv(1) assms(4) step(2)] Sleeping in simp)
  next
    case (Updating ps all)
    show ?thesis
    proof (cases ps)
      case Nil
      with assms(1) Updating have t: "t = s" "h = Resetting all all" by simp_all
      have "scene s0 t h" using assms(5) by (auto simp: t Updating Nil dest: stage_setD(3))
      then show ?thesis by (rule that) (simp add: t Updating Nil expects_def)
    next
      case (Cons q qs)
      with assms(1) Updating have t: "UpdatePlayer order q s = Inr t" "h = Updating qs all" by (auto simp: fault_simps)
      note m = assms(2) [unfolded Updating Cons] and sc = assms(5) [unfolded Updating Cons]
      show ?thesis
        by (rule that [OF update_scene [OF m assms(4) t(1) sc, folded t(2)]])
          (use update_told [OF m assms(4) t(1) sc] in \<open>simp add: Updating Cons t(2)\<close>)
    qed
  next
    case (Resetting ps all)
    have views: "told p c k old e (expects s0 p t h) t"
      if told: "told p c k old e (expects s0 p s g) s" and bounds: "in_bounds p s" "in_bounds p t"
        and t: "clients t = clients s" "\<not> pending p h"
        and at: "\<And>r z. heap_at (players t) r = Some z \<Longrightarrow> \<exists>y. heap_at (players s) r = Some y \<and> (z = y \<or> z = Player_Reset y)"
      for p c k old e
    proof -
      have "\<not> pending p g" by (simp add: Resetting)
      moreover have "\<exists>y. heap_at (players s) r = Some y \<and> tile_of z = tile_of y \<and> label_of z = label_of y \<and>
          corner_of z = corner_of y \<and> m_LocalPlayers z = m_LocalPlayers y \<and> m_Client z = m_Client y"
        if "heap_at (players t) r = Some z" for r z
        using at [OF that] by auto
      ultimately show ?thesis
        using quiet_told [OF told inv reg [OF bounds(1)] t(1) _ t(2) _ reg [OF bounds(2)]] by blast
    qed
    show ?thesis
    proof (cases ps)
      case Nil
      with assms(1) Resetting have t: "t = release_players all (s\<lparr>playerList := []\<rparr>)" "h = Sleeping" by simp_all
      have at: "heap_at (players t) r = Some z \<Longrightarrow> heap_at (players s) r = Some z" for r z
        using release_players_at [of all "s\<lparr>playerList := []\<rparr>" r z] by (simp add: t)
      have "scene s0 t h" using assms(5) at by (auto simp: t(2) Resetting Nil idle_def)
      then show ?thesis
        using views at release_players_frame [of all "s\<lparr>playerList := []\<rparr>"] by (intro that) (simp_all add: t)
    next
      case (Cons q qs)
      with assms(1) Resetting obtain pl where t: "heap_at (players s) q = Some pl" "t = put_player q (Player_Reset pl) s"
        "h = Resetting qs all"
        by (auto simp: fault_simps on_player_Inr)
      have at: "heap_at (players t) r = Some z \<Longrightarrow> heap_at (players s) r = Some z \<and> r \<noteq> q \<or> r = q \<and> z = Player_Reset pl" for r z
        using t(1) by (auto simp: t(2) at_put_player split: if_splits)
      have sc: "scene s0 t h" using assms(5) at by (fastforce simp: t(3) Resetting Cons)
      have at': "heap_at (players t) r = Some z \<Longrightarrow> \<exists>y. heap_at (players s) r = Some y \<and> (z = y \<or> z = Player_Reset y)" for r z
        using at t(1) by blast
      have frame: "clients t = clients s" "\<not> pending p h" for p by (simp_all add: t(2,3))
      show ?thesis by (rule that [OF sc views [OF _ _ _ frame at']])
    qed
  qed
qed

lemma view_step:
  assumes "process_step (s, g) (t, h)" "machine_inv (s, g)" "scene s0 s g"
  obtains s1 where "scene s1 t h"
    "\<And>p c k old e. in_bounds p s \<Longrightarrow> in_bounds p t \<Longrightarrow> told p c k old e (expects s0 p s g) s \<Longrightarrow>
       told p c k old e (expects s1 p t h) t"
proof -
  have inv: "machine_inv (t, h)" using process_step_ok [OF assms(1,2)] by simp
  from assms(1) show ?thesis
  proof (rule process_stepE)
    assume n: "network_step s t" "h = g"
    show ?thesis
      by (rule that [OF network_scene [OF n(1) assms(2,3), folded n(2)]])
        (use network_told [OF n(1) assms(2)] n(2) in \<open>simp add: in_bounds_def\<close>)
  next
    fix order assume game: "enumerates order s" "game_step order (s, g) = Inr (t, h)"
    show ?thesis by (rule game_view [OF game(2) assms(2) inv game(1) assms(3)]) (rule that)
  qed
qed

lemma scene_reaches: "process_reaches m \<Longrightarrow> \<exists>s0. scene s0 (fst m) (snd m)"
proof (induction rule: process_reaches.induct)
  case new
  show ?case by (simp add: idle_def Server_new_def heap_at_def)
next
  case (step m n)
  then obtain s0 where "scene s0 (fst m) (snd m)" by blast
  then show ?case
    using view_step [of "fst m" "snd m" "fst n" "snd n" s0] step(1,2) process_inv [of m] by (metis prod.collapse)
qed

section \<open>Any run\<close>

text \<open>A run during which a player stays in the world, and within the bounds.\<close>

abbreviation stay :: "ref \<Rightarrow> machine \<Rightarrow> machine \<Rightarrow> bool" where
  "stay p m n \<equiv> process_step m n \<and> in_bounds p (fst n)"

lemma told_run:
  assumes "(stay p)\<^sup>*\<^sup>* m n" "machine_inv m" "in_bounds p (fst m)" "scene s0 (fst m) (snd m)"
    and "told p c k old e (expects s0 p (fst m) (snd m)) (fst m)"
  shows "machine_inv n \<and> in_bounds p (fst n) \<and>
    (\<exists>s1. scene s1 (fst n) (snd n) \<and> told p c k old e (expects s1 p (fst n) (snd n)) (fst n))"
  using assms
proof (induction rule: rtranclp_induct)
  case base
  then show ?case by blast
next
  case (step n k')
  then obtain s1 where n: "machine_inv n" "in_bounds p (fst n)" "scene s1 (fst n) (snd n)"
    "told p c k old e (expects s1 p (fst n) (snd n)) (fst n)" by blast
  have k: "process_step (fst n, snd n) (fst k', snd k')" "in_bounds p (fst k')" using step(2) by simp_all
  obtain s2 where "scene s2 (fst k') (snd k')" "told p c k old e (expects s2 p (fst k') (snd k')) (fst k')"
    using view_step [OF k(1) _ n(3)] n(1,2,4) k(2) by (metis prod.collapse)
  moreover have "machine_inv k'" using process_step_ok [OF _ n(1)] step(2) by blast
  ultimately show ?case using k(2) by blast
qed

text \<open>Where the client starts from: a new player knows nothing but its tile.\<close>

lemma see_login:
  assumes "look t p = logged_in_player ((Player_new username c)\<lparr>m_Index := i\<rparr>)"
  shows "sees_all (login_packets (Position_new 3200 3200)) (corner, (3200, 3200), []) = Some (known p t)"
proof -
  let ?pl = "logged_in_player ((Player_new username c)\<lparr>m_Index := i\<rparr>)"
  have pos: "m_Position ?pl = Position_new 3200 3200" "m_CurrentRegion ?pl = m_Position ?pl" "m_LocalPlayers ?pl = []"
    by (simp_all add: logged_in_player_def Player_new_def)
  then have "see_corner (region_body (Position_new 3200 3200)) = corner_of ?pl"
    using see_corner_region [of ?pl] by (simp add: Position_new_def)
  then show ?thesis
    using pos by (simp add: login_packets_def sidebars_def known_def assms tile_of_def Position_new_def)
qed

lemma told_login:
  assumes "sys_inv s" "World_GetPlayer username s = None" "used_indices (m_OccupiedIndices s) \<noteq> {..<2048}"
    and "data = loginType # blockLength #
      login_block magic mem sums rsaLength clientHalf serverHalf uid username password"
    and "loginType \<in> {16, 18}" "length sums = 9" "string_fits username" "string_fits password"
    and "unat blockLength \<le> length data - 2" "length data \<le> BUFFER_SIZE"
  defines "seed \<equiv> seed_of clientHalf serverHalf"
  obtains t p i where "connect_run now now' gen hash data s = Some (Inr t)" "network_step\<^sup>*\<^sup>* s t"
    "m_Players t = m_Players s @ [(username, p)]" "{..<i} \<subseteq> used_indices (m_OccupiedIndices s)"
    "heap_at (players t) p = Some (logged_in_player ((Player_new username (length (clients s)))\<lparr>m_Index := word_of_nat i\<rparr>))"
    "told p (length (clients s)) (corner, (3200, 3200), []) [connect_answer gen, [2, 0, 0]]
      (ISAACCipher_new (seed ! 0 + 50) (seed ! 1 + 50) (seed ! 2 + 50) (seed ! 3 + 50)) (known p t) t"
proof -
  obtain t y p packets e' i where t: "connect_run now now' gen hash data s = Some (Inr t)" "network_step\<^sup>*\<^sup>* s t"
    "m_Players t = m_Players s @ [(username, p)]" "heap_at (clients t) (length (clients s)) = Some y"
    "posted y = connect_answer gen # [2, 0, 0] # packets" "m_Encryptor y = Some e'"
    "{..<i} \<subseteq> used_indices (m_OccupiedIndices s)"
    "heap_at (players t) p = Some (logged_in_player ((Player_new username (length (clients s)))\<lparr>m_Index := word_of_nat i\<rparr>))"
    "map_state dec_packet packets (ISAACCipher_new (seed ! 0 + 50) (seed ! 1 + 50) (seed ! 2 + 50) (seed ! 3 + 50)) =
      (login_packets (Position_new 3200 3200), e')"
    using connect_run_result [OF assms(1-10), of now now' gen hash] unfolding Let_def seed_def by blast
  have look: "look t p = logged_in_player ((Player_new username (length (clients s)))\<lparr>m_Index := word_of_nat i\<rparr>)"
    using t(8) by simp
  have "m_Client (look t p) = length (clients s)" by (simp add: look logged_in_player_def Player_new_def)
  with t(4-6,9) see_login [OF look, of corner] have "told p (length (clients s)) (corner, (3200, 3200), [])
      [connect_answer gen, [2, 0, 0]]
      (ISAACCipher_new (seed ! 0 + 50) (seed ! 1 + 50) (seed ! 2 + 50) (seed ! 3 + 50)) (known p t) t"
    unfolding told_def by auto
  with t(1-3,7,8) show ?thesis by (intro that)
qed

text \<open>The running cycle knows nothing of a player whose client has just connected.\<close>

lemma fresh_player:
  assumes "machine_inv (s, g)" "network_step\<^sup>*\<^sup>* s t" "heap_at (players t) p = Some pl" "length (clients s) \<le> m_Client pl"
  shows "\<not> pending p g"
proof
  assume "pending p g"
  then obtain ps all where g: "g = Updating ps all" "p \<in> set ps" by (cases "(p, g)" rule: pending.cases) auto
  have inv: "sys_inv s" "p \<in> set (playerList s)" using assms(1) g by (auto simp: machine_inv_def)
  then have "listed_ok p s" using sys_invD(1) by (simp add: world_ok_def)
  then obtain pl0 where pl0: "heap_at (players s) p = Some pl0" "m_Client pl0 < length (clients s)"
    by (auto simp: listed_ok_def)
  from network_player [OF assms(2) inv pl0(1)] assms(3) have "m_Client pl = m_Client pl0" by auto
  with pl0(2) assms(4) show False by simp
qed

text \<open>The only player of a server is in bounds after its login.\<close>

lemma bob_told:
  obtains t p where "connect_run 1 2 7 0 bob_data Server_new = Some (Inr t)" "process_reaches (t, Sleeping)" "in_bounds p t"
    "m_Players t = [(''bob'', p)]"
proof -
  obtain t p i where t: "connect_run 1 2 7 0 bob_data Server_new = Some (Inr t)" "network_step\<^sup>*\<^sup>* Server_new t"
    "m_Players t = m_Players Server_new @ [(''bob'', p)]" "{..<i} \<subseteq> used_indices (m_OccupiedIndices Server_new)"
    "heap_at (players t) p = Some (logged_in_player ((Player_new ''bob'' (length (clients Server_new)))\<lparr>m_Index := word_of_nat i\<rparr>))"
    using told_login [OF bob_login(1-3) bob_data_def bob_login(4-9), of 1 2 7 0] by metis
  have "{..<i} \<subseteq> {}" using t(4) by (simp add: Server_new_def used_none MAX_PLAYERS_def)
  then have "i = 0" by (metis empty_iff gr0I lessThan_iff subsetD)
  moreover have pl: "m_Players t = [(''bob'', p)]" using t(3) by (simp add: Server_new_def)
  ultimately have "in_bounds p t"
    using t(5) by (simp add: in_bounds_def registered_def logged_in_player_def Player_new_def index_num_def tile_of_def
        Position_new_def)
  with t(1) new_process [OF t(2)] pl that show ?thesis by blast
qed

section \<open>Properties\<close>

lemma told_here:
  assumes "process_reaches (s, g)" "\<not> pending p g" "told p c k old e (known p s) s"
    and "in_bounds p s" "(stay p)\<^sup>*\<^sup>* (s, g) (t, h)" "\<not> pending p h"
  shows "told p c k old e (known p t) t"
proof -
  obtain s0 where s0: "scene s0 s g" using scene_reaches [OF assms(1)] by auto
  have "told p c k old e (expects s0 p s g) s" unfolding expects_def if_not_P [OF assms(2)] by (rule assms(3))
  then obtain s1 where "told p c k old e (expects s1 p t h) t"
    using told_run [OF assms(5) process_inv [OF assms(1)]] assms(4) s0 by fastforce
  then show ?thesis unfolding expects_def if_not_P [OF assms(6)] .
qed

text \<open>
  C6: a client sees the world as it is, while both threads run. Take a registered player in a reachable state, and a client that knows the truth
  about it: the corner of its map, its own tile, and the index, the appearance and the tile of each of its local players. After any further
  interleaving of handlers and steps of the game thread, during which the player stays registered and the bounds of the protocol are kept, what has been
  posted to the client, decoded with the key of the session and read field by field, tells it exactly the truth
  then: who moved where, who left its view and who came into it, and the new map when the player walked off the old one.
  Only while a cycle has still to come to its update, the client is one update behind, so the two states are
  ones in which its update is not pending. The bounds are fewer than 255 local players, no player with the index 2047, which is also the end marker of the
  packet, and coordinates below \<open>2 ^ 19\<close>, since the region is sent in sixteen bits.
\<close>

theorem view_follows:
  assumes "process_reaches (s, g)" "\<not> pending p g" "in_bounds p s" "(stay p)\<^sup>*\<^sup>* (s, g) (t, h)" "\<not> pending p h"
    and "heap_at (clients s) (m_Client (look s p)) = Some x" "m_Encryptor x = Some e"
  shows "\<exists>y packets msgs e'. heap_at (clients t) (m_Client (look s p)) = Some y \<and> posted y = posted x @ packets \<and>
    m_Encryptor y = Some e' \<and> map_state dec_packet packets e = (msgs, e') \<and>
    sees_all msgs (known p s) = Some (known p t)"
  using told_here [OF assms(1,2) told_now [OF assms(6,7)] assms(3-5)] unfolding told_def by blast

theorem view_follows_witness:
  "\<exists>s t p x y e msgs. process_reaches (s, Sleeping) \<and> m_Players s = [(''bob'', p)] \<and> t = Run s \<and>
     heap_at (clients s) (m_Client (look s p)) = Some x \<and> m_Encryptor x = Some e \<and>
     heap_at (clients t) (m_Client (look s p)) = Some y \<and> sees_all msgs (known p s) = Some (known p t)"
proof -
  obtain s p where s: "process_reaches (s, Sleeping)" "in_bounds p s" "m_Players s = [(''bob'', p)]" using bob_told by metis
  then have reg: "registered p s" by (simp add: registered_def)
  obtain pl x e where p: "heap_at (players s) p = Some pl" "heap_at (clients s) (m_Client pl) = Some x" "m_Encryptor x = Some e"
    using member_here [OF process_sys_inv [OF s(1)] reg] .
  then have x: "heap_at (clients s) (m_Client (look s p)) = Some x" by simp
  have "in_bounds p (Run s)" using s(2) by (simp add: in_bounds_def Run_def registered_def look_def)
  then have "stay p (s, Sleeping) (Run s, Sleeping)" by (simp add: process_step.network network_step.start)
  then have "(stay p)\<^sup>*\<^sup>* (s, Sleeping) (Run s, Sleeping)" by (rule r_into_rtranclp [where r = "stay p"])
  from view_follows [OF s(1) _ s(2) this _ x p(3)] s(1,3) x p(3) show ?thesis by (metis pending.simps(2))
qed

text \<open>
  C3: a client that logs in sees the world as it is, from the first packet on, while both threads run. In every reachable state, in the middle of a cycle too, in which the
  name is not online and an index is free, a connection with a well-formed login leads to a reachable state in
  which the player is registered; and from there on, as long as the player stays registered and the bounds of the
  protocol are kept, all that has ever been posted to the client is the answer to the connection, the response 2, and packets which
  it decodes with the key of the session, starting from its seed, and whose reading gives exactly the corner of its map, its own
  tile, and the index, the appearance and the tile of each of its local players, whenever its update is not pending in a running cycle.
\<close>

theorem view_from_login:
  assumes "process_reaches (s, g)" "World_GetPlayer username s = None" "used_indices (m_OccupiedIndices s) \<noteq> {..<2048}"
    and "data = loginType # blockLength #
      login_block magic mem sums rsaLength clientHalf serverHalf uid username password"
    and "loginType \<in> {16, 18}" "length sums = 9" "string_fits username" "string_fits password"
    and "unat blockLength \<le> length data - 2" "length data \<le> BUFFER_SIZE"
  shows "\<exists>t p. connect_run now now' gen hash data s = Some (Inr t) \<and> process_reaches (t, g) \<and>
    m_Players t = m_Players s @ [(username, p)] \<and>
    (\<forall>u h. in_bounds p t \<longrightarrow> (stay p)\<^sup>*\<^sup>* (t, g) (u, h) \<longrightarrow> \<not> pending p h \<longrightarrow>
      (\<exists>y packets msgs e'. heap_at (clients u) (length (clients s)) = Some y \<and>
         posted y = [connect_answer gen, [2, 0, 0]] @ packets \<and>
         (let seed = seed_of clientHalf serverHalf
          in map_state dec_packet packets
               (ISAACCipher_new (seed ! 0 + 50) (seed ! 1 + 50) (seed ! 2 + 50) (seed ! 3 + 50)) = (msgs, e')) \<and>
         sees_all msgs (corner, (3200, 3200), []) = Some (known p u)))"
proof -
  let ?seed = "seed_of clientHalf serverHalf"
  let ?key = "ISAACCipher_new (?seed ! 0 + 50) (?seed ! 1 + 50) (?seed ! 2 + 50) (?seed ! 3 + 50)"
  obtain t p i where t: "connect_run now now' gen hash data s = Some (Inr t)" "network_step\<^sup>*\<^sup>* s t"
    "m_Players t = m_Players s @ [(username, p)]"
    "heap_at (players t) p = Some (logged_in_player ((Player_new username (length (clients s)))\<lparr>m_Index := word_of_nat i\<rparr>))"
    "told p (length (clients s)) (corner, (3200, 3200), []) [connect_answer gen, [2, 0, 0]] ?key (known p t) t"
    using told_login [OF process_sys_inv [OF assms(1)] assms(2-), of now now' gen hash corner] .
  have reaches: "process_reaches (t, g)" by (rule network_reaches [OF assms(1) t(2)])
  have "length (clients s) \<le> m_Client (logged_in_player ((Player_new username (length (clients s)))\<lparr>m_Index := word_of_nat i\<rparr>))"
    by (simp add: logged_in_player_def Player_new_def)
  from told_here [OF reaches fresh_player [OF process_inv [OF assms(1)] t(2,4) this] t(5)]
  show ?thesis using t(1,3) reaches unfolding told_def Let_def by blast
qed

theorem view_from_login_witness:
  "\<exists>t p y msgs. connect_run 1 2 7 0 bob_data Server_new = Some (Inr t) \<and> m_Players t = [(''bob'', p)] \<and>
     heap_at (clients t) 0 = Some y \<and> sees_all msgs ((0, 0), (3200, 3200), []) = Some (known p t)"
proof -
  obtain t p where t: "connect_run 1 2 7 0 bob_data Server_new = Some (Inr t)" "in_bounds p t" "m_Players t = [(''bob'', p)]"
    using bob_told by metis
  have "m_Players Server_new = []" "length (clients Server_new) = 0" by (simp_all add: Server_new_def)
  moreover from view_from_login [OF process_reaches.new bob_login(2,3) bob_data_def bob_login(4-9), of 1 2 7 0 "(0, 0)"]
  obtain t' p' where "connect_run 1 2 7 0 bob_data Server_new = Some (Inr t')"
    "m_Players t' = m_Players Server_new @ [(''bob'', p')]"
    "in_bounds p' t' \<longrightarrow> (stay p')\<^sup>*\<^sup>* (t', Sleeping) (t', Sleeping) \<longrightarrow> \<not> pending p' Sleeping \<longrightarrow>
      (\<exists>y msgs. heap_at (clients t') (length (clients Server_new)) = Some y \<and>
         sees_all msgs ((0, 0), (3200, 3200), []) = Some (known p' t'))"
    by blast
  ultimately show ?thesis using t by auto
qed

end
