(* ===== verification/Spec2Isabelle.thy ===== *)
theory Spec2Isabelle
  imports StreamBuffer_Bits Util Client_Loop Process_View
begin

text \<open>
  A verification development for the game server in \<open>src/src\<close> (C++, network code on asio).

  \<^bold>\<open>The program.\<close> \<open>Server\<close> accepts connections and runs the game loop. A \<open>Client\<close> is one connection: it reads
  chunks of at most 512 bytes, hands them to the \<open>LoginHandler\<close> until it is logged in, and then cuts them into
  encrypted packets; it writes the buffers that \<open>Send\<close> queues. \<open>World\<close> registers the players of logged-in clients by
  name and index. In each cycle it moves every player (\<open>Player\<close>, \<open>MovementHandler\<close>), sends each one an update packet
  (\<open>PlayerUpdating\<close>), and resets them. \<open>StreamBuffer\<close> reads and writes the packets, \<open>ISAACCipher\<close> encrypts their opcodes.

  \<^bold>\<open>How code becomes definitions.\<close> A function of the source is a definition of the same name; a clash with another
  name is resolved by a prefix (\<open>World_GetPlayer\<close>, \<open>Client_new\<close>). Getters and overloads that only supply
  default arguments are abbreviations. Integers are words of their width, except for the positions and sizes in a
  \<open>StreamBuffer\<close>, natural numbers below \<open>2 ^ 31\<close>: a write that takes one out of this range is a fault. Unsigned arithmetic, that
  of coordinates, items and ciphers, wraps. Signed arithmetic is checked where the code does not bound its operands; the
  sums in a movement packet, of a number of two bytes and one of a byte, need no check. A class is a record. \<open>System\<close> (in \<open>Game_State\<close>) holds all objects: a heap of players, a heap of clients, the registry of the world,
  the sessions of the server, and \<open>playerList\<close>, the local variable of \<open>World::Process\<close> that keeps its players alive. \<open>shared_ptr\<close> and \<open>weak_ptr\<close> are addresses; \<open>release_players\<close> destroys what no
  pointer owns, \<open>heap_at\<close> is \<open>weak_ptr::lock\<close>. Code that may throw, read out of range, use a null pointer, overflow a
  signed integer or start an operation twice returns \<open>fault + 'a\<close>. Code that may not return is a
  \<open>partial_function\<close> into \<open>option\<close>, and \<open>None\<close> means that it does not return.

  \<^bold>\<open>Theories.\<close>
  \<^item> \<open>Prelude\<close>: faults, their sequencing \<open>bindR\<close>, loops \<open>foldR\<close>, and the rules \<open>outcome\<close> that state what a call returns
    and how it may fault.
  \<^item> \<open>ISAACCipher\<close> (\<open>ISAACCipher.cpp\<close>): the cipher, equal to the reference generator, in bounds, with every key in closed form.
  \<^item> \<open>StreamBuffer\<close>, \<open>StreamBuffer_Codec\<close>, \<open>StreamBuffer_Bits\<close>, \<open>StreamBuffer_Reads\<close> (\<open>StreamBuffer.cpp\<close>): the buffer; round trips of all
    encodings in one locale of paired reads and writes; frames; bit access refined to a list of bits; reads of
    arbitrary data.
  \<^item> \<open>Util\<close>, \<open>Position\<close>, \<open>UpdateFlags\<close> (the headers of the same names): the name hash and its inverse, coordinates, flags.
  \<^item> \<open>Game_State\<close>, \<open>Movement\<close> (\<open>MovementHandler.cpp\<close>), \<open>Client_Send\<close> (the sending half of \<open>Client.cpp\<close>), \<open>Player\<close> (\<open>Player.cpp\<close>),
    \<open>World\<close> (\<open>World.cpp\<close>): paths as chains of adjacent tiles, the packets posted to a client, the registry.
  \<^item> \<open>PlayerUpdating\<close>, \<open>Update_Packet\<close>, \<open>Update_Loops\<close>, \<open>Update_Player\<close> (\<open>PlayerUpdating.cpp\<close>): the update packet and its exact contents;
    \<open>World_Tick\<close>: the cycle of the world and its invariant \<open>world_ok\<close>.
  \<^item> \<open>Client_IO\<close> (\<open>Client.cpp\<close>): reads, the write queue, \<open>Disconnect\<close>. \<open>Session\<close>: the invariant \<open>sys_inv\<close> of the whole process,
    which connects each client with its operations, its player, the registry and the sessions. \<open>Session_Spec\<close>: the abstract
    server (sessions, and who is online in which), its events, and what every operation promises besides \<open>sys_inv\<close>.
  \<^item> \<open>LoginHandler\<close>, \<open>Login\<close> (\<open>LoginHandler.cpp\<close>): both stages of the login and their outcome.
  \<^item> \<open>Client_Input\<close>, \<open>Client_Requests\<close>, \<open>Client_Loop\<close> (\<open>Client.cpp\<close>, \<open>Packet.h\<close>): received data as a sequence of requests, the data
    that hangs or crashes the server, the rate limit, and the number of iterations that decides termination.
  \<^item> \<open>Client_Strand\<close>: the handlers on the strand of a client; the data handed to \<open>Send\<close> is written completely and in order.
  \<^item> \<open>Server\<close> (\<open>Server.cpp\<close>): the network thread, \<open>network_step\<close>, in which accepted connections, completed operations and
    handlers of the strands interleave in any order. \<open>Server_Session\<close>: a whole login as a run of network steps.
  \<^item> \<open>Server_Refinement\<close>: every network step is an event of the abstract server, and data is only appended for a client.
  \<^item> \<open>Game_Thread\<close> (\<open>World::Process\<close>): the cycle cut into the calls for single players, \<open>game_step\<close>; together with the
    network steps it gives \<open>process_step\<close>, the two threads interleaved. Without interruption the steps are the cycle
    (\<open>game_run_cycle\<close>), and with interruptions they keep \<open>sys_inv\<close> or fault in one known way.
  \<^item> \<open>Process\<close>: what holds in every state the process reaches, also in the middle of a cycle: consistency, types and bounds,
    the refinement of the abstract server, the outcome of handlers and of the steps of the game thread, logins, the order of sent data, and
    the player that leaves during a cycle and crashes the server.
  \<^item> \<open>Update_View\<close>, \<open>World_View\<close>, \<open>Process_View\<close>: the other end of the connection. A reader of the update and map region packets,
    written from the protocol, keeps the corner of the map, the tile of the player and the index, appearance and tile of its local players. One packet
    (\<open>see_packet\<close>), one update (\<open>update_known\<close>) and any interleaved run since the login (\<open>view_from_login\<close>) tell it exactly what
    the server has; while its update in a running cycle is pending, a client is one update behind.

  \<^bold>\<open>Interfaces.\<close> The locales state what one component relies on in another, and are interpreted on the definitions of the
  code: the paired reads and writes of \<open>StreamBuffer\<close>, the encrypted channel of packets and of requests, the
  allocation of indices, and \<open>steps\<close>, an operation repeated for the players of the world, extended by \<open>local_steps\<close>, in which
  each operation finds its own player untouched by the others.

  \<^bold>\<open>Bounds and fuel.\<close> Only \<open>input_steps\<close> takes fuel: one iteration more than the bytes left is enough, by \<open>input_loop_bound\<close>.
  The cycle of a player's update needs buffers below 65536 bytes; \<open>update_packet\<close> shows that they are. The theorems on
  single operations of \<open>StreamBuffer\<close> take the room that is left below \<open>2 ^ 31\<close> as a hypothesis, and the packets of the server are shown to
  have it; reading is modelled for vectors of fewer than \<open>2 ^ 31\<close> bytes, and received data has at most 512. \<open>ReadString\<close> stops after 1024
  characters, as the code does. \<open>in_bounds\<close> collects what the protocol can express: fewer than 255 local players, no index 2047, and
  coordinates below \<open>2 ^ 19\<close>; beyond them the client and the server disagree, as the findings say.

  \<^bold>\<open>Parameters.\<close> The order in which \<open>std::unordered_map\<close> enumerates the players (\<open>order\<close>), the clock (\<open>now\<close>, in
  nanoseconds) and the random number of the first stage (\<open>gen\<close>) are arguments; the results hold for all of them. The
  address of a new object is one that was not used before. From asio the model takes its documented behaviour: a strand runs its
  handlers one at a time in the order posted, an operation completes once, with or without an error.

  \<^bold>\<open>Not modelled.\<close> \<open>Log\<close> writes to a console and keeps no state that the program reads. \<open>EntryPoint\<close> only constructs and
  runs the server. The sockets, the starting and joining of the thread and the sleep of the game loop are not in the model.
  Handlers of the network thread and the calls for single players on the game thread are atomic steps, and so is the first loop of
  \<open>World::Process\<close>. In the source both threads access the world, the players and the ciphers without a lock, so two such
  steps may also overlap, which is a data race; the results are about executions in which they do not. \<open>Run\<close> stops the network thread after the last
  cycle; in the model handlers may still run then. \<open>World::Instance\<close> is the one world of the \<open>System\<close>.
\<close>

end
